(* ===== verification/Prelude.thy ===== *)
theory Prelude
  imports "HOL-Library.Word" "HOL-Library.Multiset"
begin

text \<open>
  Shared vocabulary of the development: the integer widths of the C code, the collections of
  rewrite rules the component theories fill and use, and the generic facts about words,
  lists and transition systems that more than one component needs.
\<close>

unbundle bit_operations_syntax

type_synonym u8 = "8 word"
type_synonym u32 = "32 word"
type_synonym u64 = "64 word"

named_theorems ledger_simps \<open>effect of acquiring and releasing kernel resources\<close>
named_theorems fifo_simps \<open>effect of queue operations on the abstract queue\<close>
named_theorems mmio_simps \<open>effect of register accesses\<close>
named_theorems frame_simps \<open>fields an operation leaves alone\<close>

section \<open>Words\<close>

lemma unat_lt32: "unat (w :: u32) < 2 ^ 32"
  using unsigned_less [of w] by simp

lemma unat_lt64: "unat (w :: u64) < 2 ^ 64"
  using unsigned_less [of w] by simp

lemma unat_suc_word:
  fixes w :: "'a::len word"
  assumes "Suc (unat w) < 2 ^ LENGTH('a)"
  shows "unat (w + 1) = Suc (unat w)"
  using assms by (simp add: unat_word_ariths(1) add.commute)

lemma unat_diff_le:
  fixes v w :: "'a::len word"
  assumes "unat v \<le> unat w"
  shows "unat (w - v) = unat w - unat v"
  using assms by (simp add: unat_sub word_le_nat_alt)

lemma unat_suc_diff:
  fixes v w :: "'a::len word"
  assumes "Suc (unat (w - v)) < 2 ^ LENGTH('a)"
  shows "unat ((w + 1) - v) = Suc (unat (w - v))"
proof -
  have "(w + 1) - v = (w - v) + 1" by (rule add_diff_eq [symmetric, THEN trans]) simp
  then show ?thesis using unat_suc_word [OF assms] by (simp only:)
qed

lemma unat_pred_diff:
  fixes v w :: "'a::len word"
  assumes "w \<noteq> v"
  shows "Suc (unat (w - (v + 1))) = unat (w - v)"
proof -
  have nz: "w - v \<noteq> 0" using assms by simp
  then have pos: "0 < unat (w - v)" by (simp add: unat_gt_0)
  have "w - (v + 1) = (w - v) - 1" by (rule diff_diff_eq [symmetric])
  then have "unat (w - (v + 1)) = unat (w - v) - 1"
    using unat_minus_one [OF nz] by (simp only:)
  with pos show ?thesis by simp
qed

lemma unat_add_mod_dvd:
  fixes w :: "'a::len word"
  assumes "m dvd 2 ^ LENGTH('a)"
  shows "unat (w + of_nat i) mod m = (unat w + i) mod m"
proof -
  have "unat (w + of_nat i) = (unat w + i) mod 2 ^ LENGTH('a)"
    by (simp add: unat_word_ariths unat_of_nat mod_add_right_eq)
  then show ?thesis using assms by (simp add: mod_mod_cancel)
qed

section \<open>Lists\<close>

lemma nth_update_other:
  "i \<noteq> j \<Longrightarrow> xs[i := x] ! j = xs ! j"
  by simp

lemma take_Suc_hd_drop:
  "n < length xs \<Longrightarrow> take (Suc n) xs = take n xs @ [xs ! n]"
  by (rule take_Suc_conv_app_nth)

lemma mod_neq_within:
  fixes i j n :: nat
  assumes "i < j" "j < i + n"
  shows "i mod n \<noteq> j mod n"
proof
  assume "i mod n = j mod n"
  then have "n dvd j - i" using mod_eq_dvd_iff_nat [of i j n] assms(1) by simp
  then have "n \<le> j - i" using assms(1) by (intro dvd_imp_le) auto
  with assms show False by simp
qed

section \<open>Multisets\<close>

lemma add_mset_subset_drop: "add_mset x A \<subseteq># B \<Longrightarrow> A \<subseteq># B"
  by (blast dest: mset_subset_eq_insertD intro: subset_mset.less_imp_le)

section \<open>Transition systems\<close>

text \<open>
  The interface shared by the concurrent components: an initial predicate, a step relation and
  an inductive invariant.  The reachable states are those of the closure, and every reachable
  state satisfies the invariant.
\<close>

inductive reachable_from :: "('s \<Rightarrow> 's \<Rightarrow> bool) \<Rightarrow> 's \<Rightarrow> 's \<Rightarrow> bool"
  for step :: "'s \<Rightarrow> 's \<Rightarrow> bool" and s0 :: 's where
  reach_start: "reachable_from step s0 s0"
| reach_step: "reachable_from step s0 s \<Longrightarrow> step s t \<Longrightarrow> reachable_from step s0 t"

locale step_system =
  fixes start :: "'s \<Rightarrow> bool"
    and step :: "'s \<Rightarrow> 's \<Rightarrow> bool"
    and inv :: "'s \<Rightarrow> bool"
  assumes start_inv: "start s \<Longrightarrow> inv s"
    and step_inv: "step s t \<Longrightarrow> inv s \<Longrightarrow> inv t"
begin

lemma reachable_inv:
  assumes "start s0" and "reachable_from step s0 s"
  shows "inv s"
  using assms(2)
proof (induction rule: reachable_from.induct)
  case reach_start
  show ?case using assms(1) by (rule start_inv)
next
  case (reach_step s t)
  then show ?case by (blast intro: step_inv)
qed

end

end
