(* ===== verification/Kernel.thy ===== *)
theory Kernel
  imports Prelude
begin

text \<open>
  What the driver borrows from the Linux kernel.  The kernel is not part of the repository, so
  its answers are parameters: a \<open>kenv\<close> record of functions that the operations take as
  an argument, each indexed by the number of the call, so that every call may answer
  differently.  What the driver holds is tracked in a ledger of resources; giving back
  something that is not held is recorded as a fault (in C: a double free or a wild free).
\<close>

section \<open>Resources and the ledger\<close>

datatype resource =
    Kmem nat              \<comment> \<open>a \<open>kmalloc\<close>/\<open>kzalloc\<close>/\<open>kcalloc\<close> block, by its number\<close>
  | PinnedPage nat        \<comment> \<open>a user page pinned by \<open>get_user_pages\<close>\<close>
  | DmaMapped nat         \<comment> \<open>a scatterlist mapped by \<open>dma_map_sg\<close>\<close>
  | DmaBuf nat            \<comment> \<open>a buffer of \<open>pci_alloc_consistent\<close>\<close>
  | PciEnabled
  | PciRegions
  | BarMapped
  | MsiEnabled
  | IrqRequested

datatype fault =
    BadRelease resource   \<comment> \<open>given back without being held\<close>
  | BufOverrun nat        \<comment> \<open>a store past the end of a scatter gather buffer\<close>

record kstate =
  tick :: nat
  held :: "resource multiset"
  faults :: "fault list"
  dirty :: "nat list"   \<comment> \<open>pages marked dirty, in order\<close>

definition acquire :: "resource \<Rightarrow> kstate \<Rightarrow> kstate" where
  "acquire r k = k\<lparr>held := add_mset r (held k)\<rparr>"

definition release :: "resource \<Rightarrow> kstate \<Rightarrow> kstate" where
  "release r k =
     (if r \<in># held k then k\<lparr>held := held k - {#r#}\<rparr>
      else k\<lparr>faults := faults k @ [BadRelease r]\<rparr>)"

definition set_page_dirty :: "nat \<Rightarrow> kstate \<Rightarrow> kstate" where
  "set_page_dirty p k = k\<lparr>dirty := dirty k @ [p]\<rparr>"

definition add_fault :: "fault \<Rightarrow> kstate \<Rightarrow> kstate" where
  "add_fault f k = k\<lparr>faults := faults k @ [f]\<rparr>"

definition advance :: "kstate \<Rightarrow> kstate" where
  "advance k = k\<lparr>tick := Suc (tick k)\<rparr>"

section \<open>The kernel's answers\<close>

text \<open>
  A page is a number; a scatterlist entry is a page, a length and an offset in the page; a
  mapped entry is a bus address and a length.
\<close>

record sgent =
  sg_page :: nat
  sg_len :: u32
  sg_off :: u32

record kenv =
  kmalloc_ok :: "nat \<Rightarrow> bool"
  user_pages :: "nat \<Rightarrow> u64 \<Rightarrow> nat \<Rightarrow> nat list"
  dma_map :: "nat \<Rightarrow> sgent list \<Rightarrow> (u64 \<times> u32) list"
  dma_alloc :: "nat \<Rightarrow> u64 option"
  page_reserved :: "nat \<Rightarrow> bool"

text \<open>
  \<open>kmalloc\<close>, \<open>kzalloc\<close> and \<open>kcalloc\<close>: a fresh block (its number is the pointer) or
  NULL.  \<open>kfree\<close> of NULL does nothing.
\<close>

definition kmalloc :: "kenv \<Rightarrow> kstate \<Rightarrow> nat option \<times> kstate" where
  "kmalloc env k =
     (if kmalloc_ok env (tick k)
      then (Some (tick k), acquire (Kmem (tick k)) (advance k))
      else (None, advance k))"

fun kfree :: "nat option \<Rightarrow> kstate \<Rightarrow> kstate" where
  "kfree None k = k"
| "kfree (Some p) k = release (Kmem p) k"

lemma kfree_Some [simp]: "kfree (Some p) = release (Kmem p)"
  by (rule ext) simp

section \<open>Ledger laws\<close>

lemma held_acquire [ledger_simps]: "held (acquire r k) = add_mset r (held k)"
  by (simp add: acquire_def)

lemma faults_acquire [ledger_simps]: "faults (acquire r k) = faults k"
  by (simp add: acquire_def)

lemma tick_acquire [ledger_simps]: "tick (acquire r k) = tick k"
  by (simp add: acquire_def)

lemma held_advance [ledger_simps]: "held (advance k) = held k"
  by (simp add: advance_def)

lemma faults_advance [ledger_simps]: "faults (advance k) = faults k"
  by (simp add: advance_def)

lemma tick_advance [ledger_simps]: "tick (advance k) = Suc (tick k)"
  by (simp add: advance_def)

lemma held_release [ledger_simps]: "held (release r k) = held k - {#r#}"
  by (simp add: release_def diff_single_trivial)

lemma faults_release [ledger_simps]: "r \<in># held k \<Longrightarrow> faults (release r k) = faults k"
  by (simp add: release_def)

lemma tick_release [ledger_simps]: "tick (release r k) = tick k"
  by (simp add: release_def)

lemma set_page_dirty_frame [ledger_simps]:
  "held (set_page_dirty p k) = held k" "faults (set_page_dirty p k) = faults k"
  "tick (set_page_dirty p k) = tick k" "dirty (set_page_dirty p k) = dirty k @ [p]"
  by (simp_all add: set_page_dirty_def)

lemma dirty_frame [ledger_simps]:
  "dirty (acquire r k) = dirty k" "dirty (release r k) = dirty k" "dirty (advance k) = dirty k"
  by (simp_all add: acquire_def release_def advance_def)

text \<open>
  The contract of a resource store, and what follows from it for whole lists: giving back
  everything that was taken restores the store and raises no fault.
\<close>

locale resource_store =
  fixes take1 give1 :: "'r \<Rightarrow> 's \<Rightarrow> 's"
    and owned :: "'s \<Rightarrow> 'r multiset"
    and errors :: "'s \<Rightarrow> 'e list"
  assumes owned_take: "owned (take1 r s) = add_mset r (owned s)"
    and errors_take: "errors (take1 r s) = errors s"
    and owned_give: "owned (give1 r s) = owned s - {#r#}"
    and errors_give: "r \<in># owned s \<Longrightarrow> errors (give1 r s) = errors s"
begin

lemma owned_take_list: "owned (fold take1 rs s) = mset rs + owned s"
  by (induction rs arbitrary: s) (simp_all add: owned_take)

lemma errors_take_list: "errors (fold take1 rs s) = errors s"
  by (induction rs arbitrary: s) (simp_all add: errors_take)

lemma owned_give_list: "owned (fold give1 rs s) = owned s - mset rs"
  by (induction rs arbitrary: s) (simp_all add: owned_give)

lemma errors_give_list: "mset rs \<subseteq># owned s \<Longrightarrow> errors (fold give1 rs s) = errors s"
proof (induction rs arbitrary: s)
  case Nil
  then show ?case by simp
next
  case (Cons r rs)
  then have r: "r \<in># owned s" by (simp add: insert_subset_eq_iff)
  from Cons.prems have "mset rs \<subseteq># owned (give1 r s)"
    by (simp add: owned_give insert_subset_eq_iff)
  with Cons.IH r show ?case by (simp add: errors_give)
qed

end

interpretation kernel_ledger: resource_store acquire release held faults
  by unfold_locales (simp_all add: ledger_simps)

lemmas [ledger_simps] =
  kernel_ledger.owned_take_list kernel_ledger.errors_take_list
  kernel_ledger.owned_give_list kernel_ledger.errors_give_list

lemma tick_release_list [ledger_simps]: "tick (fold release rs k) = tick k"
  by (induction rs arbitrary: k) (simp_all add: ledger_simps)

lemma tick_acquire_list [ledger_simps]: "tick (fold acquire rs k) = tick k"
  by (induction rs arbitrary: k) (simp_all add: ledger_simps)

end
