(* ===== verification/Circ_Queue.thy ===== *)
theory Circ_Queue
  imports Kernel
begin

text \<open>
  The circular queue of the Linux driver (\<open>circ_queue.h\<close>, \<open>circ_queue.c\<close>), as the
  interrupt handler and the reading threads use it one call at a time; the interleaving of
  calls is the subject of \<open>Circ_Queue_Conc\<close>.  The indices are 32-bit counters that are
  never reduced: only \<open>queue_count_to_index\<close> reduces them modulo the length, so the
  wrap-around of the counters matters and is kept.
\<close>

section \<open>State and operations\<close>

text \<open>
  \<open>struct circ_queue\<close>.  The two-element arrays that \<open>vals\<close> points to are kept as pairs;
  the \<open>ptr\<close> fields are the addresses of the blocks the queue consists of.
\<close>

record circ_queue =
  writeIndex :: u32
  readIndex :: u32
  vals :: "(u32 \<times> u32) list"
  qlen :: u32
  q_ptr :: nat
  vals_ptr :: nat
  slot_ptrs :: "nat list"

definition queue_count_to_index :: "u32 \<Rightarrow> u32 \<Rightarrow> u32" where
  "queue_count_to_index cnt len = cnt mod len"

text \<open>The loop of \<open>init_circ_queue\<close> that allocates the slots; \<open>None\<close> at the first failure.\<close>

fun alloc_slots :: "kenv \<Rightarrow> nat \<Rightarrow> kstate \<Rightarrow> nat list option \<times> kstate" where
  "alloc_slots env 0 k = (Some [], k)"
| "alloc_slots env (Suc n) k =
     (case kmalloc env k of
        (None, k1) \<Rightarrow> (None, k1)
      | (Some p, k1) \<Rightarrow>
          (case alloc_slots env n k1 of
             (None, k2) \<Rightarrow> (None, k2)
           | (Some ps, k2) \<Rightarrow> (Some (p # ps), k2)))"

definition init_circ_queue :: "kenv \<Rightarrow> nat \<Rightarrow> kstate \<Rightarrow> circ_queue option \<times> kstate" where
  "init_circ_queue env len k =
     (case kmalloc env k of
        (None, k1) \<Rightarrow> (None, k1)
      | (Some q, k1) \<Rightarrow>
          (case kmalloc env k1 of
             (None, k2) \<Rightarrow> (None, k2)
           | (Some v, k2) \<Rightarrow>
               (case alloc_slots env len k2 of
                  (None, k3) \<Rightarrow> (None, k3)
                | (Some ps, k3) \<Rightarrow>
                    (Some \<lparr>writeIndex = 0, readIndex = 0, vals = replicate len (0, 0),
                           qlen = of_nat len, q_ptr = q, vals_ptr = v, slot_ptrs = ps\<rparr>, k3))))"

text \<open>\<open>push_circ_queue\<close> returns 0 when the pair was stored and 1 when the queue is full.\<close>

definition push_circ_queue :: "circ_queue \<Rightarrow> u32 \<Rightarrow> u32 \<Rightarrow> nat \<times> circ_queue" where
  "push_circ_queue q val1 val2 =
     (let currWriteIndex = writeIndex q; currReadIndex = readIndex q in
      if queue_count_to_index (currWriteIndex + 1) (qlen q) =
         queue_count_to_index currReadIndex (qlen q)
      then (1, q)
      else (0, q\<lparr>vals := (vals q)
                 [unat (queue_count_to_index currWriteIndex (qlen q)) := (val1, val2)],
                 writeIndex := currWriteIndex + 1\<rparr>))"

text \<open>
  \<open>pop_circ_queue\<close> returns \<open>None\<close> for the non-zero return value and the pair otherwise.
  With no other reader the compare-and-swap on the read index succeeds in the first round.
\<close>

definition pop_circ_queue :: "circ_queue \<Rightarrow> (u32 \<times> u32) option \<times> circ_queue" where
  "pop_circ_queue q =
     (let currReadIndex = readIndex q; currMaxReadIndex = writeIndex q in
      if queue_count_to_index currReadIndex (qlen q) =
         queue_count_to_index currMaxReadIndex (qlen q)
      then (None, q)
      else (Some (vals q ! unat (queue_count_to_index currReadIndex (qlen q))),
            q\<lparr>readIndex := currReadIndex + 1\<rparr>))"

definition circ_queue_empty :: "circ_queue \<Rightarrow> nat" where
  "circ_queue_empty q =
     (if queue_count_to_index (readIndex q) (qlen q) =
         queue_count_to_index (writeIndex q) (qlen q) then 1 else 0)"

definition circ_queue_full :: "circ_queue \<Rightarrow> nat" where
  "circ_queue_full q =
     (if queue_count_to_index (writeIndex q + 1) (qlen q) =
         queue_count_to_index (readIndex q) (qlen q) then 1 else 0)"

fun free_circ_queue :: "circ_queue option \<Rightarrow> kstate \<Rightarrow> kstate" where
  "free_circ_queue None k = k"
| "free_circ_queue (Some q) k =
     kfree (Some (q_ptr q)) (kfree (Some (vals_ptr q))
       (fold (\<lambda>p. kfree (Some p)) (slot_ptrs q) k))"

text \<open>
  The loop \<open>while (!pop_circ_queue(q, ...));\<close> of \<open>chnl_send\<close> and \<open>reset\<close>: it pops
  until the queue reports empty.
\<close>

lemma pop_distance:
  assumes "pop_circ_queue q = (Some m, q')"
  shows "unat (writeIndex q' - readIndex q') < unat (writeIndex q - readIndex q)"
proof -
  from assms have ne: "writeIndex q \<noteq> readIndex q"
    and q': "q' = q\<lparr>readIndex := readIndex q + 1\<rparr>"
    by (auto simp: pop_circ_queue_def Let_def split: if_splits)
  from unat_pred_diff [OF ne] q' show ?thesis by simp
qed

function drain_circ_queue :: "circ_queue \<Rightarrow> circ_queue" where
  "drain_circ_queue q =
     (case pop_circ_queue q of (None, q') \<Rightarrow> q' | (Some m, q') \<Rightarrow> drain_circ_queue q')"
  by pat_completeness auto
termination
  by (relation "measure (\<lambda>q. unat (writeIndex q - readIndex q))")
     (auto dest: pop_distance [OF sym])

declare drain_circ_queue.simps [simp del]

section \<open>The abstract queue\<close>

text \<open>
  The number of stored pairs is the distance of the counters; the pair \<open>i\<close> places behind the
  read index is \<open>slot q i\<close>.  The invariant bounds the distance by the length and asks that the
  counters have not wrapped unless the length divides \<open>2 ^ 32\<close>.  \<open>credit q n\<close> says that
  \<open>n\<close> more pushes keep it so.
\<close>

definition stored :: "circ_queue \<Rightarrow> nat" where
  "stored q = unat (writeIndex q - readIndex q)"

definition slot :: "circ_queue \<Rightarrow> nat \<Rightarrow> u32 \<times> u32" where
  "slot q i = vals q ! ((unat (readIndex q) + i) mod unat (qlen q))"

definition queue_list :: "circ_queue \<Rightarrow> (u32 \<times> u32) list" where
  "queue_list q = map (slot q) [0..<stored q]"

definition queue_cap :: "circ_queue \<Rightarrow> nat" where
  "queue_cap q = unat (qlen q) - 1"

definition divides_wrap :: "circ_queue \<Rightarrow> bool" where
  "divides_wrap q \<longleftrightarrow> 2 ^ 32 mod unat (qlen q) = 0"

definition queue_inv :: "circ_queue \<Rightarrow> bool" where
  "queue_inv q \<longleftrightarrow>
     0 < unat (qlen q) \<and> length (vals q) = unat (qlen q) \<and> stored q < unat (qlen q) \<and>
     (divides_wrap q \<or> unat (readIndex q) \<le> unat (writeIndex q))"

definition credit :: "circ_queue \<Rightarrow> nat \<Rightarrow> bool" where
  "credit q n \<longleftrightarrow> divides_wrap q \<or> unat (writeIndex q) + n < 2 ^ 32"

lemma divides_wrap_frame [simp]:
  "divides_wrap (q\<lparr>vals := v\<rparr>) = divides_wrap q"
  "divides_wrap (q\<lparr>writeIndex := w\<rparr>) = divides_wrap q"
  "divides_wrap (q\<lparr>readIndex := r\<rparr>) = divides_wrap q"
  by (simp_all add: divides_wrap_def)

lemma queue_inv_nonzero: "queue_inv q \<Longrightarrow> qlen q \<noteq> 0"
  by (auto simp: queue_inv_def)

lemma length_queue_list [fifo_simps]: "length (queue_list q) = stored q"
  by (simp add: queue_list_def)

lemma credit_mono: "credit q n \<Longrightarrow> m \<le> n \<Longrightarrow> credit q m"
  by (auto simp: credit_def)

lemma unat_index: "unat (queue_count_to_index c l) = unat c mod unat l"
  by (simp add: queue_count_to_index_def unat_mod)

lemma write_index_unat:
  assumes "queue_inv q"
  shows "unat (writeIndex q) mod unat (qlen q) = (unat (readIndex q) + stored q) mod unat (qlen q)"
proof (cases "divides_wrap q")
  case True
  have w: "writeIndex q = readIndex q + of_nat (stored q)"
    by (simp add: stored_def)
  from True have "unat (qlen q) dvd 2 ^ 32" by (simp add: divides_wrap_def mod_eq_0_iff_dvd)
  then show ?thesis by (subst w) (rule unat_add_mod_dvd, simp)
next
  case False
  then have "unat (readIndex q) \<le> unat (writeIndex q)" using assms by (simp add: queue_inv_def)
  then show ?thesis by (simp add: stored_def unat_diff_le)
qed

lemma succ_index_unat:
  assumes "queue_inv q" and "credit q 1"
  shows "unat (writeIndex q + 1) mod unat (qlen q) =
    Suc (unat (readIndex q) + stored q) mod unat (qlen q)"
proof (cases "divides_wrap q")
  case True
  then have "unat (qlen q) dvd 2 ^ 32" by (simp add: divides_wrap_def mod_eq_0_iff_dvd)
  then have "unat (writeIndex q + of_nat 1) mod unat (qlen q) =
    (unat (writeIndex q) + 1) mod unat (qlen q)" by (intro unat_add_mod_dvd) simp
  then show ?thesis using write_index_unat [OF assms(1)] mod_Suc_eq
    by (metis One_nat_def add.right_neutral add_Suc_right of_nat_1)
next
  case False
  then have "Suc (unat (writeIndex q)) < 2 ^ 32" using assms(2) by (simp add: credit_def)
  then have "unat (writeIndex q + 1) = Suc (unat (writeIndex q))" by (simp add: unat_suc_word)
  then show ?thesis using write_index_unat [OF assms(1)] by (metis mod_Suc_eq)
qed

lemma full_check:
  assumes "queue_inv q" and "credit q 1"
  shows "queue_count_to_index (writeIndex q + 1) (qlen q) =
           queue_count_to_index (readIndex q) (qlen q) \<longleftrightarrow> stored q = queue_cap q"
proof -
  let ?L = "unat (qlen q)" and ?r = "unat (readIndex q)"
  have lt: "stored q < ?L" using assms(1) by (simp add: queue_inv_def)
  have "queue_count_to_index (writeIndex q + 1) (qlen q) =
      queue_count_to_index (readIndex q) (qlen q) \<longleftrightarrow> Suc (?r + stored q) mod ?L = ?r mod ?L"
    using succ_index_unat [OF assms] by (simp add: word_unat_eq_iff unat_index)
  also have "\<dots> \<longleftrightarrow> Suc (stored q) = ?L"
  proof
    assume eq: "Suc (?r + stored q) mod ?L = ?r mod ?L"
    show "Suc (stored q) = ?L"
    proof (rule ccontr)
      assume "Suc (stored q) \<noteq> ?L"
      with lt have "Suc (?r + stored q) < ?r + ?L" by simp
      then have "?r mod ?L \<noteq> Suc (?r + stored q) mod ?L"
        by (intro mod_neq_within) simp_all
      with eq show False by simp
    qed
  next
    assume "Suc (stored q) = ?L"
    then have "Suc (?r + stored q) = ?r + ?L" by simp
    then show "Suc (?r + stored q) mod ?L = ?r mod ?L" by (simp only: mod_add_self2)
  qed
  finally show ?thesis using lt by (auto simp: queue_cap_def)
qed

lemma empty_check:
  assumes "queue_inv q"
  shows "queue_count_to_index (readIndex q) (qlen q) =
           queue_count_to_index (writeIndex q) (qlen q) \<longleftrightarrow> stored q = 0"
proof -
  let ?L = "unat (qlen q)" and ?r = "unat (readIndex q)"
  have lt: "stored q < ?L" using assms by (simp add: queue_inv_def)
  have "queue_count_to_index (readIndex q) (qlen q) =
      queue_count_to_index (writeIndex q) (qlen q) \<longleftrightarrow> ?r mod ?L = (?r + stored q) mod ?L"
    using write_index_unat [OF assms] by (simp add: word_unat_eq_iff unat_index)
  also have "\<dots> \<longleftrightarrow> stored q = 0"
  proof
    assume eq: "?r mod ?L = (?r + stored q) mod ?L"
    show "stored q = 0"
    proof (rule ccontr)
      assume "stored q \<noteq> 0"
      with lt have "?r mod ?L \<noteq> (?r + stored q) mod ?L"
        by (intro mod_neq_within) simp_all
      with eq show False by simp
    qed
  qed simp
  finally show ?thesis .
qed

section \<open>Operations on the abstract queue\<close>

lemma push_full:
  assumes "queue_inv q" "credit q 1" "stored q = queue_cap q"
  shows "push_circ_queue q a b = (1, q)"
  using full_check [OF assms(1,2)] assms(3) by (simp add: push_circ_queue_def)

lemma push_room_eq:
  assumes "queue_inv q" "credit q 1" "stored q \<noteq> queue_cap q"
  shows "push_circ_queue q a b =
    (0, q\<lparr>vals := (vals q)[(unat (readIndex q) + stored q) mod unat (qlen q) := (a, b)],
          writeIndex := writeIndex q + 1\<rparr>)"
  using full_check [OF assms(1,2)] assms(3) write_index_unat [OF assms(1)]
  by (simp add: push_circ_queue_def unat_index)

lemma push_room:
  assumes inv: "queue_inv q" and cr: "credit q 1" and room: "stored q \<noteq> queue_cap q"
    and q': "push_circ_queue q a b = (c, q')"
  shows "c = 0" "stored q' = Suc (stored q)" "queue_list q' = queue_list q @ [(a, b)]"
    "queue_inv q'" "qlen q' = qlen q" "readIndex q' = readIndex q"
    "writeIndex q' = writeIndex q + 1"
proof -
  let ?L = "unat (qlen q)" and ?r = "unat (readIndex q)"
  let ?j = "(?r + stored q) mod ?L"
  have L: "0 < ?L" and lt: "Suc (stored q) < ?L"
    using inv room by (auto simp: queue_inv_def queue_cap_def)
  have L32: "?L < 2 ^ 32" by (rule unat_lt32)
  have q'_eq: "c = 0"
    "q' = q\<lparr>vals := (vals q)[?j := (a, b)], writeIndex := writeIndex q + 1\<rparr>"
    using push_room_eq [OF inv cr room, of a b] q' by simp_all
  show "c = 0" by (rule q'_eq)
  have "Suc (stored q) < 2 ^ 32" using lt L32 by linarith
  then show st: "stored q' = Suc (stored q)"
    using unat_suc_diff [of "writeIndex q" "readIndex q"] by (simp add: q'_eq stored_def)
  have other: "slot q' i = slot q i" if "i < stored q" for i
  proof -
    have "(?r + i) mod ?L \<noteq> ?j" using that lt by (intro mod_neq_within) simp_all
    then show ?thesis by (simp add: slot_def q'_eq)
  qed
  have "slot q' (stored q) = (a, b)"
    using L inv by (simp add: slot_def q'_eq queue_inv_def)
  with other st show "queue_list q' = queue_list q @ [(a, b)]"
    by (simp add: queue_list_def)
  have wr: "divides_wrap q \<or> unat (writeIndex q + 1) = Suc (unat (writeIndex q))"
    using cr by (auto simp: credit_def unat_suc_word)
  then have "divides_wrap q \<or> unat (readIndex q) \<le> unat (writeIndex q + 1)"
    using inv by (auto simp: queue_inv_def)
  then show "queue_inv q'"
    using inv lt st by (simp add: queue_inv_def q'_eq)
  show "qlen q' = qlen q" "readIndex q' = readIndex q" "writeIndex q' = writeIndex q + 1"
    by (simp_all add: q'_eq)
qed

lemma push_credit:
  assumes "credit q (Suc n)" "push_circ_queue q a b = (c, q')"
  shows "credit q' n"
proof (cases "divides_wrap q")
  case True
  then show ?thesis using assms(2)
    by (auto simp: push_circ_queue_def credit_def Let_def split: if_splits)
next
  case False
  then have b: "unat (writeIndex q) + Suc n < 2 ^ 32" using assms(1) by (simp add: credit_def)
  then have "unat (writeIndex q + 1) = Suc (unat (writeIndex q))" by (simp add: unat_suc_word)
  with b assms(2) show ?thesis
    by (auto simp: push_circ_queue_def credit_def Let_def split: if_splits)
qed

lemma pop_none:
  assumes "queue_inv q"
  shows "pop_circ_queue q = (None, q) \<longleftrightarrow> queue_list q = []"
  using empty_check [OF assms] by (auto simp: pop_circ_queue_def queue_list_def Let_def)

lemma pop_some:
  assumes inv: "queue_inv q" and ne: "queue_list q \<noteq> []"
    and q': "pop_circ_queue q = (m, q')"
  shows "m = Some (hd (queue_list q))" "queue_list q' = tl (queue_list q)" "queue_inv q'"
    "qlen q' = qlen q" "writeIndex q' = writeIndex q"
proof -
  let ?L = "unat (qlen q)" and ?r = "unat (readIndex q)"
  have st: "stored q \<noteq> 0" using ne by (simp add: queue_list_def)
  then have q'_eq: "m = Some (vals q ! (?r mod ?L))"
    "q' = q\<lparr>readIndex := readIndex q + 1\<rparr>"
    using empty_check [OF inv] q' by (auto simp: pop_circ_queue_def unat_index Let_def)
  have wr: "writeIndex q \<noteq> readIndex q" using st by (auto simp: stored_def)
  have st': "stored q = Suc (stored q')"
    using unat_pred_diff [OF wr] by (simp add: stored_def q'_eq)
  have shift: "slot q' i = slot q (Suc i)" for i
  proof -
    have "(unat (readIndex q + 1) + i) mod ?L = (?r + Suc i) mod ?L"
    proof (cases "divides_wrap q")
      case True
      then have "?L dvd 2 ^ LENGTH(32)" by (simp add: divides_wrap_def mod_eq_0_iff_dvd)
      from unat_add_mod_dvd [OF this, of "readIndex q" 1]
      have "unat (readIndex q + 1) mod ?L = (?r + 1) mod ?L" by simp
      then have "(unat (readIndex q + 1) + i) mod ?L = (?r + 1 + i) mod ?L"
        by (metis mod_add_left_eq)
      then show ?thesis by simp
    next
      case False
      then have "?r \<le> unat (writeIndex q)" using inv by (simp add: queue_inv_def)
      moreover have "?r \<noteq> unat (writeIndex q)" using wr by (simp add: word_unat_eq_iff)
      moreover have "unat (writeIndex q) < 2 ^ 32"
        by (rule unat_lt32)
      ultimately have "Suc ?r < 2 ^ 32" by linarith
      then have "unat (readIndex q + 1) = Suc ?r" by (simp add: unat_suc_word)
      then show ?thesis by simp
    qed
    then show ?thesis by (simp add: slot_def q'_eq)
  qed
  have ql: "queue_list q = slot q 0 # map (slot q \<circ> Suc) [0..<stored q']"
  proof -
    have "[0..<stored q] = 0 # map Suc [0..<stored q']"
      by (simp add: st' upt_conv_Cons map_Suc_upt del: upt_Suc)
    then show ?thesis by (simp add: queue_list_def)
  qed
  show "m = Some (hd (queue_list q))" by (simp add: ql slot_def q'_eq)
  show "queue_list q' = tl (queue_list q)"
    by (simp add: ql, simp add: queue_list_def shift comp_def)
  show "qlen q' = qlen q" "writeIndex q' = writeIndex q" by (simp_all add: q'_eq)
  have "divides_wrap q \<or> unat (readIndex q + 1) \<le> unat (writeIndex q)"
  proof (cases "divides_wrap q")
    case True
    then show ?thesis by simp
  next
    case that: False
    have "?r \<le> unat (writeIndex q)" using that inv by (simp add: queue_inv_def)
    moreover have "?r \<noteq> unat (writeIndex q)" using wr by (simp add: word_unat_eq_iff)
    moreover have "unat (writeIndex q) < 2 ^ 32"
      by (rule unat_lt32)
    ultimately show ?thesis by (simp add: unat_suc_word)
  qed
  then show "queue_inv q'" using inv st'
    by (simp add: queue_inv_def q'_eq)
qed

section \<open>The queue contract\<close>

text \<open>
  What the users of a queue rely on: a push appends unless the queue is full, a pop takes the
  head, both keep the invariant.  \<open>fuel q n\<close> is the right to push \<open>n\<close> more times.
\<close>

locale bounded_fifo =
  fixes push :: "'q \<Rightarrow> 'm \<Rightarrow> nat \<times> 'q"
    and pop :: "'q \<Rightarrow> 'm option \<times> 'q"
    and items :: "'q \<Rightarrow> 'm list"
    and cap :: "'q \<Rightarrow> nat"
    and ok :: "'q \<Rightarrow> bool"
    and fuel :: "'q \<Rightarrow> nat \<Rightarrow> bool"
  assumes push_stores: "\<lbrakk>ok q; fuel q (Suc n); length (items q) < cap q\<rbrakk> \<Longrightarrow>
      fst (push q m) = 0 \<and> ok (snd (push q m)) \<and> items (snd (push q m)) = items q @ [m]"
    and push_refuses: "\<lbrakk>ok q; fuel q (Suc n); cap q \<le> length (items q)\<rbrakk> \<Longrightarrow> push q m = (1, q)"
    and cap_push: "cap (snd (push q m)) = cap q"
    and fuel_push: "fuel q (Suc n) \<Longrightarrow> fuel (snd (push q m)) n"
    and pop_empty: "ok q \<Longrightarrow> items q = [] \<Longrightarrow> pop q = (None, q)"
    and pop_head: "ok q \<Longrightarrow> items q \<noteq> [] \<Longrightarrow>
      fst (pop q) = Some (hd (items q)) \<and> items (snd (pop q)) = tl (items q) \<and> ok (snd (pop q))"
    and cap_pop: "cap (snd (pop q)) = cap q"
    and fuel_pop: "ok q \<Longrightarrow> fuel (snd (pop q)) n = fuel q n"
    and within_cap: "ok q \<Longrightarrow> length (items q) \<le> cap q"
begin

lemma ok_push: "ok q \<Longrightarrow> fuel q (Suc n) \<Longrightarrow> ok (snd (push q m))"
  using push_stores [of q n m] push_refuses [of q n m] by (cases "length (items q) < cap q") auto

text \<open>One push on a bounded queue: append and cut at the capacity.\<close>

lemma items_push:
  assumes "ok q" "fuel q (Suc n)"
  shows "items (snd (push q m)) = take (cap q) (items q @ [m])"
proof (cases "length (items q) < cap q")
  case True
  with push_stores [OF assms True, of m] show ?thesis by simp
next
  case False
  with push_refuses [OF assms, of m] within_cap [OF assms(1)] show ?thesis by simp
qed

text \<open>A run of pushes: the queue keeps the longest prefix that fits and drops the rest.\<close>

lemma push_run:
  assumes "ok q" "fuel q (length ms)"
  shows "ok (fold (\<lambda>m q. snd (push q m)) ms q) \<and>
    cap (fold (\<lambda>m q. snd (push q m)) ms q) = cap q \<and>
    items (fold (\<lambda>m q. snd (push q m)) ms q) = take (cap q) (items q @ ms)"
  using assms
proof (induction ms arbitrary: q)
  case Nil
  then show ?case using within_cap by simp
next
  case (Cons m ms)
  let ?q = "snd (push q m)"
  from Cons.prems have f: "fuel q (Suc (length ms))" by simp
  have "ok ?q" "fuel ?q (length ms)" using Cons.prems(1) f by (auto intro: ok_push fuel_push)
  note IH = Cons.IH [OF this]
  have "take (cap q) (take (cap q) (items q @ [m]) @ ms) = take (cap q) (items q @ m # ms)"
    by (simp add: take_Cons' min_def)
  then show ?case using IH items_push [OF Cons.prems(1) f, of m] by (simp add: cap_push)
qed

lemma fuel_run: "fuel q (length ms + n) \<Longrightarrow> fuel (fold (\<lambda>m q. snd (push q m)) ms q) n"
  by (induction ms arbitrary: q) (auto intro: fuel_push)

text \<open>A message read is the oldest one pushed.\<close>

lemma pop_push_fifo:
  assumes "ok q" "fuel q (Suc n)" "length (items q) < cap q"
  shows "fst (pop (snd (push q m))) = Some (hd (items q @ [m]))"
  using push_stores [OF assms, of m] pop_head by simp

end

lemma qlen_push [simp]: "qlen (snd (push_circ_queue q a b)) = qlen q"
  by (simp add: push_circ_queue_def Let_def)

lemma qlen_pop [simp]: "qlen (snd (pop_circ_queue q)) = qlen q"
  by (simp add: pop_circ_queue_def Let_def)

lemma writeIndex_pop [simp]: "writeIndex (snd (pop_circ_queue q)) = writeIndex q"
  by (simp add: pop_circ_queue_def Let_def)

lemma credit_pop: "credit (snd (pop_circ_queue q)) n = credit q n"
  by (simp add: credit_def divides_wrap_def)

lemma stored_le_cap: "queue_inv q \<Longrightarrow> stored q \<le> queue_cap q"
  by (auto simp: queue_inv_def queue_cap_def)

interpretation circ_fifo: bounded_fifo
  "\<lambda>q (a, b). push_circ_queue q a b" pop_circ_queue queue_list queue_cap queue_inv credit
proof (unfold_locales, goal_cases)
  case (1 q n m)
  then have c: "credit q 1" and "stored q \<noteq> queue_cap q"
    by (auto intro: credit_mono simp: length_queue_list)
  then show ?case using 1 push_room [OF 1(1) c]
    by (cases m; cases "push_circ_queue q (fst m) (snd m)") auto
next
  case (2 q n m)
  then have "credit q 1" "stored q = queue_cap q"
    using stored_le_cap [OF 2(1)] by (auto intro: credit_mono simp: length_queue_list)
  then show ?case using 2(1) by (cases m) (simp add: push_full)
next
  case (3 q m)
  then show ?case by (cases m) (simp add: queue_cap_def)
next
  case (4 q n m)
  then show ?case by (cases m) (auto intro: push_credit [OF _ surjective_pairing])
next
  case (5 q)
  then show ?case by (simp add: pop_none)
next
  case (6 q)
  then show ?case using pop_some [OF 6 surjective_pairing] by simp
next
  case (7 q)
  then show ?case by (simp add: queue_cap_def)
next
  case (8 q n)
  then show ?case by (simp add: credit_pop)
next
  case (9 q)
  then show ?case by (simp add: length_queue_list stored_le_cap)
qed

lemma drain_circ_queue_empties:
  assumes "queue_inv q"
  shows "queue_inv (drain_circ_queue q) \<and> queue_list (drain_circ_queue q) = [] \<and>
    qlen (drain_circ_queue q) = qlen q \<and> writeIndex (drain_circ_queue q) = writeIndex q"
  using assms
proof (induction q rule: drain_circ_queue.induct)
  case (1 q)
  show ?case
  proof (cases "queue_list q = []")
    case True
    then have "pop_circ_queue q = (None, q)" using 1(2) by (simp add: pop_none)
    then show ?thesis using True 1(2) by (simp add: drain_circ_queue.simps [of q])
  next
    case False
    then obtain m q' where p: "pop_circ_queue q = (Some m, q')"
      using pop_some(1) [OF 1(2) False surjective_pairing] by (metis prod.collapse)
    from pop_some [OF 1(2) False p] 1(1) [OF p [symmetric] refl]
    show ?thesis by (simp add: drain_circ_queue.simps [of q] p)
  qed
qed

section \<open>Creation and destruction\<close>

definition queue_blocks :: "circ_queue \<Rightarrow> resource list" where
  "queue_blocks q = map Kmem (slot_ptrs q) @ [Kmem (vals_ptr q), Kmem (q_ptr q)]"

lemma free_circ_queue_eq: "free_circ_queue (Some q) k = fold release (queue_blocks q) k"
  by (simp add: queue_blocks_def fold_map comp_def)

lemma alloc_slots_ok:
  "alloc_slots env n k = (Some ps, k') \<Longrightarrow>
     held k' = mset (map Kmem ps) + held k \<and> faults k' = faults k \<and> length ps = n"
  by (induction n arbitrary: k ps k')
     (auto simp: kmalloc_def ledger_simps split: prod.splits option.splits if_splits)

lemma alloc_slots_held:
  "alloc_slots env n k = (r, k') \<Longrightarrow> held k \<subseteq># held k' \<and> faults k' = faults k"
proof (induction n arbitrary: k r k')
  case (Suc n)
  then show ?case
    by (auto simp: kmalloc_def ledger_simps split: prod.splits option.splits if_splits
        dest!: Suc.IH dest: add_mset_subset_drop)
qed simp

lemma init_circ_queue_ok:
  assumes "init_circ_queue env len k = (Some q, k')"
  shows "held k' = mset (queue_blocks q) + held k" "faults k' = faults k"
    "qlen q = of_nat len" "writeIndex q = 0" "readIndex q = 0" "length (vals q) = len"
  using assms
  by (auto simp: init_circ_queue_def kmalloc_def queue_blocks_def ledger_simps
      split: prod.splits option.splits if_splits dest!: alloc_slots_ok)

lemma init_circ_queue_inv:
  assumes "init_circ_queue env len k = (Some q, k')" and "0 < len" "len < 2 ^ 32"
  shows "queue_inv q" "queue_list q = []" "queue_cap q = len - 1" "unat (qlen q) = len"
proof -
  have l: "unat (qlen q) = len"
    using init_circ_queue_ok(3) [OF assms(1)] assms(3) by (simp add: unat_of_nat)
  then show "queue_inv q" "queue_list q = []" "queue_cap q = len - 1" "unat (qlen q) = len"
    using init_circ_queue_ok [OF assms(1)] assms(2)
    by (simp_all add: queue_inv_def stored_def queue_list_def queue_cap_def)
qed

lemma init_circ_queue_None:
  assumes "init_circ_queue env len k = (None, k')" and "kmalloc_ok env (tick k)"
  shows "add_mset (Kmem (tick k)) (held k) \<subseteq># held k'"
  using assms
  by (auto simp: init_circ_queue_def kmalloc_def ledger_simps
      split: prod.splits option.splits if_splits dest!: alloc_slots_held
      dest: add_mset_subset_drop)

section \<open>The wrap of the counters\<close>

lemma send_queue_credit: "qlen q = 4 \<Longrightarrow> credit q n"
  by (simp add: credit_def divides_wrap_def)

definition pass_one :: "u32 \<Rightarrow> u32 \<Rightarrow> circ_queue \<Rightarrow> circ_queue" where
  "pass_one a b q = snd (pop_circ_queue (snd (push_circ_queue q a b)))"

lemma pass_one_effect:
  assumes "queue_inv q" "queue_list q = []" "0 < queue_cap q" "unat (writeIndex q) + 1 < 2 ^ 32"
  shows "queue_inv (pass_one a b q) \<and> queue_list (pass_one a b q) = [] \<and>
    qlen (pass_one a b q) = qlen q \<and> unat (writeIndex (pass_one a b q)) = Suc (unat (writeIndex q))"
proof -
  have c: "credit q 1" using assms(4) by (simp add: credit_def)
  have st: "stored q \<noteq> queue_cap q" using assms(2,3) by (auto simp: queue_list_def)
  obtain d q1 where p: "push_circ_queue q a b = (d, q1)" by fastforce
  note q1 = push_room [OF assms(1) c st p]
  then have ne: "queue_list q1 \<noteq> []" by simp
  obtain m q2 where p2: "pop_circ_queue q1 = (m, q2)" by fastforce
  note q2 = pop_some [OF q1(4) ne p2]
  have "unat (writeIndex q + 1) = Suc (unat (writeIndex q))"
    using assms(4) by (simp add: unat_suc_word)
  then show ?thesis using q1 q2 assms(2) by (simp add: pass_one_def p p2)
qed

lemma pass_many_effect:
  assumes "queue_inv q" "queue_list q = []" "0 < queue_cap q" "unat (writeIndex q) + n < 2 ^ 32"
  shows "queue_inv ((pass_one a b ^^ n) q) \<and> queue_list ((pass_one a b ^^ n) q) = [] \<and>
    qlen ((pass_one a b ^^ n) q) = qlen q \<and>
    unat (writeIndex ((pass_one a b ^^ n) q)) = unat (writeIndex q) + n"
  using assms(4)
proof (induction n)
  case 0
  then show ?case using assms by simp
next
  case (Suc n)
  let ?q = "(pass_one a b ^^ n) q"
  from Suc have IH: "queue_inv ?q" "queue_list ?q = []" "qlen ?q = qlen q"
    "unat (writeIndex ?q) = unat (writeIndex q) + n" by simp_all
  have "queue_cap ?q = queue_cap q" using IH(3) by (simp add: queue_cap_def)
  with pass_one_effect [OF IH(1,2), of a b] IH Suc.prems assms(3) show ?case by simp
qed

lemma full_at_wrap:
  assumes "qlen q = 5" "writeIndex q = - 1" "readIndex q = - 1"
  shows "push_circ_queue q a b = (1, q)"
  using assms by (simp add: push_circ_queue_def queue_count_to_index_def)

lemma drain_pop_none: "fst (pop_circ_queue (drain_circ_queue q)) = None"
proof (induction q rule: drain_circ_queue.induct)
  case (1 q)
  show ?case
  proof (cases "pop_circ_queue q")
    case (Pair m q')
    show ?thesis
    proof (cases m)
      case None
      with Pair have "q' = q" by (auto simp: pop_circ_queue_def Let_def split: if_splits)
      with None Pair show ?thesis by (simp add: drain_circ_queue.simps [of q])
    next
      case (Some x)
      with 1 [OF Pair [symmetric]] Pair show ?thesis
        by (simp add: drain_circ_queue.simps [of q])
    qed
  qed
qed

section \<open>Properties\<close>

text \<open>C25: On a queue that satisfies its invariant and whose counter has room for one more
  push, \<open>push_circ_queue\<close> appends the pair exactly when fewer than \<open>len - 1\<close> pairs are
  stored and otherwise refuses and changes nothing, \<open>pop_circ_queue\<close> takes the oldest pair or
  reports empty, both keep the invariant, and \<open>circ_queue_empty\<close> and \<open>circ_queue_full\<close> tell
  the truth: the ring refines a bounded FIFO list, across the wrap of the counters.\<close>

theorem circ_queue_refines_fifo:
  assumes "queue_inv q" and "credit q 1"
  shows "queue_list (snd (push_circ_queue q a b)) = take (queue_cap q) (queue_list q @ [(a, b)]) \<and>
    (fst (push_circ_queue q a b) = 0 \<longleftrightarrow> length (queue_list q) < queue_cap q) \<and>
    queue_inv (snd (push_circ_queue q a b)) \<and>
    fst (pop_circ_queue q) = (case queue_list q of [] \<Rightarrow> None | m # _ \<Rightarrow> Some m) \<and>
    queue_list (snd (pop_circ_queue q)) = tl (queue_list q) \<and>
    queue_inv (snd (pop_circ_queue q)) \<and>
    (circ_queue_empty q = 1 \<longleftrightarrow> queue_list q = []) \<and>
    (circ_queue_full q = 1 \<longleftrightarrow> length (queue_list q) = queue_cap q)"
proof -
  have c: "credit q (Suc 0)" using assms(2) by simp
  have push: "queue_list (snd (push_circ_queue q a b)) = take (queue_cap q) (queue_list q @ [(a, b)])"
    "queue_inv (snd (push_circ_queue q a b))"
    using circ_fifo.items_push [OF assms(1) c, of "(a, b)"]
      circ_fifo.ok_push [OF assms(1) c, of "(a, b)"] by simp_all
  have code: "fst (push_circ_queue q a b) = 0 \<longleftrightarrow> length (queue_list q) < queue_cap q"
    using circ_fifo.push_stores [OF assms(1) c, of "(a, b)"]
      circ_fifo.push_refuses [OF assms(1) c, of "(a, b)"]
    by (cases "length (queue_list q) < queue_cap q") auto
  have pop: "fst (pop_circ_queue q) = (case queue_list q of [] \<Rightarrow> None | m # _ \<Rightarrow> Some m)"
    "queue_list (snd (pop_circ_queue q)) = tl (queue_list q)" "queue_inv (snd (pop_circ_queue q))"
    using circ_fifo.pop_empty [OF assms(1)] circ_fifo.pop_head [OF assms(1)] assms(1)
    by (cases "queue_list q"; simp)+
  have "circ_queue_empty q = 1 \<longleftrightarrow> queue_list q = []"
    using empty_check [OF assms(1)] by (simp add: circ_queue_empty_def queue_list_def)
  moreover have "circ_queue_full q = 1 \<longleftrightarrow> length (queue_list q) = queue_cap q"
    using full_check [OF assms] by (simp add: circ_queue_full_def length_queue_list)
  ultimately show ?thesis using push code pop by blast
qed

definition wrapped_queue :: circ_queue where
  "wrapped_queue = \<lparr>writeIndex = 1, readIndex = - 1, vals = [(7, 8), (0, 0), (0, 0), (5, 6)],
     qlen = 4, q_ptr = 0, vals_ptr = 1, slot_ptrs = [2, 3, 4, 5]\<rparr>"

lemma wrapped_queue_inv: "queue_inv wrapped_queue" "credit wrapped_queue 1"
  by (simp_all add: wrapped_queue_def queue_inv_def stored_def divides_wrap_def credit_def)

theorem circ_queue_refines_fifo_witness:
  "fst (pop_circ_queue wrapped_queue) =
     (case queue_list wrapped_queue of [] \<Rightarrow> None | m # _ \<Rightarrow> Some m) \<and>
   queue_list (snd (push_circ_queue wrapped_queue 9 10)) =
     take (queue_cap wrapped_queue) (queue_list wrapped_queue @ [(9, 10)])"
  using circ_queue_refines_fifo [OF wrapped_queue_inv, of 9 10] by blast

text \<open>C38: The draining loop \<open>while (!pop_circ_queue(q, ...));\<close> terminates from every state of the
  queue, well-formed or not, and leaves it in a state where the next pop reports empty.\<close>

theorem drain_circ_queue_terminates:
  "\<exists>n. drain_circ_queue q = ((\<lambda>q. snd (pop_circ_queue q)) ^^ n) q \<and>
       n \<le> stored q \<and> fst (pop_circ_queue (drain_circ_queue q)) = None"
proof (induction q rule: drain_circ_queue.induct)
  case (1 q)
  obtain m q' where p: "pop_circ_queue q = (m, q')" by fastforce
  show ?case
  proof (cases m)
    case None
    with p have "q' = q" by (auto simp: pop_circ_queue_def Let_def split: if_splits)
    with None p have "drain_circ_queue q = ((\<lambda>q. snd (pop_circ_queue q)) ^^ 0) q"
      by (simp add: drain_circ_queue.simps [of q])
    then show ?thesis using drain_pop_none [of q] by (intro exI [of _ 0]) simp
  next
    case (Some x)
    with 1 p obtain n where n: "drain_circ_queue q' = ((\<lambda>q. snd (pop_circ_queue q)) ^^ n) q'"
      "n \<le> stored q'" by auto
    have "drain_circ_queue q = ((\<lambda>q. snd (pop_circ_queue q)) ^^ Suc n) q"
      using Some p n(1) by (simp add: drain_circ_queue.simps [of q] funpow_Suc_right del: funpow.simps)
    moreover have "Suc n \<le> stored q" using pop_distance [of q x q'] p Some n(2)
      by (simp add: stored_def)
    ultimately show ?thesis using drain_pop_none by blast
  qed
qed

text \<open>A queue created by \<open>init_circ_queue\<close> is empty and well-formed, and
  \<open>free_circ_queue\<close> gives back exactly the blocks that creating it took, each once.\<close>

theorem init_free_roundtrip:
  assumes "init_circ_queue env len k = (Some q, k')" and "0 < len" and "len < 2 ^ 32"
  shows "queue_inv q \<and> queue_list q = [] \<and> queue_cap q = len - 1 \<and>
    held (free_circ_queue (Some q) k') = held k \<and> faults (free_circ_queue (Some q) k') = faults k"
proof -
  note ok = init_circ_queue_ok [OF assms(1)]
  have "mset (queue_blocks q) \<subseteq># held k'" by (simp add: ok(1))
  then show ?thesis using init_circ_queue_inv [OF assms] ok(1,2)
    by (simp add: free_circ_queue_eq ledger_simps del: free_circ_queue.simps)
qed

definition generous_env :: kenv where
  "generous_env = \<lparr>kmalloc_ok = (\<lambda>_. True), user_pages = (\<lambda>_ _ n. [0..<n]),
     dma_map = (\<lambda>_ es. map (\<lambda>e. (ucast (sg_off e), sg_len e)) es), dma_alloc = (\<lambda>n. Some (of_nat n)),
     page_reserved = (\<lambda>_. False)\<rparr>"

definition fresh_kernel :: kstate where
  "fresh_kernel = \<lparr>tick = 0, held = {#}, faults = [], dirty = []\<rparr>"

definition new_queue5 :: circ_queue where
  "new_queue5 = \<lparr>writeIndex = 0, readIndex = 0, vals = replicate 5 (0, 0), qlen = 5,
     q_ptr = 0, vals_ptr = 1, slot_ptrs = [2, 3, 4, 5, 6]\<rparr>"

lemma init_queue5:
  "init_circ_queue generous_env 5 fresh_kernel =
     (Some new_queue5, snd (init_circ_queue generous_env 5 fresh_kernel))"
  by (simp add: init_circ_queue_def generous_env_def fresh_kernel_def kmalloc_def ledger_simps
      eval_nat_numeral new_queue5_def)

theorem init_free_roundtrip_witness:
  "held (free_circ_queue (Some new_queue5) (snd (init_circ_queue generous_env 5 fresh_kernel))) = {#}"
  using init_free_roundtrip [OF init_queue5] by (simp add: fresh_kernel_def)

text \<open>When \<open>init_circ_queue\<close> runs out of memory after its first allocation it returns NULL
  but keeps that block: memory nobody has a pointer to any more.\<close>

theorem init_failure_leaks:
  assumes "init_circ_queue env len k = (None, k')" and "kmalloc_ok env (tick k)"
  shows "add_mset (Kmem (tick k)) (held k) \<subseteq># held k'"
  using assms by (rule init_circ_queue_None)

theorem init_failure_leaks_witness:
  "held fresh_kernel = {#} \<and>
   add_mset (Kmem 0) {#} \<subseteq>#
     held (snd (init_circ_queue (generous_env\<lparr>kmalloc_ok := (\<lambda>n. n < 4)\<rparr>) 5 fresh_kernel))"
proof -
  let ?env = "generous_env\<lparr>kmalloc_ok := (\<lambda>n. n < 4)\<rparr>"
  have "init_circ_queue ?env 5 fresh_kernel = (None, snd (init_circ_queue ?env 5 fresh_kernel))"
    by (simp add: init_circ_queue_def generous_env_def fresh_kernel_def kmalloc_def ledger_simps
        eval_nat_numeral)
  from init_failure_leaks [OF this] show ?thesis by (simp add: fresh_kernel_def)
qed

text \<open>C40: A queue of length 5, the length the driver gives every receive channel, dies at the
  wrap of its counters: after \<open>2 ^ 32 - 1\<close> messages have gone through it one by one it is
  empty, and yet every further push is refused as if it were full.\<close>

theorem recv_queue_dies_at_wrap:
  assumes "init_circ_queue env 5 k = (Some q, k')"
  shows "queue_list ((pass_one a b ^^ (2 ^ 32 - 1)) q) = [] \<and>
    push_circ_queue ((pass_one a b ^^ (2 ^ 32 - 1)) q) c d = (1, (pass_one a b ^^ (2 ^ 32 - 1)) q)"
proof -
  let ?q = "(pass_one a b ^^ (2 ^ 32 - 1)) q"
  note q = init_circ_queue_inv [OF assms] init_circ_queue_ok [OF assms]
  have "unat (writeIndex q) + (2 ^ 32 - 1) < 2 ^ 32" by (simp add: q)
  from pass_many_effect [OF _ _ _ this, of a b] q
  have e: "queue_inv ?q" "queue_list ?q = []" "qlen ?q = 5" "unat (writeIndex ?q) = 2 ^ 32 - 1"
    by simp_all
  from e(4) have w: "writeIndex ?q = - 1" by (simp add: word_unat_eq_iff unsigned_minus_1_eq_mask mask_eq_exp_minus_1)
  have "stored ?q = 0" using e(2) by (simp add: queue_list_def)
  then have "writeIndex ?q - readIndex ?q = 0"
    unfolding stored_def by (simp only: unat_eq_zero)
  then have "readIndex ?q = - 1" using w by simp
  then show ?thesis using full_at_wrap [OF e(3) w] e(2) by simp
qed

theorem recv_queue_dies_at_wrap_witness:
  "push_circ_queue ((pass_one 1 2 ^^ (2 ^ 32 - 1)) new_queue5) 3 4 =
     (1, (pass_one 1 2 ^^ (2 ^ 32 - 1)) new_queue5)"
  using recv_queue_dies_at_wrap [OF init_queue5, of 1 2 3 4] by blast

end
