(* ===== verification/Circ_Queue_Conc.thy ===== *)
theory Circ_Queue_Conc
  imports Circ_Queue
begin

text \<open>
  The circular queue under concurrency: one producer (the interrupt handler) and any number of
  consumers (the threads in \<open>chnl_recv\<close>, \<open>chnl_send\<close> and \<open>reset\<close>) interleave at
  every access to the shared queue.  Each \<open>atomic_read\<close>, each store or load of a value and
  each \<open>atomic_inc\<close> or \<open>atomic_cmpxchg\<close> is one step; local computations belong to the
  step before them.  Accesses take effect in the order of the program (sequential consistency);
  weaker memory orders are not modelled.  The ghost fields \<open>pushed\<close> and \<open>popped\<close> record
  what was committed and what each consumer returned.
\<close>

section \<open>State\<close>

datatype producer =
    PIdle
  | PStart u32 u32              \<comment> \<open>about to read \<open>writeIndex\<close>\<close>
  | PHaveWrite u32 u32 u32      \<comment> \<open>about to read \<open>readIndex\<close> and test for full\<close>
  | PStore0 u32 u32 u32         \<comment> \<open>about to store \<open>val1\<close>\<close>
  | PStore1 u32 u32 u32         \<comment> \<open>about to store \<open>val2\<close>\<close>
  | PCommit u32 u32 u32         \<comment> \<open>about to increment \<open>writeIndex\<close>\<close>

datatype consumer =
    CIdle
  | CStart                      \<comment> \<open>at the head of the \<open>do\<close> loop\<close>
  | CHaveRead u32               \<comment> \<open>about to read \<open>writeIndex\<close> and test for empty\<close>
  | CLoad0 u32                  \<comment> \<open>about to load \<open>*val1\<close>\<close>
  | CLoad1 u32 u32              \<comment> \<open>about to load \<open>*val2\<close>\<close>
  | CSwap u32 u32 u32           \<comment> \<open>about to compare and swap \<open>readIndex\<close>\<close>

record conc =
  cq :: circ_queue
  pstate :: producer
  cstate :: "nat \<Rightarrow> consumer"
  pushed :: "(u32 \<times> u32) list"
  popped :: "(nat \<times> u32 \<times> u32) list"

definition set_vals :: "circ_queue \<Rightarrow> u32 \<Rightarrow> u32 \<times> u32 \<Rightarrow> circ_queue" where
  "set_vals q c p = q\<lparr>vals := (vals q)[unat (queue_count_to_index c (qlen q)) := p]\<rparr>"

definition get_vals :: "circ_queue \<Rightarrow> u32 \<Rightarrow> u32 \<times> u32" where
  "get_vals q c = vals q ! unat (queue_count_to_index c (qlen q))"

section \<open>Steps\<close>

inductive push_step :: "conc \<Rightarrow> conc \<Rightarrow> bool" where
  call_push: "pstate s = PIdle \<Longrightarrow> push_step s (s\<lparr>pstate := PStart a b\<rparr>)"
| read_write: "pstate s = PStart a b \<Longrightarrow>
    push_step s (s\<lparr>pstate := PHaveWrite a b (writeIndex (cq s))\<rparr>)"
| is_full: "pstate s = PHaveWrite a b w \<Longrightarrow>
    queue_count_to_index (w + 1) (qlen (cq s)) =
      queue_count_to_index (readIndex (cq s)) (qlen (cq s)) \<Longrightarrow>
    push_step s (s\<lparr>pstate := PIdle\<rparr>)"
| has_room: "pstate s = PHaveWrite a b w \<Longrightarrow>
    queue_count_to_index (w + 1) (qlen (cq s)) \<noteq>
      queue_count_to_index (readIndex (cq s)) (qlen (cq s)) \<Longrightarrow>
    push_step s (s\<lparr>pstate := PStore0 a b w\<rparr>)"
| store0: "pstate s = PStore0 a b w \<Longrightarrow>
    push_step s (s\<lparr>cq := set_vals (cq s) w (a, snd (get_vals (cq s) w)), pstate := PStore1 a b w\<rparr>)"
| store1: "pstate s = PStore1 a b w \<Longrightarrow>
    push_step s (s\<lparr>cq := set_vals (cq s) w (fst (get_vals (cq s) w), b), pstate := PCommit a b w\<rparr>)"
| commit: "pstate s = PCommit a b w \<Longrightarrow>
    push_step s (s\<lparr>cq := (cq s)\<lparr>writeIndex := writeIndex (cq s) + 1\<rparr>, pstate := PIdle,
                   pushed := pushed s @ [(a, b)]\<rparr>)"

inductive pop_step :: "nat \<Rightarrow> conc \<Rightarrow> conc \<Rightarrow> bool" for i :: nat where
  call_pop: "cstate s i = CIdle \<Longrightarrow> pop_step i s (s\<lparr>cstate := (cstate s)(i := CStart)\<rparr>)"
| read_read: "cstate s i = CStart \<Longrightarrow>
    pop_step i s (s\<lparr>cstate := (cstate s)(i := CHaveRead (readIndex (cq s)))\<rparr>)"
| is_empty: "cstate s i = CHaveRead r \<Longrightarrow>
    queue_count_to_index r (qlen (cq s)) =
      queue_count_to_index (writeIndex (cq s)) (qlen (cq s)) \<Longrightarrow>
    pop_step i s (s\<lparr>cstate := (cstate s)(i := CIdle)\<rparr>)"
| has_item: "cstate s i = CHaveRead r \<Longrightarrow>
    queue_count_to_index r (qlen (cq s)) \<noteq>
      queue_count_to_index (writeIndex (cq s)) (qlen (cq s)) \<Longrightarrow>
    pop_step i s (s\<lparr>cstate := (cstate s)(i := CLoad0 r)\<rparr>)"
| load0: "cstate s i = CLoad0 r \<Longrightarrow>
    pop_step i s (s\<lparr>cstate := (cstate s)(i := CLoad1 r (fst (get_vals (cq s) r)))\<rparr>)"
| load1: "cstate s i = CLoad1 r a \<Longrightarrow>
    pop_step i s (s\<lparr>cstate := (cstate s)(i := CSwap r a (snd (get_vals (cq s) r)))\<rparr>)"
| swap_ok: "cstate s i = CSwap r a b \<Longrightarrow> readIndex (cq s) = r \<Longrightarrow>
    pop_step i s (s\<lparr>cq := (cq s)\<lparr>readIndex := r + 1\<rparr>, cstate := (cstate s)(i := CIdle),
                    popped := popped s @ [(i, a, b)]\<rparr>)"
| swap_fail: "cstate s i = CSwap r a b \<Longrightarrow> readIndex (cq s) \<noteq> r \<Longrightarrow>
    pop_step i s (s\<lparr>cstate := (cstate s)(i := CStart)\<rparr>)"

inductive conc_step :: "conc \<Rightarrow> conc \<Rightarrow> bool" where
  by_producer: "push_step s t \<Longrightarrow> conc_step s t"
| by_consumer: "pop_step i s t \<Longrightarrow> conc_step s t"

inductive_cases push_stepE: "push_step s t"
inductive_cases pop_stepE: "pop_step i s t"
inductive_simps conc_step_iff: "conc_step s t"

definition conc_start :: "circ_queue \<Rightarrow> conc" where
  "conc_start q = \<lparr>cq = q, pstate = PIdle, cstate = (\<lambda>_. CIdle), pushed = [], popped = []\<rparr>"

section \<open>Invariant\<close>

text \<open>
  The counters are the lengths of the ghost lists; the pairs not yet popped sit in their slots;
  a producer past its test has room; a consumer whose snapshot of the read index is still
  current has loaded what was pushed there.
\<close>

definition ring_ok :: "circ_queue \<Rightarrow> nat \<Rightarrow> nat \<Rightarrow> (u32 \<times> u32) list \<Rightarrow> bool" where
  "ring_ok q W R ps \<longleftrightarrow>
     0 < unat (qlen q) \<and> length (vals q) = unat (qlen q) \<and>
     unat (writeIndex q) = W \<and> unat (readIndex q) = R \<and> R \<le> W \<and> W - R < unat (qlen q) \<and>
     (\<forall>i. R \<le> i \<and> i < W \<longrightarrow> vals q ! (i mod unat (qlen q)) = ps ! i)"

fun producer_ok :: "circ_queue \<Rightarrow> nat \<Rightarrow> nat \<Rightarrow> producer \<Rightarrow> bool" where
  "producer_ok q W R (PHaveWrite a b w) = (unat w = W)"
| "producer_ok q W R (PStore0 a b w) = (unat w = W \<and> Suc (W - R) < unat (qlen q))"
| "producer_ok q W R (PStore1 a b w) =
     (unat w = W \<and> Suc (W - R) < unat (qlen q) \<and> fst (vals q ! (W mod unat (qlen q))) = a)"
| "producer_ok q W R (PCommit a b w) =
     (unat w = W \<and> Suc (W - R) < unat (qlen q) \<and> vals q ! (W mod unat (qlen q)) = (a, b))"
| "producer_ok q W R _ = True"

fun consumer_ok :: "nat \<Rightarrow> nat \<Rightarrow> (u32 \<times> u32) list \<Rightarrow> consumer \<Rightarrow> bool" where
  "consumer_ok W R ps (CHaveRead r) = (unat r \<le> R)"
| "consumer_ok W R ps (CLoad0 r) = (unat r \<le> R \<and> (unat r = R \<longrightarrow> R < W))"
| "consumer_ok W R ps (CLoad1 r a) =
     (unat r \<le> R \<and> (unat r = R \<longrightarrow> R < W \<and> fst (ps ! R) = a))"
| "consumer_ok W R ps (CSwap r a b) =
     (unat r \<le> R \<and> (unat r = R \<longrightarrow> R < W \<and> ps ! R = (a, b)))"
| "consumer_ok W R ps _ = True"

definition conc_core :: "conc \<Rightarrow> bool" where
  "conc_core s \<longleftrightarrow>
     ring_ok (cq s) (length (pushed s)) (length (popped s)) (pushed s) \<and>
     map snd (popped s) = take (length (popped s)) (pushed s) \<and>
     producer_ok (cq s) (length (pushed s)) (length (popped s)) (pstate s) \<and>
     (\<forall>i. consumer_ok (length (pushed s)) (length (popped s)) (pushed s) (cstate s i))"

definition conc_inv :: "conc \<Rightarrow> bool" where
  "conc_inv s \<longleftrightarrow> (Suc (length (pushed s)) < 2 ^ 32 \<longrightarrow> conc_core s)"

lemma consumer_ok_commit:
  "consumer_ok (length ps) R ps c \<Longrightarrow> consumer_ok (Suc (length ps)) R (ps @ [p]) c"
  by (cases c) (auto simp: nth_append)

lemma consumer_ok_swap: "consumer_ok W R ps c \<Longrightarrow> consumer_ok W (Suc R) ps c"
  by (cases c) auto

lemma producer_ok_swap: "producer_ok q W R c \<Longrightarrow> producer_ok (q\<lparr>readIndex := r\<rparr>) W (Suc R) c"
  by (cases c) auto

lemma ring_index: "unat (queue_count_to_index c l) = unat c mod unat l"
  by (rule unat_index)

text \<open>The tests of the code, on the counters of the ghost lists.\<close>

lemma full_test:
  assumes "ring_ok q W R ps" "unat w = W" "Suc W < 2 ^ 32"
    "queue_count_to_index (w + 1) (qlen q) \<noteq> queue_count_to_index (readIndex q) (qlen q)"
  shows "Suc (W - R) < unat (qlen q)"
proof (rule ccontr)
  let ?L = "unat (qlen q)"
  assume "\<not> Suc (W - R) < ?L"
  with assms(1) have "Suc W = R + ?L" by (auto simp: ring_ok_def)
  then have "Suc W mod ?L = R mod ?L" by (simp only: mod_add_self2)
  moreover have "unat (w + 1) = Suc W" using assms(2,3) by (simp add: unat_suc_word)
  ultimately show False using assms(1,4) by (simp add: word_unat_eq_iff ring_index ring_ok_def)
qed

lemma empty_test:
  assumes "ring_ok q W R ps" "unat r = R"
    "queue_count_to_index r (qlen q) \<noteq> queue_count_to_index (writeIndex q) (qlen q)"
  shows "R < W"
proof (rule ccontr)
  assume "\<not> R < W"
  with assms(1) have "W = R" by (simp add: ring_ok_def)
  with assms show False by (simp add: ring_ok_def word_unat_eq_iff ring_index)
qed

text \<open>A store into the free slot leaves the unread pairs alone.\<close>

lemma ring_ok_store:
  assumes "ring_ok q W R ps" "unat w = W" "Suc (W - R) < unat (qlen q)"
  shows "ring_ok (set_vals q w p) W R ps"
    and "vals (set_vals q w p) ! (W mod unat (qlen q)) = p"
    and "get_vals q w = vals q ! (W mod unat (qlen q))"
proof -
  let ?L = "unat (qlen q)"
  have other: "(vals q)[W mod ?L := p] ! (i mod ?L) = vals q ! (i mod ?L)"
    if "R \<le> i" "i < W" for i
  proof -
    have "i mod ?L \<noteq> W mod ?L" using that assms(3) by (intro mod_neq_within) auto
    then show ?thesis by simp
  qed
  then show "ring_ok (set_vals q w p) W R ps"
    using assms(1,2) by (simp add: ring_ok_def set_vals_def ring_index)
  have "W mod ?L < length (vals q)" using assms(1) by (simp add: ring_ok_def)
  then show "vals (set_vals q w p) ! (W mod ?L) = p"
    using assms(2) by (simp add: set_vals_def ring_index)
  show "get_vals q w = vals q ! (W mod ?L)" using assms(2) by (simp add: get_vals_def ring_index)
qed

lemma qlen_set_vals [simp]: "qlen (set_vals q w p) = qlen q"
  by (simp add: set_vals_def)

lemma ring_ok_commit:
  assumes "ring_ok q (length ps) R ps" "Suc (length ps - R) < unat (qlen q)"
    "vals q ! (length ps mod unat (qlen q)) = p" "Suc (length ps) < 2 ^ 32"
  shows "ring_ok (q\<lparr>writeIndex := writeIndex q + 1\<rparr>) (Suc (length ps)) R (ps @ [p])"
proof -
  have "unat (writeIndex q + 1) = Suc (length ps)"
    using assms(1,4) by (simp add: ring_ok_def unat_suc_word)
  then show ?thesis using assms(1-3)
    by (auto simp: ring_ok_def nth_append less_Suc_eq)
qed

lemma ring_ok_swap:
  assumes "ring_ok q W R ps" "R < W" "W < 2 ^ 32"
  shows "ring_ok (q\<lparr>readIndex := readIndex q + 1\<rparr>) W (Suc R) ps"
proof -
  have "unat (readIndex q + 1) = Suc R"
    using assms by (simp add: ring_ok_def unat_suc_word)
  then show ?thesis using assms(1,2) by (auto simp: ring_ok_def)
qed

lemma push_step_core:
  assumes "push_step s t" "conc_core s" "Suc (length (pushed t)) < 2 ^ 32"
  shows "conc_core t"
  using assms
proof (cases rule: push_step.cases)
  case (has_room a b w)
  then have "ring_ok (cq s) (length (pushed s)) (length (popped s)) (pushed s)"
    "unat w = length (pushed s)" "Suc (length (pushed s)) < 2 ^ 32"
    using assms(2,3) by (auto simp: conc_core_def)
  note room = full_test [OF this has_room(3)]
  then show ?thesis using assms(2) has_room by (simp add: conc_core_def)
next
  case (store0 a b w)
  then have "ring_ok (cq s) (length (pushed s)) (length (popped s)) (pushed s)"
    "unat w = length (pushed s)" "Suc (length (pushed s) - length (popped s)) < unat (qlen (cq s))"
    using assms(2) by (auto simp: conc_core_def)
  note st = ring_ok_store [OF this]
  then show ?thesis using assms(2) store0 by (simp add: conc_core_def)
next
  case (store1 a b w)
  then have "ring_ok (cq s) (length (pushed s)) (length (popped s)) (pushed s)"
    "unat w = length (pushed s)" "Suc (length (pushed s) - length (popped s)) < unat (qlen (cq s))"
    using assms(2) by (auto simp: conc_core_def)
  note st = ring_ok_store [OF this]
  then show ?thesis using assms(2) store1 by (simp add: conc_core_def)
next
  case (commit a b w)
  then have "ring_ok (cq s) (length (pushed s)) (length (popped s)) (pushed s)"
    "Suc (length (pushed s) - length (popped s)) < unat (qlen (cq s))"
    "vals (cq s) ! (length (pushed s) mod unat (qlen (cq s))) = (a, b)"
    "Suc (length (pushed s)) < 2 ^ 32"
    using assms(2,3) by (auto simp: conc_core_def)
  note st = ring_ok_commit [OF this]
  have "length (popped s) \<le> length (pushed s)" using assms(2) by (simp add: conc_core_def ring_ok_def)
  then show ?thesis using assms(2) commit st consumer_ok_commit
    by (simp add: conc_core_def)
qed (auto simp: conc_core_def ring_ok_def)

lemma conc_coreD:
  assumes "conc_core s"
  shows "ring_ok (cq s) (length (pushed s)) (length (popped s)) (pushed s)"
    and "map snd (popped s) = take (length (popped s)) (pushed s)"
    and "producer_ok (cq s) (length (pushed s)) (length (popped s)) (pstate s)"
    and "consumer_ok (length (pushed s)) (length (popped s)) (pushed s) (cstate s i)"
  using assms by (simp_all add: conc_core_def)

text \<open>A consumer step that only changes the consumer's own program counter.\<close>

lemma consumer_move:
  assumes "conc_core s" "consumer_ok (length (pushed s)) (length (popped s)) (pushed s) c"
  shows "conc_core (s\<lparr>cstate := (cstate s)(i := c)\<rparr>)"
  using assms by (simp add: conc_core_def)

lemma pop_step_core:
  assumes "pop_step i s t" "conc_core s" "Suc (length (pushed s)) < 2 ^ 32"
  shows "conc_core t"
  using assms(1)
proof (cases rule: pop_step.cases)
  case (has_item r)
  have r: "unat r \<le> length (popped s)" using conc_coreD(4) [OF assms(2), of i] has_item by simp
  have "length (popped s) < length (pushed s)" if "unat r = length (popped s)"
    using empty_test [OF conc_coreD(1) [OF assms(2)] that has_item(3)] .
  with r show ?thesis unfolding has_item(1) by (intro consumer_move assms(2)) simp
next
  case (load0 r)
  have c: "consumer_ok (length (pushed s)) (length (popped s)) (pushed s) (CLoad0 r)"
    using conc_coreD(4) [OF assms(2), of i] load0 by simp
  have "get_vals (cq s) r = pushed s ! length (popped s)"
    if "unat r = length (popped s)" "length (popped s) < length (pushed s)"
    using conc_coreD(1) [OF assms(2)] that by (simp add: ring_ok_def get_vals_def ring_index)
  with c show ?thesis unfolding load0(1) by (intro consumer_move assms(2)) auto
next
  case (load1 r a)
  have c: "consumer_ok (length (pushed s)) (length (popped s)) (pushed s) (CLoad1 r a)"
    using conc_coreD(4) [OF assms(2), of i] load1 by simp
  have "get_vals (cq s) r = pushed s ! length (popped s)"
    if "unat r = length (popped s)" "length (popped s) < length (pushed s)"
    using conc_coreD(1) [OF assms(2)] that by (simp add: ring_ok_def get_vals_def ring_index)
  with c show ?thesis unfolding load1(1)
    by (intro consumer_move assms(2)) (auto simp: prod_eq_iff)
next
  case (swap_ok r a b)
  note d = conc_coreD [OF assms(2)]
  have r: "unat r = length (popped s)" using d(1) swap_ok by (auto simp: ring_ok_def)
  then have item: "length (popped s) < length (pushed s)" "pushed s ! length (popped s) = (a, b)"
    using d(4) [of i] swap_ok by simp_all
  have "map snd (popped s @ [(i, a, b)]) = take (Suc (length (popped s))) (pushed s)"
    using d(2) item by (simp add: take_Suc_conv_app_nth)
  moreover have "ring_ok ((cq s)\<lparr>readIndex := r + 1\<rparr>) (length (pushed s))
      (Suc (length (popped s))) (pushed s)"
    using ring_ok_swap [OF d(1) item(1)] assms(3) swap_ok by simp
  ultimately show ?thesis using d(3,4) swap_ok
    by (simp add: conc_core_def producer_ok_swap consumer_ok_swap)
qed (auto intro!: consumer_move assms(2) conc_coreD(4) [OF assms(2)]
    simp: conc_coreD(1) [OF assms(2), unfolded ring_ok_def])

lemma push_step_pushed: "push_step s t \<Longrightarrow> length (pushed s) \<le> length (pushed t)"
  by (auto elim: push_stepE)

lemma pop_step_pushed: "pop_step i s t \<Longrightarrow> pushed t = pushed s"
  by (auto elim: pop_stepE)

lemma conc_step_inv:
  assumes "conc_step s t" "conc_inv s"
  shows "conc_inv t"
  using assms(1)
proof cases
  case by_producer
  have "conc_core t" if b: "Suc (length (pushed t)) < 2 ^ 32"
  proof -
    from b push_step_pushed [OF by_producer] have "Suc (length (pushed s)) < 2 ^ 32" by linarith
    then show ?thesis using assms(2) push_step_core [OF by_producer _ b] by (simp add: conc_inv_def)
  qed
  then show ?thesis by (simp add: conc_inv_def)
next
  case (by_consumer i)
  then show ?thesis using assms(2) pop_step_core [OF by_consumer] pop_step_pushed [OF by_consumer]
    by (simp add: conc_inv_def)
qed

definition conc_starts :: "conc \<Rightarrow> bool" where
  "conc_starts s \<longleftrightarrow> (\<exists>q. s = conc_start q \<and> queue_inv q \<and> writeIndex q = 0 \<and> readIndex q = 0)"

lemma conc_start_inv: "conc_starts s \<Longrightarrow> conc_inv s"
  by (auto simp: conc_starts_def conc_start_def conc_inv_def conc_core_def ring_ok_def queue_inv_def)

interpretation conc_queue: step_system conc_starts conc_step conc_inv
  by unfold_locales (auto intro: conc_start_inv conc_step_inv)

section \<open>A scheduler\<close>

text \<open>
  The steps as a function, for running concrete interleavings: \<open>Prod a b\<close> lets the producer
  take its next step (starting a push of \<open>(a, b)\<close> when idle), \<open>Cons i\<close> lets consumer \<open>i\<close>
  take its next step.
\<close>

datatype turn = Prod u32 u32 | Cons nat

fun fire :: "turn \<Rightarrow> conc \<Rightarrow> conc" where
  "fire (Prod x y) s =
     (case pstate s of
        PIdle \<Rightarrow> s\<lparr>pstate := PStart x y\<rparr>
      | PStart a b \<Rightarrow> s\<lparr>pstate := PHaveWrite a b (writeIndex (cq s))\<rparr>
      | PHaveWrite a b w \<Rightarrow>
          (if queue_count_to_index (w + 1) (qlen (cq s)) =
              queue_count_to_index (readIndex (cq s)) (qlen (cq s))
           then s\<lparr>pstate := PIdle\<rparr> else s\<lparr>pstate := PStore0 a b w\<rparr>)
      | PStore0 a b w \<Rightarrow>
          s\<lparr>cq := set_vals (cq s) w (a, snd (get_vals (cq s) w)), pstate := PStore1 a b w\<rparr>
      | PStore1 a b w \<Rightarrow>
          s\<lparr>cq := set_vals (cq s) w (fst (get_vals (cq s) w), b), pstate := PCommit a b w\<rparr>
      | PCommit a b w \<Rightarrow>
          s\<lparr>cq := (cq s)\<lparr>writeIndex := writeIndex (cq s) + 1\<rparr>, pstate := PIdle,
            pushed := pushed s @ [(a, b)]\<rparr>)"
| "fire (Cons i) s =
     (case cstate s i of
        CIdle \<Rightarrow> s\<lparr>cstate := (cstate s)(i := CStart)\<rparr>
      | CStart \<Rightarrow> s\<lparr>cstate := (cstate s)(i := CHaveRead (readIndex (cq s)))\<rparr>
      | CHaveRead r \<Rightarrow>
          (if queue_count_to_index r (qlen (cq s)) =
              queue_count_to_index (writeIndex (cq s)) (qlen (cq s))
           then s\<lparr>cstate := (cstate s)(i := CIdle)\<rparr>
           else s\<lparr>cstate := (cstate s)(i := CLoad0 r)\<rparr>)
      | CLoad0 r \<Rightarrow> s\<lparr>cstate := (cstate s)(i := CLoad1 r (fst (get_vals (cq s) r)))\<rparr>
      | CLoad1 r a \<Rightarrow> s\<lparr>cstate := (cstate s)(i := CSwap r a (snd (get_vals (cq s) r)))\<rparr>
      | CSwap r a b \<Rightarrow>
          (if readIndex (cq s) = r
           then s\<lparr>cq := (cq s)\<lparr>readIndex := r + 1\<rparr>, cstate := (cstate s)(i := CIdle),
                  popped := popped s @ [(i, a, b)]\<rparr>
           else s\<lparr>cstate := (cstate s)(i := CStart)\<rparr>))"

lemma fire_step: "conc_step s (fire t s)"
  by (cases t)
     (auto simp: conc_step_iff intro: push_step.intros pop_step.intros
       split: producer.splits consumer.splits)

lemma fold_fire_reachable: "reachable_from conc_step s (fold fire ts s)"
proof (induction ts rule: rev_induct)
  case Nil
  show ?case by (simp add: reach_start)
next
  case (snoc t ts)
  then show ?case by (auto intro: reach_step fire_step)
qed

text \<open>A push or a pop that runs without interruption is the sequential operation.\<close>

lemma update_components:
  "xs[i := (fst (xs[i := (a, y)] ! i), b)] = xs[i := (a, b)]"
  by (cases "i < length xs") (simp_all add: list_update_beyond)

lemma push_alone:
  assumes "pstate s = PIdle"
  shows "\<exists>n t. t = (fire (Prod a b) ^^ n) s \<and> pstate t = PIdle \<and> 0 < n \<and>
    cq t = snd (push_circ_queue (cq s) a b) \<and> cstate t = cstate s"
proof (cases "queue_count_to_index (writeIndex (cq s) + 1) (qlen (cq s)) =
    queue_count_to_index (readIndex (cq s)) (qlen (cq s))")
  case True
  have "(fire (Prod a b) ^^ 3) s = s"
    using assms True by (simp add: eval_nat_numeral)
  moreover have "push_circ_queue (cq s) a b = (1, cq s)"
    using True by (simp add: push_circ_queue_def)
  ultimately show ?thesis using assms by (intro exI [of _ 3] exI [of _ s]) simp
next
  case False
  let ?t = "s\<lparr>cq := snd (push_circ_queue (cq s) a b), pstate := PIdle,
    pushed := pushed s @ [(a, b)]\<rparr>"
  have "(fire (Prod a b) ^^ 6) s = ?t"
    using assms False
    by (simp add: eval_nat_numeral push_circ_queue_def set_vals_def get_vals_def
        update_components Let_def)
  then show ?thesis using assms by (intro exI [of _ 6] exI [of _ ?t]) simp
qed

lemma pop_alone:
  assumes "cstate s i = CIdle"
  shows "\<exists>n t. t = (fire (Cons i) ^^ n) s \<and> cstate t = cstate s \<and> 0 < n \<and>
    cq t = snd (pop_circ_queue (cq s)) \<and> pstate t = pstate s \<and>
    popped t = popped s @ (case fst (pop_circ_queue (cq s)) of None \<Rightarrow> [] | Some m \<Rightarrow> [(i, m)])"
proof (cases "queue_count_to_index (readIndex (cq s)) (qlen (cq s)) =
    queue_count_to_index (writeIndex (cq s)) (qlen (cq s))")
  case True
  have "(fire (Cons i) ^^ 3) s = s\<lparr>cstate := (cstate s)(i := CIdle)\<rparr>"
    using assms True by (simp add: eval_nat_numeral)
  also have "\<dots> = s" using assms by (simp add: fun_upd_idem)
  finally have "(fire (Cons i) ^^ 3) s = s" .
  moreover have "pop_circ_queue (cq s) = (None, cq s)"
    using True by (simp add: pop_circ_queue_def)
  ultimately show ?thesis by (intro exI [of _ 3] exI [of _ s]) simp
next
  case False
  let ?m = "get_vals (cq s) (readIndex (cq s))"
  let ?t = "s\<lparr>cq := (cq s)\<lparr>readIndex := readIndex (cq s) + 1\<rparr>, popped := popped s @ [(i, ?m)]\<rparr>"
  have "(fire (Cons i) ^^ 6) s = ?t\<lparr>cstate := (cstate s)(i := CIdle)\<rparr>"
    using assms False by (simp add: eval_nat_numeral)
  also have "\<dots> = ?t" using assms by (simp add: fun_upd_idem)
  finally have "(fire (Cons i) ^^ 6) s = ?t" .
  moreover have "pop_circ_queue (cq s) = (Some ?m, (cq s)\<lparr>readIndex := readIndex (cq s) + 1\<rparr>)"
    using False by (simp add: pop_circ_queue_def get_vals_def Let_def)
  ultimately show ?thesis by (intro exI [of _ 6] exI [of _ ?t]) simp
qed

section \<open>One consumer\<close>

text \<open>
  The library asks that one thread reads a channel at a time.  Then the snapshot of the read
  index a consumer works with is always the current one.
\<close>

definition solo_step :: "nat \<Rightarrow> conc \<Rightarrow> conc \<Rightarrow> bool" where
  "solo_step i s t \<longleftrightarrow> push_step s t \<or> pop_step i s t"

fun current_snapshot :: "u32 \<Rightarrow> consumer \<Rightarrow> bool" where
  "current_snapshot r0 (CHaveRead r) = (r = r0)"
| "current_snapshot r0 (CLoad0 r) = (r = r0)"
| "current_snapshot r0 (CLoad1 r a) = (r = r0)"
| "current_snapshot r0 (CSwap r a b) = (r = r0)"
| "current_snapshot r0 _ = True"

definition solo_inv :: "nat \<Rightarrow> conc \<Rightarrow> bool" where
  "solo_inv i s \<longleftrightarrow> conc_inv s \<and> current_snapshot (readIndex (cq s)) (cstate s i)"

lemma push_step_consumer_view:
  "push_step s t \<Longrightarrow> readIndex (cq t) = readIndex (cq s) \<and> cstate t = cstate s"
  by (auto elim!: push_stepE simp: set_vals_def)

lemma solo_step_inv: "solo_step i s t \<Longrightarrow> solo_inv i s \<Longrightarrow> solo_inv i t"
  unfolding solo_step_def solo_inv_def
proof (elim disjE conjE, goal_cases)
  case 1
  then show ?case using conc_step_inv [OF by_producer] push_step_consumer_view by metis
next
  case 2
  then have "conc_inv t" using conc_step_inv [OF by_consumer] by blast
  moreover have "current_snapshot (readIndex (cq t)) (cstate t i)"
    using 2(1,3) by (auto elim!: pop_stepE)
  ultimately show ?case ..
qed

interpretation solo_queue: step_system conc_starts "solo_step i" "solo_inv i" for i :: nat
proof
  show "solo_inv i s" if "conc_starts s" for s
    using that by (auto simp: solo_inv_def conc_start_inv) (auto simp: conc_starts_def conc_start_def)
  show "solo_inv i t" if "solo_step i s t" "solo_inv i s" for s t
    using that by (rule solo_step_inv)
qed

fun turn_of :: "nat \<Rightarrow> turn \<Rightarrow> bool" where
  "turn_of i (Prod a b) = True"
| "turn_of i (Cons j) = (i = j)"

lemma fire_solo: "turn_of i t \<Longrightarrow> solo_step i s (fire t s)"
  by (cases t)
     (auto simp: solo_step_def intro: push_step.intros pop_step.intros
       split: producer.splits consumer.splits)

lemma fold_fire_solo: "list_all (turn_of i) ts \<Longrightarrow> reachable_from (solo_step i) s (fold fire ts s)"
proof (induction ts rule: rev_induct)
  case Nil
  show ?case by (simp add: reach_start)
next
  case (snoc t ts)
  then show ?case by (auto intro: reach_step fire_solo)
qed

section \<open>Properties\<close>

text \<open>C26: Under every interleaving of one producer and any number of consumers, as long as fewer
  than \<open>2 ^ 32 - 1\<close> messages have been committed, the pairs the consumers return are, in the
  order of their compare-and-swap, exactly the first committed ones: none is lost, duplicated,
  reordered or torn, and at most \<open>len - 1\<close> are waiting.\<close>

theorem conc_queue_fifo:
  assumes "conc_starts s0" and "reachable_from conc_step s0 s"
    and "Suc (length (pushed s)) < 2 ^ 32"
  shows "map snd (popped s) = take (length (popped s)) (pushed s) \<and>
    length (popped s) \<le> length (pushed s) \<and>
    length (pushed s) - length (popped s) < unat (qlen (cq s))"
proof -
  have "conc_inv s" using assms(1,2) by (rule conc_queue.reachable_inv)
  then have "conc_core s" using assms(3) by (simp add: conc_inv_def)
  from conc_coreD(1,2) [OF this] show ?thesis by (simp add: ring_ok_def)
qed

definition queue4 :: circ_queue where
  "queue4 = \<lparr>writeIndex = 0, readIndex = 0, vals = replicate 4 (0, 0), qlen = 4,
     q_ptr = 0, vals_ptr = 1, slot_ptrs = [2, 3, 4, 5]\<rparr>"

lemma queue4_starts: "conc_starts (conc_start queue4)"
  unfolding conc_starts_def
  by (intro exI [of _ queue4])
     (simp add: queue4_def queue_inv_def stored_def divides_wrap_def)

text \<open>Two consumers race for the first of two messages.\<close>

definition race :: "turn list" where
  "race = replicate 6 (Prod 1 2) @ replicate 6 (Prod 3 4) @
     replicate 5 (Cons 0) @ replicate 6 (Cons 1) @ [Cons 0]"

lemma race_result:
  "pushed (fold fire race (conc_start queue4)) = [(1, 2), (3, 4)]"
  "popped (fold fire race (conc_start queue4)) = [(1, 1, 2)]"
  "cstate (fold fire race (conc_start queue4)) 0 = CStart"
  by code_simp+

theorem conc_queue_fifo_witness:
  "map snd (popped (fold fire race (conc_start queue4))) =
     take (length (popped (fold fire race (conc_start queue4))))
       (pushed (fold fire race (conc_start queue4)))"
  using conc_queue_fifo [OF queue4_starts fold_fire_reachable, of race]
  by (simp add: race_result)

text \<open>The retry loop of \<open>pop_circ_queue\<close> is lock-free: a compare-and-swap fails only when
  another consumer has popped a message since this consumer read the index.\<close>

theorem failed_swap_means_progress:
  assumes "conc_starts s0" and "reachable_from conc_step s0 s"
    and "Suc (length (pushed s)) < 2 ^ 32"
    and "cstate s i = CSwap r a b" and "readIndex (cq s) \<noteq> r"
  shows "unat r < length (popped s)"
proof -
  have "conc_inv s" using assms(1,2) by (rule conc_queue.reachable_inv)
  then have core: "conc_core s" using assms(3) by (simp add: conc_inv_def)
  have "unat r \<le> length (popped s)" using conc_coreD(4) [OF core, of i] assms(4) by simp
  moreover have "unat r \<noteq> length (popped s)"
    using conc_coreD(1) [OF core] assms(5) by (auto simp: ring_ok_def word_unat_eq_iff)
  ultimately show ?thesis by simp
qed

lemma race_before_fail:
  "pushed (fold fire (butlast race) (conc_start queue4)) = [(1, 2), (3, 4)]"
  "popped (fold fire (butlast race) (conc_start queue4)) = [(1, 1, 2)]"
  "cstate (fold fire (butlast race) (conc_start queue4)) 0 = CSwap 0 1 2"
  "readIndex (cq (fold fire (butlast race) (conc_start queue4))) = 1"
  by code_simp+

theorem failed_swap_means_progress_witness:
  "unat (0 :: u32) < length (popped (fold fire (butlast race) (conc_start queue4)))"
  by (rule failed_swap_means_progress
      [OF queue4_starts fold_fire_reachable, of "butlast race" 0 0 1 2])
     (simp_all add: race_before_fail)



text \<open>With a single consumer the answers of \<open>pop_circ_queue\<close> are exact: it reports empty only
  when every committed message has been popped, and its compare-and-swap never fails.\<close>

theorem solo_consumer_exact:
  assumes "conc_starts s0" and "reachable_from (solo_step i) s0 s"
    and "Suc (length (pushed s)) < 2 ^ 32" and "pop_step i s t"
  shows "(cstate s i = CHaveRead r \<and> cstate t i = CIdle \<longrightarrow> map snd (popped s) = pushed s) \<and>
    (cstate s i = CSwap r a b \<longrightarrow> cstate t i = CIdle)"
proof -
  have si: "solo_inv i s" using assms(1,2) by (rule solo_queue.reachable_inv)
  then have core: "conc_core s" using assms(3) by (simp add: solo_inv_def conc_inv_def)
  have "map snd (popped s) = pushed s" if st: "cstate s i = CHaveRead r" "cstate t i = CIdle"
  proof -
    let ?W = "length (pushed s)" and ?R = "length (popped s)" and ?L = "unat (qlen (cq s))"
    have "queue_count_to_index (readIndex (cq s)) (qlen (cq s)) =
        queue_count_to_index (writeIndex (cq s)) (qlen (cq s))"
      using assms(4) st si by (auto elim!: pop_stepE simp: solo_inv_def)
    then have eq: "?R mod ?L = ?W mod ?L"
      using conc_coreD(1) [OF core] by (simp add: ring_ok_def word_unat_eq_iff ring_index)
    have "?W = ?R"
    proof (rule ccontr)
      assume "?W \<noteq> ?R"
      then have "?R mod ?L \<noteq> ?W mod ?L"
        using conc_coreD(1) [OF core] by (intro mod_neq_within) (auto simp: ring_ok_def)
      with eq show False by simp
    qed
    then show ?thesis using conc_coreD(2) [OF core] by simp
  qed
  moreover have "cstate t i = CIdle" if "cstate s i = CSwap r a b"
    using assms(4) that si by (auto elim!: pop_stepE simp: solo_inv_def)
  ultimately show ?thesis by blast
qed

definition one_message :: "turn list" where
  "one_message = replicate 6 (Prod 1 2) @ replicate 5 (Cons 0)"

lemma one_message_state:
  "pushed (fold fire one_message (conc_start queue4)) = [(1, 2)]"
  "cstate (fold fire one_message (conc_start queue4)) 0 = CSwap 0 1 2"
  "readIndex (cq (fold fire one_message (conc_start queue4))) = 0"
  by code_simp+

theorem solo_consumer_exact_witness:
  "\<exists>t. pop_step 0 (fold fire one_message (conc_start queue4)) t \<and> cstate t 0 = CIdle"
proof -
  let ?s = "fold fire one_message (conc_start queue4)"
  have r: "reachable_from (solo_step 0) (conc_start queue4) ?s"
    by (rule fold_fire_solo) (simp add: one_message_def eval_nat_numeral)
  have st: "pop_step 0 ?s (?s\<lparr>cq := (cq ?s)\<lparr>readIndex := 0 + 1\<rparr>,
      cstate := (cstate ?s)(0 := CIdle), popped := popped ?s @ [(0, 1, 2)]\<rparr>)"
    by (rule swap_ok) (simp_all add: one_message_state)
  have "Suc (length (pushed ?s)) < 2 ^ 32" by (simp add: one_message_state)
  from solo_consumer_exact [OF queue4_starts r this st, of 0 1 2] st
  show ?thesis by (auto simp: one_message_state)
qed

definition overtaken :: "turn list" where
  "overtaken = replicate 6 (Prod 1 1) @ replicate 2 (Cons 0) @ replicate 6 (Cons 1) @
     replicate 18 (Prod 2 2)"

lemma overtaken_state:
  "pushed (fold fire overtaken (conc_start queue4)) = [(1, 1), (2, 2), (2, 2), (2, 2)]"
  "popped (fold fire overtaken (conc_start queue4)) = [(1, 1, 1)]"
  "cstate (fold fire overtaken (conc_start queue4)) 0 = CHaveRead 0"
  "writeIndex (cq (fold fire overtaken (conc_start queue4))) = 4"
  "qlen (cq (fold fire overtaken (conc_start queue4))) = 4"
  by code_simp+

text \<open>With two consumers it is not: a consumer that read the index, was overtaken, and tests
  after the producer has gone once around the ring, reports empty with three messages waiting.\<close>

theorem spurious_empty:
  "\<exists>s t. reachable_from conc_step (conc_start queue4) s \<and> pop_step 0 s t \<and>
     cstate s 0 = CHaveRead 0 \<and> cstate t 0 = CIdle \<and> popped t = popped s \<and>
     length (pushed s) = length (popped s) + 3"
proof -
  let ?s = "fold fire overtaken (conc_start queue4)"
  let ?t = "?s\<lparr>cstate := (cstate ?s)(0 := CIdle)\<rparr>"
  have "pop_step 0 ?s ?t"
    by (rule is_empty [of _ _ 0]) (simp_all add: overtaken_state queue_count_to_index_def)
  then show ?thesis using fold_fire_reachable [of "conc_start queue4" overtaken]
    by (intro exI [of _ ?s] exI [of _ ?t]) (simp add: overtaken_state)
qed

end
