(* ===== verification/Softmc_Instr.thy ===== *)
theory Softmc_Instr
  imports Prelude
begin

text \<open>
  The instruction generators of the SoftMC API (\<open>src/sw/SoftMC_API/softmc.h\<close>, \<open>softmc.cpp\<close>)
  and the decoder of the hardware that receives the instructions
  (\<open>src/hw/boards/ML605/instr_decoder.v\<close>, \<open>instr_dispatcher.v\<close>, \<open>softMC.inc\<close>).  An
  instruction is a 64-bit word of which the hardware reads the low 32 bits.  The lemmas show
  that the decoder reads back what a generator was given, for every argument in range.
\<close>

section \<open>The enumerations\<close>

datatype instr_type = END_OF_INSTRS | SET_BUS_DIR | WAIT | DDR

datatype busdir = BUS_READ | BUS_WRITE

datatype auto_precharge = NO_AP | AP

datatype pre_type = PRE_SINGLE | PRE_ALL

datatype burst_length = CHOP | FIXED

datatype ref_register = TREFI | TRFC

fun instr_type_code :: "instr_type \<Rightarrow> u64" where
  "instr_type_code END_OF_INSTRS = 0"
| "instr_type_code SET_BUS_DIR = 1"
| "instr_type_code WAIT = 4"
| "instr_type_code DDR = 8"

fun busdir_code :: "busdir \<Rightarrow> u64" where
  "busdir_code BUS_READ = 0"
| "busdir_code BUS_WRITE = 2"

fun register_code :: "ref_register \<Rightarrow> u64" where
  "register_code TREFI = 2"
| "register_code TRFC = 3"

text \<open>The instruction types are ordered by their opcodes.\<close>

instantiation instr_type :: linorder
begin

definition less_eq_instr_type :: "instr_type \<Rightarrow> instr_type \<Rightarrow> bool" where
  "less_eq_instr_type a b \<longleftrightarrow> instr_type_code a \<le> instr_type_code b"

definition less_instr_type :: "instr_type \<Rightarrow> instr_type \<Rightarrow> bool" where
  "less_instr_type a b \<longleftrightarrow> instr_type_code a < instr_type_code b"

instance
proof
  fix a b c :: instr_type
  show "a < b \<longleftrightarrow> a \<le> b \<and> \<not> b \<le> a"
    by (auto simp: less_eq_instr_type_def less_instr_type_def)
  show "a \<le> a" by (simp add: less_eq_instr_type_def)
  show "a \<le> b \<Longrightarrow> b \<le> c \<Longrightarrow> a \<le> c" by (simp add: less_eq_instr_type_def)
  show "a \<le> b \<Longrightarrow> b \<le> a \<Longrightarrow> a = b"
    by (cases a; cases b) (simp_all add: less_eq_instr_type_def word_le_nat_alt)
  show "a \<le> b \<or> b \<le> a" by (auto simp: less_eq_instr_type_def)
qed

end

section \<open>The generators\<close>

text \<open>The two statements every generator is made of: \<open>instr <<= k; instr |= x\<close>.\<close>

definition shl_or :: "u64 \<Rightarrow> nat \<Rightarrow> u64 \<Rightarrow> u64" where
  "shl_or instr k x = push_bit k instr OR x"

definition genACT :: "u32 \<Rightarrow> u32 \<Rightarrow> u64" where
  "genACT bank row =
     (let instr = instr_type_code DDR;
          instr = shl_or instr (32 - 4 - 3 - 16) 0x23;
          instr = shl_or instr 3 (ucast bank)
      in shl_or instr 16 (ucast row))"

definition genPRE :: "u32 \<Rightarrow> pre_type \<Rightarrow> u64" where
  "genPRE bank pc =
     (let instr = instr_type_code DDR;
          instr = shl_or instr (32 - 4 - 3 - 16) 0x22
      in case pc of
           PRE_ALL \<Rightarrow> push_bit 10 (shl_or instr (3 + 16 - 10) 0x1)
         | PRE_SINGLE \<Rightarrow> push_bit 16 (shl_or instr 3 (ucast bank)))"

definition genWR :: "u32 \<Rightarrow> u32 \<Rightarrow> u8 \<Rightarrow> auto_precharge \<Rightarrow> burst_length \<Rightarrow> u64" where
  "genWR bank col pattern ap bl =
     (let instr = instr_type_code DDR;
          instr = shl_or instr (32 - 6 - 3 - 16 - 4) (ucast (drop_bit 2 pattern));
          instr = shl_or instr 6 0x24;
          instr = shl_or instr 3 (ucast bank);
          instr = shl_or instr 2 (ucast (pattern AND 0x3));
          instr = shl_or instr 2 (case bl of FIXED \<Rightarrow> 0x1 | CHOP \<Rightarrow> 0);
          instr = shl_or instr 2 (case ap of AP \<Rightarrow> 0x1 | NO_AP \<Rightarrow> 0)
      in shl_or instr 10 (ucast col))"

definition genRD :: "u32 \<Rightarrow> u32 \<Rightarrow> auto_precharge \<Rightarrow> burst_length \<Rightarrow> u64" where
  "genRD bank col ap bl =
     (let instr = 0x25;
          instr = shl_or instr 3 (ucast bank);
          instr = shl_or instr 4 (case bl of FIXED \<Rightarrow> 0x1 | CHOP \<Rightarrow> 0);
          instr = shl_or instr 2 (case ap of AP \<Rightarrow> 0x1 | NO_AP \<Rightarrow> 0);
          instr = shl_or instr 10 (ucast col);
          instr2 = instr_type_code DDR
      in shl_or instr2 28 instr)"

text \<open>\<open>None\<close> is a failed assertion.\<close>

definition genWAIT :: "u32 \<Rightarrow> u64 option" where
  "genWAIT cycles =
     (if \<not> 1 \<le> cycles then None
      else if \<not> cycles \<le> 1023 then None
      else Some (shl_or (instr_type_code WAIT) 28 (ucast cycles)))"

definition genBUSDIR :: "busdir \<Rightarrow> u64" where
  "genBUSDIR dir = shl_or (instr_type_code SET_BUS_DIR) 28 (busdir_code dir)"

definition genEND :: u64 where
  "genEND = push_bit 28 (instr_type_code END_OF_INSTRS)"

definition genZQ :: u64 where
  "genZQ = push_bit (3 + 16) (shl_or (instr_type_code DDR) (32 - 4 - 3 - 16) 0x26)"

definition genREF :: u64 where
  "genREF = push_bit (3 + 16) (shl_or (instr_type_code DDR) (32 - 4 - 3 - 16) 0x21)"

definition genREF_CONFIG :: "u32 \<Rightarrow> ref_register \<Rightarrow> u64 option" where
  "genREF_CONFIG val r =
     (if \<not> val < 0x10000000 then None
      else Some (shl_or (register_code r) 28 (ucast val)))"

section \<open>The decoder of the hardware\<close>

text \<open>
  \<open>slice w hi lo\<close> is the Verilog part select \<open>w[hi:lo]\<close>.  A DDR instruction drives the pins
  of the memory; the command the memory sees is the one of the DDR3 truth table for the levels
  of \<open>CS#\<close>, \<open>RAS#\<close>, \<open>CAS#\<close> and \<open>WE#\<close>.  For a write the dispatcher also takes the data byte
  from the instruction.
\<close>

definition slice :: "u32 \<Rightarrow> nat \<Rightarrow> nat \<Rightarrow> nat" where
  "slice w hi lo = unat (take_bit (Suc hi - lo) (drop_bit lo w))"

record dfi_pins =
  dfi_address :: nat
  dfi_bank :: nat
  dfi_we_n :: nat
  dfi_cas_n :: nat
  dfi_ras_n :: nat
  dfi_cs_n :: nat
  dfi_cke :: nat

definition instr_decoder :: "u32 \<Rightarrow> dfi_pins" where
  "instr_decoder instr =
     \<lparr>dfi_address = slice instr 14 0, dfi_bank = slice instr 18 16, dfi_we_n = slice instr 19 19,
      dfi_cas_n = slice instr 20 20, dfi_ras_n = slice instr 21 21, dfi_cs_n = slice instr 22 22,
      dfi_cke = slice instr 24 24\<rparr>"

datatype ddr_command =
    Activate nat nat                  \<comment> \<open>bank, row\<close>
  | Precharge nat
  | PrechargeAll
  | WriteBurst nat nat nat bool bool  \<comment> \<open>bank, column, byte, auto precharge, burst of 8\<close>
  | ReadBurst nat nat bool bool       \<comment> \<open>bank, column, auto precharge, burst of 8\<close>
  | RefreshCmd
  | ZqShort
  | OtherDdr

datatype hw_op =
    EndIseq
  | SetBus nat
  | HwWait nat
  | SetTrefi nat
  | SetTrfc nat
  | DdrOp ddr_command
  | BadOp

definition ddr_truth_table :: "dfi_pins \<Rightarrow> nat \<Rightarrow> ddr_command" where
  "ddr_truth_table p wrdata =
     (let b = dfi_bank p; a = dfi_address p; a10 = odd (a div 2 ^ 10); a12 = odd (a div 2 ^ 12) in
      if dfi_cs_n p \<noteq> 0 \<or> dfi_cke p \<noteq> 1 then OtherDdr
      else if (dfi_ras_n p, dfi_cas_n p, dfi_we_n p) = (0, 1, 1) then Activate b a
      else if (dfi_ras_n p, dfi_cas_n p, dfi_we_n p) = (0, 1, 0)
      then (if a10 then PrechargeAll else Precharge b)
      else if (dfi_ras_n p, dfi_cas_n p, dfi_we_n p) = (1, 0, 0)
      then WriteBurst b (a mod 2 ^ 10) wrdata a10 a12
      else if (dfi_ras_n p, dfi_cas_n p, dfi_we_n p) = (1, 0, 1)
      then ReadBurst b (a mod 2 ^ 10) a10 a12
      else if (dfi_ras_n p, dfi_cas_n p, dfi_we_n p) = (0, 0, 1) then RefreshCmd
      else if (dfi_ras_n p, dfi_cas_n p, dfi_we_n p) = (1, 1, 0) \<and> \<not> a10 then ZqShort
      else OtherDdr)"

definition instr_dispatch :: "u32 \<Rightarrow> hw_op" where
  "instr_dispatch instr =
     (let opc = slice instr 31 28 in
      if opc = 1 then SetBus (slice instr 1 0)
      else if 8 \<le> opc
      then DdrOp (ddr_truth_table (instr_decoder instr) (slice instr 30 25 * 4 + slice instr 15 14))
      else if opc = 4 then HwWait (slice instr 9 0)
      else if opc = 2 then SetTrefi (slice instr 27 0)
      else if opc = 3 then SetTrfc (slice instr 27 0)
      else if opc = 0 then EndIseq
      else BadOp)"

text \<open>The receiver hands the low half of each 64-bit instruction to the dispatcher.\<close>

definition hw_decode :: "u64 \<Rightarrow> hw_op" where
  "hw_decode instr = instr_dispatch (ucast instr)"

section \<open>Fields of a word\<close>

definition fits :: "u64 \<Rightarrow> nat \<Rightarrow> bool" where
  "fits x k \<longleftrightarrow> unat x < 2 ^ k"

definition cut :: "u64 \<Rightarrow> nat \<Rightarrow> nat \<Rightarrow> u64" where
  "cut x hi lo = take_bit (Suc hi - lo) (drop_bit lo x)"

lemma fits_bit: "fits x k \<Longrightarrow> k \<le> i \<Longrightarrow> \<not> bit x i"
  unfolding fits_def
  by (metis bit_take_bit_iff linorder_not_le take_bit_nat_eq_self unsigned_take_bit_eq
      word_unat_eq_iff)

lemma unat_ucast_32_64: "unat (ucast (x :: u32) :: u64) = unat x"
  by (rule bit_eqI) (auto simp: bit_simps dest: bit_imp_le_length)

lemma unat_ucast_8_64: "unat (ucast (x :: u8) :: u64) = unat x"
  by (rule bit_eqI) (auto simp: bit_simps dest: bit_imp_le_length)

lemma fits_literal:
  "fits (numeral n) k \<longleftrightarrow> unat (numeral n :: u64) < 2 ^ k"
  "0 < k \<Longrightarrow> fits 1 k"
  "fits 0 k"
  using one_less_power [of "2 :: nat" k] by (simp_all add: fits_def del: one_less_power)

lemma fits_arg:
  "fits (ucast (x :: u32)) k \<longleftrightarrow> unat x < 2 ^ k"
  "fits (ucast (y :: u8)) k \<longleftrightarrow> unat y < 2 ^ k"
  by (simp_all add: fits_def unat_ucast_32_64 unat_ucast_8_64)

lemma fits_shl_or: "k \<le> b \<Longrightarrow> fits i (b - k) \<Longrightarrow> fits x k \<Longrightarrow> fits (shl_or i k x) b"
proof -
  assume k: "k \<le> b" and i: "fits i (b - k)" and x: "fits x k"
  have "take_bit b (shl_or i k x) = shl_or i k x"
  proof (rule bit_word_eqI)
    fix n
    show "bit (take_bit b (shl_or i k x)) n \<longleftrightarrow> bit (shl_or i k x) n"
      using fits_bit [OF i, of "n - k"] fits_bit [OF x, of n] k
      by (cases "n < b") (auto simp: shl_or_def bit_simps)
  qed
  then have "take_bit b (unat (shl_or i k x)) = unat (shl_or i k x)"
    by (metis unsigned_take_bit_eq)
  then show ?thesis by (simp add: fits_def take_bit_nat_eq_self_iff)
qed

lemma overlap_base: "shl_or 8 3 x = shl_or 1 6 x"
  by (simp add: shl_or_def)

lemma byte_and_3: "(y AND 3 :: u8) = take_bit 2 y"
  using take_bit_eq_mask [of 2 y] by (simp add: mask_eq_exp_minus_1)

lemma byte_split: "unat (drop_bit 2 y :: u8) * 4 + unat (take_bit 2 y) = unat y"
proof -
  have "unat (take_bit 2 y) = unat y mod 4"
    unfolding unsigned_take_bit_eq by (simp add: take_bit_eq_mod)
  moreover have "unat (drop_bit 2 y) = unat y div 4"
    by (simp add: drop_bit_eq_div unat_div)
  ultimately show ?thesis by simp
qed

lemma byte_low: "unat (take_bit 2 y :: u8) < 4"
  unfolding unsigned_take_bit_eq by (simp add: take_bit_eq_mod)

lemma byte_high: "unat (drop_bit 2 y :: u8) < 64"
proof -
  have "unat y < 256" using unsigned_less [of y] by simp
  then show ?thesis using byte_split [of y] by linarith
qed

lemma slice_cut: "hi < 32 \<Longrightarrow> slice (ucast x) hi lo = unat (cut x hi lo)"
  unfolding slice_def cut_def by (rule bit_eqI) (auto simp: bit_simps)

lemma cut_above:
  "fits x k \<Longrightarrow> k \<le> lo \<Longrightarrow> lo \<le> hi \<Longrightarrow> hi < 64 \<Longrightarrow>
     cut (shl_or i k x) hi lo = cut i (hi - k) (lo - k)"
  unfolding cut_def shl_or_def by (intro bit_word_eqI) (auto simp: bit_simps fits_bit)

lemma cut_below: "hi < k \<Longrightarrow> cut (shl_or i k x) hi lo = cut x hi lo"
  unfolding cut_def shl_or_def by (intro bit_word_eqI) (auto simp: bit_simps)

lemma cut_whole: "fits x (Suc hi) \<Longrightarrow> unat (cut x hi 0) = unat x"
  unfolding fits_def cut_def by (simp add: unsigned_take_bit_eq take_bit_nat_eq_self)

lemma cut_literal:
  "cut (numeral n) hi lo = take_bit (Suc hi - lo) (drop_bit lo (numeral n))"
  "cut 1 hi lo = take_bit (Suc hi - lo) (drop_bit lo 1)"
  "cut 0 hi lo = 0"
  by (simp_all add: cut_def)

lemma push_bit_shl_or: "push_bit k i = shl_or i k 0"
  by (simp add: shl_or_def)

lemma slice_bit: "slice w k k = of_bool (bit w k)"
  by (simp add: slice_def mod2_eq_if bit_iff_odd_drop_bit)

lemma opcode_ddr: "slice w 31 31 = 1 \<Longrightarrow> 8 \<le> slice w 31 28"
proof -
  assume "slice w 31 31 = 1"
  then have "bit (slice w 31 28) 3" unfolding slice_bit by (simp add: slice_def bit_simps of_bool_def split: if_splits)
  then have "odd (slice w 31 28 div 8)" by (simp add: bit_iff_odd)
  then show ?thesis by (cases "8 \<le> slice w 31 28") auto
qed

lemma address_a10: "odd (slice w 14 0 div 2 ^ 10) \<longleftrightarrow> slice w 10 10 = 1"
proof -
  have "odd (slice w 14 0 div 2 ^ 10) \<longleftrightarrow> bit w 10"
    by (simp add: slice_def bit_iff_odd [symmetric] bit_simps del: power_numeral)
  moreover have "slice w 10 10 = 1 \<longleftrightarrow> bit w 10"
    using slice_bit [of w 10] slice_bit [of w 12] by simp
  ultimately show ?thesis by simp
qed

lemma address_a12: "odd (slice w 14 0 div 2 ^ 12) \<longleftrightarrow> slice w 12 12 = 1"
proof -
  have "odd (slice w 14 0 div 2 ^ 12) \<longleftrightarrow> bit w 12"
    by (simp add: slice_def bit_iff_odd [symmetric] bit_simps del: power_numeral)
  moreover have "slice w 12 12 = 1 \<longleftrightarrow> bit w 12"
    using slice_bit [of w 10] slice_bit [of w 12] by simp
  ultimately show ?thesis by simp
qed

lemma address_col: "slice w 14 0 mod 2 ^ 10 = slice w 9 0"
proof -
  have "take_bit 10 (slice w 14 0) = slice w 9 0"
    by (rule bit_eqI) (auto simp: slice_def bit_simps)
  then show ?thesis by (simp add: take_bit_eq_mod)
qed

lemmas field_rules = slice_cut cut_above cut_below cut_whole cut_literal fits_literal fits_arg
  fits_shl_or push_bit_shl_or unat_ucast_32_64 unat_ucast_8_64 byte_and_3 byte_low byte_high

lemmas code_cases = busdir_code.simps register_code.simps instr_type_code.simps
  pre_type.case burst_length.case auto_precharge.case

lemmas decode_defs = hw_decode_def instr_dispatch_def instr_decoder_def ddr_truth_table_def
  Let_def dfi_pins.select_convs address_a10 address_a12 address_col

lemma genACT_fields:
  assumes "unat bank < 8" "unat row < 2 ^ 15"
  shows "slice (ucast (genACT bank row)) 31 28 = 8"
    "slice (ucast (genACT bank row)) 24 24 = 1" "slice (ucast (genACT bank row)) 22 22 = 0"
    "slice (ucast (genACT bank row)) 21 21 = 0" "slice (ucast (genACT bank row)) 20 20 = 1"
    "slice (ucast (genACT bank row)) 19 19 = 1" "slice (ucast (genACT bank row)) 18 16 = unat bank"
    "slice (ucast (genACT bank row)) 14 0 = unat row"
  unfolding genACT_def Let_def code_cases using assms by (simp_all add: field_rules)

lemma genRD_fields:
  assumes "unat bank < 8" "unat col < 1024"
  shows "slice (ucast (genRD bank col ap bl)) 31 28 = 8"
    "slice (ucast (genRD bank col ap bl)) 24 24 = 1" "slice (ucast (genRD bank col ap bl)) 22 22 = 0"
    "slice (ucast (genRD bank col ap bl)) 21 21 = 1" "slice (ucast (genRD bank col ap bl)) 20 20 = 0"
    "slice (ucast (genRD bank col ap bl)) 19 19 = 1"
    "slice (ucast (genRD bank col ap bl)) 18 16 = unat bank"
    "slice (ucast (genRD bank col ap bl)) 9 0 = unat col"
    "slice (ucast (genRD bank col ap bl)) 10 10 = of_bool (ap = AP)"
    "slice (ucast (genRD bank col ap bl)) 12 12 = of_bool (bl = FIXED)"
  unfolding genRD_def Let_def code_cases using assms
  by (simp_all add: field_rules split: auto_precharge.split burst_length.split)

lemma genWR_fields:
  assumes "unat bank < 8" "unat col < 1024"
  shows "slice (ucast (genWR bank col pattern ap bl)) 31 31 = 1"
    "slice (ucast (genWR bank col pattern ap bl)) 24 24 = 1"
    "slice (ucast (genWR bank col pattern ap bl)) 22 22 = 0"
    "slice (ucast (genWR bank col pattern ap bl)) 21 21 = 1"
    "slice (ucast (genWR bank col pattern ap bl)) 20 20 = 0"
    "slice (ucast (genWR bank col pattern ap bl)) 19 19 = 0"
    "slice (ucast (genWR bank col pattern ap bl)) 18 16 = unat bank"
    "slice (ucast (genWR bank col pattern ap bl)) 9 0 = unat col"
    "slice (ucast (genWR bank col pattern ap bl)) 10 10 = of_bool (ap = AP)"
    "slice (ucast (genWR bank col pattern ap bl)) 12 12 = of_bool (bl = FIXED)"
    "slice (ucast (genWR bank col pattern ap bl)) 30 25 = unat (drop_bit 2 pattern)"
    "slice (ucast (genWR bank col pattern ap bl)) 15 14 = unat (take_bit 2 pattern)"
  unfolding genWR_def Let_def code_cases using assms
  by (simp_all add: field_rules overlap_base split: auto_precharge.split burst_length.split)

lemma genPRE_fields:
  assumes "unat bank < 8"
  shows "slice (ucast (genPRE bank pc)) 31 28 = 8"
    "slice (ucast (genPRE bank pc)) 24 24 = 1" "slice (ucast (genPRE bank pc)) 22 22 = 0"
    "slice (ucast (genPRE bank pc)) 21 21 = 0" "slice (ucast (genPRE bank pc)) 20 20 = 1"
    "slice (ucast (genPRE bank pc)) 19 19 = 0"
    "slice (ucast (genPRE bank PRE_SINGLE)) 18 16 = unat bank"
    "slice (ucast (genPRE bank pc)) 10 10 = of_bool (pc = PRE_ALL)"
  unfolding genPRE_def Let_def code_cases using assms
  by (simp_all add: field_rules split: pre_type.split)


section \<open>What the hardware reads\<close>

lemma decode_ACT:
  "unat bank < 8 \<Longrightarrow> unat row < 2 ^ 15 \<Longrightarrow>
     hw_decode (genACT bank row) = DdrOp (Activate (unat bank) (unat row))"
  unfolding decode_defs by (simp add: genACT_fields)

lemma decode_PRE:
  "unat bank < 8 \<Longrightarrow>
     hw_decode (genPRE bank pc) =
       DdrOp (case pc of PRE_ALL \<Rightarrow> PrechargeAll | PRE_SINGLE \<Rightarrow> Precharge (unat bank))"
  unfolding decode_defs by (cases pc) (simp_all add: genPRE_fields)

lemma decode_WR:
  "unat bank < 8 \<Longrightarrow> unat col < 1024 \<Longrightarrow>
     hw_decode (genWR bank col pattern ap bl) =
       DdrOp (WriteBurst (unat bank) (unat col) (unat pattern) (ap = AP) (bl = FIXED))"
  using opcode_ddr [OF genWR_fields(1), of bank col pattern ap bl]
  unfolding decode_defs by (simp add: genWR_fields byte_split)

lemma decode_RD:
  "unat bank < 8 \<Longrightarrow> unat col < 1024 \<Longrightarrow>
     hw_decode (genRD bank col ap bl) =
       DdrOp (ReadBurst (unat bank) (unat col) (ap = AP) (bl = FIXED))"
  unfolding decode_defs by (simp add: genRD_fields)

lemma decode_fixed:
  "hw_decode genREF = DdrOp RefreshCmd" "hw_decode genZQ = DdrOp ZqShort"
  "hw_decode genEND = EndIseq"
  by code_simp+

lemma decode_WAIT: "genWAIT c = Some i \<Longrightarrow> hw_decode i = HwWait (unat c)"
  unfolding genWAIT_def decode_defs code_cases
  by (auto simp: field_rules word_le_nat_alt split: if_splits)

lemma decode_REF_CONFIG:
  "genREF_CONFIG c r = Some i \<Longrightarrow>
     hw_decode i = (case r of TREFI \<Rightarrow> SetTrefi (unat c) | TRFC \<Rightarrow> SetTrfc (unat c))"
  unfolding genREF_CONFIG_def decode_defs
  by (cases r) (auto simp: field_rules word_less_nat_alt split: if_splits)

lemma decode_BUSDIR:
  "hw_decode (genBUSDIR d) = SetBus (case d of BUS_READ \<Rightarrow> 0 | BUS_WRITE \<Rightarrow> 2)"
  by (cases d; hypsubst; code_simp)

lemma column_carry:
  assumes "unat (col :: u32) < 1024"
  shows "shl_or (shl_or i 2 0) 10 (ucast (col + 1024)) = shl_or (shl_or i 2 1) 10 (ucast col)"
proof -
  have low: "take_bit 10 col = col"
    using assms take_bit_nat_eq_self [of "unat col" 10]
    by (simp add: word_unat_eq_iff unsigned_take_bit_eq)
  have "col + 2 ^ 10 = col OR 2 ^ 10"
  proof (rule disjunctive_add)
    fix n
    have "bit col n \<Longrightarrow> n < 10" by (subst (asm) low [symmetric]) (simp add: bit_simps)
    moreover have "bit (2 ^ 10 :: u32) n \<Longrightarrow> n = 10" by (simp only: bit_exp_iff)
    ultimately show "\<not> bit col n \<or> \<not> bit (2 ^ 10 :: u32) n" by blast
  qed
  moreover have "(ucast (col OR 2 ^ 10) :: u64) = ucast col OR ucast (2 ^ 10 :: u32)"
    by (rule bit_word_eqI) (auto simp only: bit_simps)
  moreover have "ucast (2 ^ 10 :: u32) = (2 ^ 10 :: u64)" by simp
  ultimately have "(ucast (col + 2 ^ 10) :: u64) = ucast col OR 2 ^ 10" by (simp only:)
  moreover have "push_bit 10 (1 :: u64) = 2 ^ 10" by simp
  ultimately show ?thesis by (simp add: shl_or_def push_bit_or ac_simps)
qed

section \<open>Properties\<close>

text \<open>C5: The DDR instructions reach the memory as the commands they are named after: the
  hardware decodes each of \<open>genACT\<close>, \<open>genPRE\<close>, \<open>genWR\<close>, \<open>genRD\<close>, \<open>genREF\<close> and \<open>genZQ\<close> to
  the pins of that DDR3 command with exactly the bank, row, column, data byte and flags it was
  given, for every bank, row and column of the module; the byte of a write crosses the bank and
  column fields and the opcode itself, and still comes back whole.\<close>

theorem ddr_instr_roundtrip:
  assumes "unat bank < 8" and "unat row < 2 ^ 15" and "unat col < 1024"
  shows "hw_decode (genACT bank row) = DdrOp (Activate (unat bank) (unat row)) \<and>
    hw_decode (genPRE bank PRE_SINGLE) = DdrOp (Precharge (unat bank)) \<and>
    hw_decode (genPRE bank PRE_ALL) = DdrOp PrechargeAll \<and>
    hw_decode (genWR bank col pattern ap bl) =
      DdrOp (WriteBurst (unat bank) (unat col) (unat pattern) (ap = AP) (bl = FIXED)) \<and>
    hw_decode (genRD bank col ap bl) =
      DdrOp (ReadBurst (unat bank) (unat col) (ap = AP) (bl = FIXED)) \<and>
    hw_decode genREF = DdrOp RefreshCmd \<and> hw_decode genZQ = DdrOp ZqShort"
  using assms by (simp add: decode_ACT decode_PRE decode_WR decode_RD decode_fixed)

theorem ddr_instr_roundtrip_witness:
  "hw_decode (genWR 5 1016 0xA7 AP CHOP) = DdrOp (WriteBurst 5 1016 167 True False) \<and>
   hw_decode (genACT 5 32767) = DdrOp (Activate 5 32767)"
  using ddr_instr_roundtrip [of 5 32767 1016 "0xA7" AP CHOP] by simp

text \<open>C32: The control instructions: \<open>genWAIT\<close> passes its assertions exactly for 1 to 1023 cycles
  and \<open>genREF_CONFIG\<close> exactly below \<open>2 ^ 28\<close>, what they return decodes to the same number for
  the same register, \<open>genBUSDIR\<close> selects the direction the dispatcher tests for, and
  \<open>genEND\<close> ends the sequence.\<close>

theorem control_instr_roundtrip:
  "map_option hw_decode (genWAIT c) =
     (if 1 \<le> unat c \<and> unat c \<le> 1023 then Some (HwWait (unat c)) else None) \<and>
   map_option hw_decode (genREF_CONFIG c TREFI) =
     (if unat c < 2 ^ 28 then Some (SetTrefi (unat c)) else None) \<and>
   map_option hw_decode (genREF_CONFIG c TRFC) =
     (if unat c < 2 ^ 28 then Some (SetTrfc (unat c)) else None) \<and>
   hw_decode (genBUSDIR BUS_WRITE) = SetBus 2 \<and> hw_decode (genBUSDIR BUS_READ) = SetBus 0 \<and>
   hw_decode genEND = EndIseq"
proof -
  have "genWAIT c = None \<longleftrightarrow> \<not> (1 \<le> unat c \<and> unat c \<le> 1023)"
    by (auto simp: genWAIT_def word_le_nat_alt)
  then have w: "map_option hw_decode (genWAIT c) =
     (if 1 \<le> unat c \<and> unat c \<le> 1023 then Some (HwWait (unat c)) else None)"
    using decode_WAIT [of c] by (cases "genWAIT c") auto
  have none: "genREF_CONFIG c r = None \<longleftrightarrow> \<not> unat c < 2 ^ 28" for r
    by (auto simp: genREF_CONFIG_def word_less_nat_alt)
  have r: "map_option hw_decode (genREF_CONFIG c r) =
     (if unat c < 2 ^ 28
      then Some (case r of TREFI \<Rightarrow> SetTrefi (unat c) | TRFC \<Rightarrow> SetTrfc (unat c)) else None)" for r
    using decode_REF_CONFIG [of c r] none [of r] by (cases "genREF_CONFIG c r") auto
  show ?thesis using w r [of TREFI] r [of TRFC] by (simp add: decode_BUSDIR decode_fixed)
qed

text \<open>Columns are not range checked: a column 1024 past the end carries into address bit 10,
  so a read or write without auto precharge becomes the instruction with auto precharge for
  the column modulo 1024.\<close>

theorem column_overflow_auto_precharge:
  assumes "unat col < 1024"
  shows "genRD bank (col + 1024) NO_AP bl = genRD bank col AP bl \<and>
    genWR bank (col + 1024) pattern NO_AP bl = genWR bank col pattern AP bl"
  using column_carry [OF assms] by (simp add: genRD_def genWR_def Let_def)

theorem column_overflow_auto_precharge_witness:
  "genRD 3 1032 NO_AP FIXED = genRD 3 8 AP FIXED"
  using column_overflow_auto_precharge [of 8 3 FIXED 0] by simp

end
