(* ===== verification/Softmc_Seq.thy ===== *)
theory Softmc_Seq
  imports Softmc_Instr "HOL-Library.Monad_Syntax"
begin

text \<open>
  \<open>class InstructionSequence\<close> of the SoftMC API (\<open>softmc.h\<close>, \<open>softmc.cpp\<close>): a growable array
  of instructions that \<open>execute\<close> sends to the FPGA.  A word of a fresh array is \<open>None\<close> until
  it is written; an access outside the array is the result \<open>None\<close> of the operation.
\<close>

section \<open>State and operations\<close>

record instruction_sequence =
  sq_size :: u32
  sq_instrs :: "u64 option list"
  sq_capacity :: u32

definition new_sequence :: "u32 \<Rightarrow> instruction_sequence" where
  "new_sequence cap =
     \<lparr>sq_size = 0, sq_instrs = replicate (unat cap) None, sq_capacity = cap\<rparr>"

text \<open>The loop that copies the old array into the new one.\<close>

function copy_instrs ::
  "nat \<Rightarrow> nat \<Rightarrow> u64 option list \<Rightarrow> u64 option list \<Rightarrow> u64 option list option" where
  "copy_instrs i n src tmp =
     (if i < n
      then (if i < length src \<and> i < length tmp
            then copy_instrs (Suc i) n src (tmp[i := src ! i]) else None)
      else Some tmp)"
  by pat_completeness auto
termination by (relation "measure (\<lambda>(i, n, src, tmp). n - i)") auto

declare copy_instrs.simps [simp del]

definition grow :: "instruction_sequence \<Rightarrow> instruction_sequence option" where
  "grow s = do {
     tmp \<leftarrow> copy_instrs 0 (unat (sq_size s)) (sq_instrs s)
              (replicate (unat (sq_capacity s * 2)) None);
     Some (s\<lparr>sq_capacity := sq_capacity s * 2, sq_instrs := tmp\<rparr>) }"

definition insert_instr :: "instruction_sequence \<Rightarrow> u64 \<Rightarrow> instruction_sequence option" where
  "insert_instr s c = do {
     s \<leftarrow> (if sq_size s = sq_capacity s then grow s else Some s);
     (if unat (sq_size s) < length (sq_instrs s)
      then Some (s\<lparr>sq_instrs := (sq_instrs s)[unat (sq_size s) := Some c],
                   sq_size := sq_size s + 1\<rparr>)
      else None) }"

text \<open>
  A call of the driver's user API as the library makes it.  \<open>execute\<close> hands over
  \<open>INSTR_SIZE * size\<close> words; each instruction is its low word and then its high word.
\<close>

datatype fpga_call =
    FpgaSend nat "u32 list" nat bool nat   \<comment> \<open>channel, words, offset, last, timeout\<close>
  | FpgaRecv nat nat nat                   \<comment> \<open>channel, words, timeout\<close>
  | Waited nat                             \<comment> \<open>the retention time has passed\<close>

definition instr_words :: "u64 \<Rightarrow> u32 list" where
  "instr_words i = [ucast i, ucast (drop_bit 32 i)]"

definition memory_words :: "u64 list \<Rightarrow> u32 list" where
  "memory_words is = concat (map instr_words is)"

fun read_instrs :: "u64 option list \<Rightarrow> u64 list option" where
  "read_instrs [] = Some []"
| "read_instrs (None # xs) = None"
| "read_instrs (Some x # xs) = map_option (Cons x) (read_instrs xs)"

definition execute :: "instruction_sequence \<Rightarrow> fpga_call option" where
  "execute s = do {
     is \<leftarrow> read_instrs (take (unat (sq_size s)) (sq_instrs s));
     Some (FpgaSend 0 (take (unat (2 * sq_size s)) (memory_words is)) 0 True 0) }"

section \<open>Contents\<close>

text \<open>The instructions inserted so far, and the invariant of the array.\<close>

definition seq_list :: "instruction_sequence \<Rightarrow> u64 list" where
  "seq_list s = map the (take (unat (sq_size s)) (sq_instrs s))"

definition seq_inv :: "instruction_sequence \<Rightarrow> bool" where
  "seq_inv s \<longleftrightarrow>
     0 < unat (sq_capacity s) \<and> length (sq_instrs s) = unat (sq_capacity s) \<and>
     sq_size s \<le> sq_capacity s \<and>
     (\<forall>x\<in>set (take (unat (sq_size s)) (sq_instrs s)). x \<noteq> None)"

lemma length_seq_list: "seq_inv s \<Longrightarrow> length (seq_list s) = unat (sq_size s)"
  by (simp add: seq_inv_def seq_list_def word_le_nat_alt)

lemma new_sequence_inv:
  "0 < unat cap \<Longrightarrow> seq_inv (new_sequence cap) \<and> seq_list (new_sequence cap) = []"
  by (simp add: seq_inv_def new_sequence_def seq_list_def)

lemma reset_inv:
  "seq_inv s \<Longrightarrow> seq_inv (s\<lparr>sq_size := 0\<rparr>) \<and> seq_list (s\<lparr>sq_size := 0\<rparr>) = []"
  by (simp add: seq_inv_def seq_list_def)

lemma copy_instrs_ok:
  "i \<le> n \<Longrightarrow> n \<le> length src \<Longrightarrow> n \<le> length tmp \<Longrightarrow> take i tmp = take i src \<Longrightarrow>
     \<exists>res. copy_instrs i n src tmp = Some res \<and> take n res = take n src \<and>
       length res = length tmp"
proof (induction i n src tmp rule: copy_instrs.induct)
  case (1 i n src tmp)
  show ?case
  proof (cases "i < n")
    case True
    have "take (Suc i) (tmp[i := src ! i]) = take (Suc i) src"
      using 1(5) True 1(3,4) by (simp add: take_Suc_conv_app_nth)
    with 1(1) [OF True] True 1(3,4) have "\<exists>res. copy_instrs (Suc i) n src (tmp[i := src ! i]) = Some res \<and>
       take n res = take n src \<and> length res = length (tmp[i := src ! i])" by simp
    then show ?thesis using True 1(3,4) by (simp add: copy_instrs.simps [of i n src tmp])
  next
    case False
    then have "i = n" using 1(2) by simp
    then show ?thesis using 1(5) by (simp add: copy_instrs.simps [of n n src tmp])
  qed
qed

lemma grow_ok:
  assumes inv: "seq_inv s" and full: "sq_size s = sq_capacity s" and lt: "unat (sq_size s) < 2 ^ 31"
  shows "\<exists>s'. grow s = Some s' \<and> seq_inv s' \<and> seq_list s' = seq_list s \<and> sq_size s' = sq_size s \<and>
    unat (sq_size s') < length (sq_instrs s')"
proof -
  let ?n = "unat (sq_size s)"
  have d: "unat (sq_capacity s * 2) = 2 * ?n" using full lt by (simp add: unat_word_ariths)
  have n: "0 < ?n" "length (sq_instrs s) = ?n" using inv full by (simp_all add: seq_inv_def)
  obtain res where r: "copy_instrs 0 ?n (sq_instrs s) (replicate (2 * ?n) None) = Some res"
    "take ?n res = take ?n (sq_instrs s)" "length res = 2 * ?n"
    using copy_instrs_ok [of 0 ?n "sq_instrs s" "replicate (2 * ?n) None"] n by auto
  have le: "sq_size s \<le> sq_capacity s * 2" using d by (simp add: word_le_nat_alt)
  from r d n le inv show ?thesis
    by (simp add: grow_def seq_inv_def seq_list_def)
qed

lemma insert_instr_ok:
  assumes inv: "seq_inv s" and lt: "unat (sq_size s) < 2 ^ 31"
  shows "\<exists>s'. insert_instr s c = Some s' \<and> seq_inv s' \<and> seq_list s' = seq_list s @ [c]"
proof -
  define t where "t = (if sq_size s = sq_capacity s then grow s else Some s)"
  have "\<exists>s1. t = Some s1 \<and> seq_inv s1 \<and> seq_list s1 = seq_list s \<and> sq_size s1 = sq_size s \<and>
    unat (sq_size s1) < length (sq_instrs s1)"
  proof (cases "sq_size s = sq_capacity s")
    case True
    then show ?thesis using grow_ok [OF inv True lt] by (simp add: t_def)
  next
    case False
    then have "unat (sq_size s) < unat (sq_capacity s)"
      using inv by (simp add: seq_inv_def word_le_nat_alt le_less word_unat_eq_iff)
    then show ?thesis using False inv by (simp add: t_def seq_inv_def)
  qed
  then obtain s1 where s1: "t = Some s1" "seq_inv s1" "seq_list s1 = seq_list s" "sq_size s1 = sq_size s"
    "unat (sq_size s1) < length (sq_instrs s1)" by blast
  let ?s' = "s1\<lparr>sq_instrs := (sq_instrs s1)[unat (sq_size s1) := Some c], sq_size := sq_size s1 + 1\<rparr>"
  have u: "unat (sq_size s1 + 1) = Suc (unat (sq_size s1))"
    using lt s1(4) by (simp add: unat_suc_word)
  have tk: "take (Suc (unat (sq_size s1))) ((sq_instrs s1)[unat (sq_size s1) := Some c]) =
    take (unat (sq_size s1)) (sq_instrs s1) @ [Some c]"
    using s1(5) by (simp add: take_Suc_conv_app_nth)
  have "insert_instr s c = Some ?s'"
    using s1(1,5) by (simp add: insert_instr_def t_def)
  moreover have "seq_inv ?s'"
    using s1(2,5) u tk by (simp add: seq_inv_def word_le_nat_alt)
  moreover have "seq_list ?s' = seq_list s @ [c]"
    using s1(3) u tk by (simp add: seq_list_def)
  ultimately show ?thesis by blast
qed

section \<open>Buffers that grow by appending\<close>

text \<open>
  The contract the row programs rely on: appending to a buffer that holds fewer than \<open>limit\<close>
  items succeeds and adds the item at the end.  \<open>yields m xs\<close> says that the computation \<open>m\<close>
  succeeds with a well-formed buffer that holds \<open>xs\<close>.
\<close>

locale append_buffer =
  fixes add1 :: "'s \<Rightarrow> 'i \<Rightarrow> 's option"
    and contents :: "'s \<Rightarrow> 'i list"
    and ok :: "'s \<Rightarrow> bool"
    and limit :: nat
  assumes add1_ok: "ok s \<Longrightarrow> length (contents s) < limit \<Longrightarrow>
    \<exists>s'. add1 s c = Some s' \<and> ok s' \<and> contents s' = contents s @ [c]"
begin

definition holds :: "'s \<Rightarrow> 'i list \<Rightarrow> bool" where
  "holds s xs \<longleftrightarrow> ok s \<and> contents s = xs"

definition yields :: "'s option \<Rightarrow> 'i list \<Rightarrow> bool" where
  "yields m xs \<longleftrightarrow> (\<exists>s. m = Some s \<and> holds s xs)"

lemma yields_add:
  "holds s xs \<Longrightarrow> length xs < limit \<Longrightarrow> yields (add1 s c) (xs @ [c])"
  using add1_ok [of s c] by (auto simp: holds_def yields_def)

lemma yields_bind:
  "yields m xs \<Longrightarrow> (\<And>s. holds s xs \<Longrightarrow> yields (f s) ys) \<Longrightarrow> yields (Option.bind m f) ys"
  by (auto simp: yields_def)

lemma yields_step:
  "holds s xs \<Longrightarrow> length xs < limit \<Longrightarrow> (\<And>s. holds s (xs @ [c]) \<Longrightarrow> yields (f s) ys) \<Longrightarrow>
     yields (Option.bind (add1 s c) f) ys"
  by (blast intro: yields_bind yields_add)

lemma yields_last: "holds s xs \<Longrightarrow> length xs < limit \<Longrightarrow> ys = xs @ [c] \<Longrightarrow> yields (add1 s c) ys"
  by (simp add: yields_add)

lemma yields_Some: "holds s xs \<Longrightarrow> yields (Some s) xs"
  by (simp add: yields_def)

lemma yieldsE: "yields m xs \<Longrightarrow> (\<And>s. m = Some s \<Longrightarrow> ok s \<Longrightarrow> contents s = xs \<Longrightarrow> P) \<Longrightarrow> P"
  by (auto simp: yields_def holds_def)

end

interpretation instr_buffer: append_buffer insert_instr seq_list seq_inv "2 ^ 31"
  by unfold_locales (use insert_instr_ok length_seq_list in metis)

lemma read_instrs_ok: "\<forall>x\<in>set xs. x \<noteq> None \<Longrightarrow> read_instrs xs = Some (map the xs)"
  by (induction xs rule: read_instrs.induct) auto

lemma length_memory_words: "length (memory_words is) = 2 * length is"
  by (induction "is") (simp_all add: memory_words_def instr_words_def)

lemma execute_ok:
  assumes "seq_inv s" and "unat (sq_size s) < 2 ^ 31"
  shows "execute s = Some (FpgaSend 0 (memory_words (seq_list s)) 0 True 0)"
proof -
  have "read_instrs (take (unat (sq_size s)) (sq_instrs s)) = Some (seq_list s)"
    using assms(1) read_instrs_ok by (simp add: seq_inv_def seq_list_def)
  moreover have "unat (2 * sq_size s) = 2 * unat (sq_size s)"
    using assms(2) by (simp add: unat_word_ariths)
  ultimately show ?thesis
    using length_memory_words [of "seq_list s"] length_seq_list [OF assms(1)]
    by (simp add: execute_def)
qed

section \<open>Properties\<close>

text \<open>C31: On every well-formed sequence of fewer than \<open>2 ^ 31\<close> instructions, \<open>insert\<close> succeeds
  without touching memory outside its arrays, whether or not it has to move to an array of
  twice the capacity, appends the instruction and keeps the sequence well-formed; \<open>execute\<close>
  sends exactly the words of the instructions inserted, none of them uninitialised.\<close>

theorem insert_execute_correct:
  assumes "seq_inv s" and "unat (sq_size s) < 2 ^ 31 - 1"
  shows "\<exists>s'. insert_instr s c = Some s' \<and> seq_inv s' \<and> seq_list s' = seq_list s @ [c] \<and>
    execute s' = Some (FpgaSend 0 (memory_words (seq_list s @ [c])) 0 True 0)"
proof -
  from assms(2) have "unat (sq_size s) < 2 ^ 31" by simp
  from insert_instr_ok [OF assms(1) this, of c] obtain s' where
    s': "insert_instr s c = Some s'" "seq_inv s'" "seq_list s' = seq_list s @ [c]" by blast
  have "unat (sq_size s') = Suc (unat (sq_size s))"
    using length_seq_list [OF s'(2)] length_seq_list [OF assms(1)] s'(3) by simp
  then have "unat (sq_size s') < 2 ^ 31" using assms(2) by simp
  from execute_ok [OF s'(2) this] s' show ?thesis by auto
qed

definition full_sequence :: instruction_sequence where
  "full_sequence = \<lparr>sq_size = 2, sq_instrs = [Some 7, Some 9], sq_capacity = 2\<rparr>"

theorem insert_execute_correct_witness:
  "\<exists>s'. insert_instr full_sequence genEND = Some s' \<and> seq_inv s' \<and> seq_list s' = [7, 9, 0] \<and>
    execute s' = Some (FpgaSend 0 [7, 0, 9, 0, 0, 0] 0 True 0)"
proof -
  have e: "genEND = 0" by (simp add: genEND_def)
  have "seq_inv full_sequence" by (simp add: full_sequence_def seq_inv_def)
  moreover have "unat (sq_size full_sequence) < 2 ^ 31 - 1" by (simp add: full_sequence_def)
  ultimately show ?thesis
    using insert_execute_correct [of full_sequence genEND]
    by (simp add: full_sequence_def seq_list_def memory_words_def instr_words_def e)
qed

text \<open>A sequence constructed with capacity 0 cannot take an instruction: doubling the capacity
  leaves it 0, and the first \<open>insert\<close> writes past the end of the array.\<close>

theorem empty_capacity_overflow: "insert_instr (new_sequence 0) c = None"
  by (simp add: insert_instr_def new_sequence_def grow_def copy_instrs.simps)

end
