(* ===== verification/Single_Float.thy ===== *)
theory Single_Float
  imports Main
begin

text \<open>
  The single precision arithmetic of the program: an integer is converted to \<open>float\<close> and divided by
  another, each time with rounding to the nearest of the numbers with 24 significant bits, ties to the
  even one.  A positive number of that format is a fraction \<open>(x, y)\<close> with a power of two \<open>y\<close>; all
  numbers here are in the normal range of the format.
\<close>

section \<open>Rounding\<close>

fun bits :: "nat \<Rightarrow> nat" where
  "bits n = (if n = 0 then 0 else Suc (bits (n div 2)))"

declare bits.simps [simp del]

definition round_even :: "nat \<Rightarrow> nat \<Rightarrow> nat" where
  "round_even a b =
     (let q = a div b; r = a mod b
      in if 2 * r < b \<or> (2 * r = b \<and> even q) then q else q + 1)"

text \<open>
  The number of the format nearest to \<open>a / b\<close>, for \<open>b \<le> 8 * a\<close>: the quotient is scaled by a power of
  two to have 24 bits before the point.
\<close>

definition single :: "nat \<Rightarrow> nat \<Rightarrow> nat \<times> nat" where
  "single a b =
     (let t = bits (8 * a div b)
      in if t \<le> 27 then (round_even (a * 2 ^ (27 - t)) b, 2 ^ (27 - t))
         else (round_even a (b * 2 ^ (t - 27)) * 2 ^ (t - 27), 1))"

definition single_of :: "nat \<Rightarrow> nat \<times> nat" where
  "single_of n = single n 1"

definition single_div :: "nat \<times> nat \<Rightarrow> nat \<Rightarrow> nat \<times> nat" where
  "single_div f n = single (fst f) (snd f * n)"

definition single_ceil :: "nat \<times> nat \<Rightarrow> nat" where
  "single_ceil f = (fst f + snd f - 1) div snd f"

section \<open>Errors\<close>

lemma round_even_error:
  assumes "0 < b"
  shows "2 * a \<le> 2 * b * round_even a b + b" "2 * b * round_even a b \<le> 2 * a + b"
proof -
  define q r where "q = a div b" and "r = a mod b"
  have a: "a = b * q + r" by (simp add: q_def r_def)
  have r: "r < b" using assms by (simp add: r_def)
  have e: "round_even a b = (if 2 * r < b \<or> (2 * r = b \<and> even q) then q else q + 1)"
    by (simp add: round_even_def q_def r_def Let_def)
  show "2 * a \<le> 2 * b * round_even a b + b" "2 * b * round_even a b \<le> 2 * a + b"
    unfolding e using r a by (auto simp: algebra_simps)
qed

lemma round_even_1 [simp]: "round_even a (Suc 0) = a"
  by (simp add: round_even_def)

lemma bits_bound: "n < 2 ^ bits n" "0 < n \<Longrightarrow> 2 ^ (bits n - 1) \<le> n"
proof (induction n rule: bits.induct)
  case (1 n)
  {
    case 1
    show ?case
    proof (cases "n = 0")
      case False
      then have "n div 2 < 2 ^ bits (n div 2)" using "1.IH"(1) by simp
      then show ?thesis using False by (simp add: bits.simps [of n])
    qed simp
  next
    case 2
    show ?case
    proof (cases "n div 2 = 0")
      case True
      then have "bits n = 1" using 2 by (simp add: bits.simps [of n] bits.simps [of 0])
      then show ?thesis using 2 by simp
    next
      case False
      then have "2 ^ (bits (n div 2) - 1) \<le> n div 2" using 2 "1.IH"(2) by simp
      moreover have "bits n = Suc (bits (n div 2))" "0 < bits (n div 2)"
        using 2 False by (simp_all add: bits.simps [of n] bits.simps [of "n div 2"])
      ultimately show ?thesis
        by (simp add: less_eq_div_iff_mult_less_eq [of 2] mult.commute flip: power_Suc)
    qed
  }
qed

lemma bits_le:
  assumes "n < 2 ^ k"
  shows "bits n \<le> k"
proof (rule ccontr)
  assume "\<not> bits n \<le> k"
  moreover have "bits 0 = 0" by (simp add: bits.simps [of 0])
  ultimately have "k \<le> bits n - 1" "0 < n" by (auto intro: gr0I)
  then have "(2 :: nat) ^ k \<le> 2 ^ (bits n - 1)" "2 ^ (bits n - 1) \<le> n"
    using bits_bound(2) by (auto intro: power_increasing)
  then show False using assms by linarith
qed

text \<open>Rounding moves a number by less than a factor of two.\<close>

lemma round_even_factor:
  assumes "0 < b" and "b \<le> a"
  shows "a \<le> 2 * (b * round_even a b)" "b * round_even a b \<le> 2 * a"
  using round_even_error [OF assms(1), of a] assms(2) by linarith+

lemma single_factor:
  assumes "0 < b" and "b \<le> a" and f: "single a b = (x, y)"
  shows "0 < y" "a * y \<le> 2 * (b * x)" "b * x \<le> 2 * (a * y)"
proof -
  let ?t = "bits (8 * a div b)"
  have "0 < y \<and> a * y \<le> 2 * (b * x) \<and> b * x \<le> 2 * (a * y)"
  proof (cases "?t \<le> 27")
    case True
    then have "x = round_even (a * 2 ^ (27 - ?t)) b" "y = 2 ^ (27 - ?t)"
      using f by (auto simp: single_def Let_def)
    moreover have "b \<le> a * 2 ^ (27 - ?t)"
      using assms(2) by (rule order_trans) simp
    ultimately show ?thesis using round_even_factor [OF assms(1)] by simp
  next
    case False
    let ?s = "2 ^ (?t - 27) :: nat"
    have xy: "x = round_even a (b * ?s) * ?s" "y = 1" using False f by (simp_all add: single_def Let_def)
    have "2 ^ (?t - 1) \<le> 8 * a div b"
      using bits_bound(2) [of "8 * a div b"] assms by (simp add: div_greater_zero_iff)
    then have "b * 2 ^ (?t - 1) \<le> 8 * a"
      by (metis assms(1) less_eq_div_iff_mult_less_eq mult.commute)
    moreover have "?s * 2 ^ 26 = (2 :: nat) ^ (?t - 1)"
      unfolding power_add [symmetric] using False by (intro arg_cong [where f = "power 2"]) simp
    ultimately have "b * (?s * 2 ^ 26) \<le> 8 * a" by simp
    then have "(b * ?s) * 67108864 \<le> 8 * a" by (simp add: mult.assoc)
    then have "b * ?s \<le> a" by linarith
    then show ?thesis
      using round_even_factor [of "b * ?s" a] assms(1) unfolding xy by (simp add: ac_simps)
  qed
  then show "0 < y" "a * y \<le> 2 * (b * x)" "b * x \<le> 2 * (a * y)" by auto
qed

section \<open>The ceiling of a quotient by five\<close>

text \<open>Below \<open>5 * 2 ^ 21\<close> nothing is lost by the two roundings.\<close>

lemma single_of_exact:
  assumes "n < 2 ^ 24"
  obtains s where "single_of n = (n * 2 ^ s, 2 ^ s)"
proof -
  have "8 * n < 2 ^ 27" using assms by simp
  then have "bits (8 * n) \<le> 27" by (rule bits_le)
  then show ?thesis using that by (simp add: single_of_def single_def Let_def)
qed

lemma ceil_fifth:
  assumes "8 \<le> (S :: nat)" and "2 * (n * S) \<le> 10 * x + 5" and "10 * x \<le> 2 * (n * S) + 5" and "0 < n"
  shows "(x + S - 1) div S = (n + 4) div 5"
proof -
  define K j where "K = (n + 4) div 5" and "j = 4 - (n + 4) mod 5"
  have "5 * K + (n + 4) mod 5 = n + 4" by (simp add: K_def)
  then have n: "n + j = 5 * K" and j: "j \<le> 4" by (simp_all add: j_def)
  have nS: "n * S + j * S = 5 * (K * S)" using arg_cong [OF n, of "\<lambda>k. k * S"] by (simp add: algebra_simps)
  have jS: "j * S \<le> 4 * S" using j by simp
  have K: "0 < K" using n assms(4) by (cases K) simp_all
  have up: "x \<le> K * S" using assms(3) nS by linarith
  have "10 * (K * S) < 10 * x + 10 * S" using assms(1,2) nS jS by linarith
  then have low: "K * S < x + S" by linarith
  have "(x + S - 1) div S = K"
    by (rule div_nat_eqI) (use up low assms(1) in \<open>simp_all add: mult.commute\<close>)
  then show ?thesis by (simp add: K_def)
qed

lemma fifth_exact:
  assumes "0 < n" and "n < 5 * 2 ^ 21"
  shows "single_ceil (single_div (single_of n) 5) = (n + 4) div 5"
proof -
  have "n < 2 ^ 24" using assms(2) by simp
  then obtain s where s: "single_of n = (n * 2 ^ s, 2 ^ s)" by (rule single_of_exact)
  let ?y = "2 ^ s :: nat" and ?t = "bits (8 * n div 5)"
  have "8 * n div 5 < 2 ^ 24" using assms(2) by (simp add: div_less_iff_less_mult)
  then have t: "?t \<le> 24" by (rule bits_le)
  let ?S = "2 ^ (27 - ?t) :: nat"
  have q: "8 * (n * ?y) div (?y * 5) = 8 * n div 5"
    using div_mult_mult1 [of ?y "8 * n" 5] by (simp add: ac_simps)
  define x where "x = round_even (n * ?y * ?S) (?y * 5)"
  have f: "single_div (single_of n) 5 = (x, ?S)"
    using t by (simp add: single_div_def s single_def q x_def Let_def)
  have "2 * (n * ?y * ?S) \<le> 2 * (?y * 5) * x + ?y * 5" "2 * (?y * 5) * x \<le> 2 * (n * ?y * ?S) + ?y * 5"
    using round_even_error [of "?y * 5" "n * ?y * ?S"] by (simp_all add: x_def)
  then have "?y * (2 * (n * ?S)) \<le> ?y * (10 * x + 5)" "?y * (10 * x) \<le> ?y * (2 * (n * ?S) + 5)"
    by (simp_all only: distrib_left) (simp_all add: ac_simps)
  then have e: "2 * (n * ?S) \<le> 10 * x + 5" "10 * x \<le> 2 * (n * ?S) + 5"
    unfolding mult_le_cancel1 by simp_all
  have "(8 :: nat) \<le> ?S"
    using power_increasing [of 3 "27 - ?t" "2 :: nat"] t by simp
  from ceil_fifth [OF this e assms(1)] show ?thesis by (simp add: single_ceil_def f)
qed

text \<open>Above that the result is large, and still a 32 bit number.\<close>

lemma fifth_large:
  assumes "5 * 2 ^ 21 \<le> n" and "n < 2 ^ 31"
  shows "2 ^ 18 \<le> single_ceil (single_div (single_of n) 5)" "single_ceil (single_div (single_of n) 5) < 2 ^ 32"
proof -
  obtain x y where s: "single_of n = (x, y)" by fastforce
  have a: "0 < y" "n * y \<le> 2 * x" "x \<le> 2 * (n * y)"
    using single_factor [of 1 n x y] assms(1) s by (simp_all add: single_of_def)
  have "10485760 \<le> n" using assms(1) by simp
  then have "10485760 * y \<le> n * y" by (rule mult_le_mono1)
  then have x: "5242880 * y \<le> x" using a(2) by linarith
  then have le: "y * 5 \<le> x" by (rule order_trans [rotated]) simp
  obtain u w where d: "single_div (single_of n) 5 = (u, w)" by fastforce
  have b: "0 < w" "x * w \<le> 2 * (y * 5 * u)" "y * 5 * u \<le> 2 * (x * w)"
    using single_factor [of "y * 5" x u w] le a(1) d by (simp_all add: single_div_def s)
  have "y * (5242880 * w) \<le> x * w" using mult_le_mono1 [OF x, of w] by (simp add: ac_simps)
  also have "\<dots> \<le> y * (10 * u)" using b(2) by (simp add: ac_simps)
  finally have low: "2 ^ 19 * w \<le> u" using a(1) unfolding mult_le_cancel1 by simp
  have "n < 2147483648" using assms(2) by simp
  then have "n * y < 2147483648 * y" using a(1) by (rule mult_less_mono1)
  then have "x < 4294967296 * y" using a(3) by linarith
  then have "x * w < 4294967296 * y * w" using b(1) by (rule mult_less_mono1)
  moreover have "y * 5 * u = y * (5 * u)" "4294967296 * y * w * 2 = y * (8589934592 * w)" by simp_all
  ultimately have "y * (5 * u) < y * (8589934592 * w)" using b(3) by linarith
  then have "5 * u < 8589934592 * w" unfolding mult_less_cancel1 by simp
  then have up: "u + w - 1 < 4294967296 * w" using b(1) by linarith
  show "2 ^ 18 \<le> single_ceil (single_div (single_of n) 5)"
    unfolding single_ceil_def d using low b(1) by (simp add: less_eq_div_iff_mult_less_eq)
  show "single_ceil (single_div (single_of n) 5) < 2 ^ 32"
    unfolding single_ceil_def d using up b(1) by (simp add: div_less_iff_less_mult)
qed

end
