(* ===== verification/Retention.thy ===== *)
theory Retention
  imports Softmc_Seq Single_Float
begin

text \<open>
  The retention test (\<open>src/sw/RetentionTest/RetentionTest.cpp\<close>): the programs that write and
  read one row of the memory, the bus turn-around, the refresh configuration and the test loop
  over the whole module.  What the program does to the outside is the list of its driver calls,
  its error reports and the number of \<open>InstructionSequence\<close> objects alive; what \<open>fpga_recv\<close>
  puts into the receive buffer is a parameter, indexed by the number of the call.  An operation
  returns \<open>None\<close> where an assertion fails or memory outside an array is written.
\<close>

section \<open>State\<close>

record report =
  rep_col :: nat
  rep_row :: u32
  rep_bank :: u32
  rep_data :: u8

record host =
  calls :: "fpga_call list"
  reports :: "report list"
  recvs :: nat
  live :: nat

definition issue :: "fpga_call \<Rightarrow> host \<Rightarrow> host" where
  "issue c h = h\<lparr>calls := calls h @ [c]\<rparr>"

section \<open>Row programs\<close>

text \<open>
  The preamble of every program: reuse the sequence that was passed, or create one with the
  default capacity of 256.
\<close>

fun reuse_sequence :: "instruction_sequence option \<Rightarrow> host \<Rightarrow> instruction_sequence \<times> host" where
  "reuse_sequence None h = (new_sequence 256, h\<lparr>live := Suc (live h)\<rparr>)"
| "reuse_sequence (Some s) h = (s\<lparr>sq_size := 0\<rparr>, h)"

definition insert_wait :: "instruction_sequence \<Rightarrow> u32 \<Rightarrow> instruction_sequence option" where
  "insert_wait s cycles = do { i \<leftarrow> genWAIT cycles; insert_instr s i }"

function write_cols ::
  "nat \<Rightarrow> u32 \<Rightarrow> u8 \<Rightarrow> instruction_sequence \<Rightarrow> instruction_sequence option" where
  "write_cols i bank pattern s =
     (if i < 1024
      then do { s \<leftarrow> insert_instr s (genWR bank (of_nat i) pattern NO_AP FIXED);
                s \<leftarrow> insert_wait s (6 + 4);
                write_cols (i + 8) bank pattern s }
      else Some s)"
  by pat_completeness auto
termination by (relation "measure (\<lambda>(i, b, p, s). 1024 - i)") auto

function read_cols ::
  "nat \<Rightarrow> u32 \<Rightarrow> instruction_sequence \<Rightarrow> instruction_sequence option" where
  "read_cols i bank s =
     (if i < 1024
      then do { s \<leftarrow> insert_instr s (genRD bank (of_nat i) NO_AP FIXED);
                s \<leftarrow> insert_wait s (6 + 4);
                read_cols (i + 8) bank s }
      else Some s)"
  by pat_completeness auto
termination by (relation "measure (\<lambda>(i, b, s). 1024 - i)") auto

declare write_cols.simps [simp del] read_cols.simps [simp del]

definition build_write_row ::
  "u32 \<Rightarrow> u32 \<Rightarrow> u8 \<Rightarrow> instruction_sequence \<Rightarrow> instruction_sequence option" where
  "build_write_row row bank pattern s = do {
     s \<leftarrow> insert_instr s (genPRE bank PRE_SINGLE);
     s \<leftarrow> insert_wait s 5;
     s \<leftarrow> insert_instr s (genACT bank row);
     s \<leftarrow> insert_wait s 5;
     s \<leftarrow> write_cols 0 bank pattern s;
     s \<leftarrow> insert_wait s 3;
     s \<leftarrow> insert_instr s (genPRE bank PRE_SINGLE);
     s \<leftarrow> insert_wait s 5;
     insert_instr s genEND }"

definition writeRow ::
  "u32 \<Rightarrow> u32 \<Rightarrow> u8 \<Rightarrow> instruction_sequence option \<Rightarrow> host \<Rightarrow>
     (instruction_sequence option \<times> host) option" where
  "writeRow row bank pattern iseq h =
     (let (s, h) = reuse_sequence iseq h in do {
        s \<leftarrow> build_write_row row bank pattern s;
        c \<leftarrow> execute s;
        Some (Some s, issue c h) })"

definition build_read_row ::
  "u32 \<Rightarrow> u32 \<Rightarrow> instruction_sequence \<Rightarrow> instruction_sequence option" where
  "build_read_row row bank s = do {
     s \<leftarrow> insert_instr s (genPRE bank PRE_SINGLE);
     s \<leftarrow> insert_wait s 5;
     s \<leftarrow> insert_instr s (genACT bank row);
     s \<leftarrow> insert_wait s 5;
     s \<leftarrow> read_cols 0 bank s;
     s \<leftarrow> insert_wait s 3;
     s \<leftarrow> insert_instr s (genPRE bank PRE_SINGLE);
     s \<leftarrow> insert_wait s 5;
     insert_instr s genEND }"

text \<open>
  The 64 bytes of the receive buffer in memory order, and the loop that receives a burst at a
  time and compares its bytes.
\<close>

definition rbuf_bytes :: "u32 list \<Rightarrow> u8 list" where
  "rbuf_bytes ws =
     concat (map (\<lambda>w. [ucast w, ucast (drop_bit 8 w), ucast (drop_bit 16 w), ucast (drop_bit 24 w)]) ws)"

definition compare_burst :: "nat \<Rightarrow> u32 \<Rightarrow> u32 \<Rightarrow> u8 \<Rightarrow> u32 list \<Rightarrow> report list" where
  "compare_burst i row bank pattern rbuf =
     map (\<lambda>b. \<lparr>rep_col = i, rep_row = row, rep_bank = bank, rep_data = b\<rparr>)
       (filter (\<lambda>b. b \<noteq> pattern) (take 64 (rbuf_bytes rbuf)))"

function recv_cols :: "(nat \<Rightarrow> u32 list) \<Rightarrow> nat \<Rightarrow> u32 \<Rightarrow> u32 \<Rightarrow> u8 \<Rightarrow> host \<Rightarrow> host" where
  "recv_cols rx i row bank pattern h =
     (if i < 1024
      then let rbuf = rx (recvs h); h = issue (FpgaRecv 0 16 0) h;
               h = h\<lparr>recvs := Suc (recvs h),
                     reports := reports h @ compare_burst i row bank pattern rbuf\<rparr>
           in recv_cols rx (i + 8) row bank pattern h
      else h)"
  by pat_completeness auto
termination by (relation "measure (\<lambda>(rx, i, r, b, p, h). 1024 - i)") auto

declare recv_cols.simps [simp del]

definition readAndCompareRow ::
  "(nat \<Rightarrow> u32 list) \<Rightarrow> u32 \<Rightarrow> u32 \<Rightarrow> u8 \<Rightarrow> instruction_sequence option \<Rightarrow> host \<Rightarrow>
     (instruction_sequence option \<times> host) option" where
  "readAndCompareRow rx row bank pattern iseq h =
     (let (s, h) = reuse_sequence iseq h in do {
        s \<leftarrow> build_read_row row bank s;
        c \<leftarrow> execute s;
        Some (Some s, recv_cols rx 0 row bank pattern (issue c h)) })"

text \<open>
  \<open>turnBus\<close> takes the pointer by value: a sequence it creates itself is not handed back, while
  changes to the caller's sequence persist.
\<close>

definition build_turn_bus :: "busdir \<Rightarrow> instruction_sequence \<Rightarrow> instruction_sequence option" where
  "build_turn_bus b s = do {
     s \<leftarrow> insert_instr s (genBUSDIR b);
     s \<leftarrow> insert_wait s 5;
     insert_instr s genEND }"

definition turnBus ::
  "busdir \<Rightarrow> instruction_sequence option \<Rightarrow> host \<Rightarrow> (instruction_sequence option \<times> host) option" where
  "turnBus b iseq h =
     (let (s, h) = reuse_sequence iseq h in do {
        s \<leftarrow> build_turn_bus b s;
        c \<leftarrow> execute s;
        Some (map_option (\<lambda>_. s) iseq, issue c h) })"

definition setRefreshConfig :: "u32 \<Rightarrow> u32 \<Rightarrow> host \<Rightarrow> host option" where
  "setRefreshConfig trefi trfc h =
     (let h = h\<lparr>live := Suc (live h)\<rparr> in do {
        i \<leftarrow> genREF_CONFIG trfc TRFC;
        s \<leftarrow> insert_instr (new_sequence 256) i;
        j \<leftarrow> genREF_CONFIG trefi TREFI;
        s \<leftarrow> insert_instr s j;
        s \<leftarrow> insert_instr s genEND;
        c \<leftarrow> execute s;
        Some ((issue c h)\<lparr>live := live h - 1\<rparr>) })"

section \<open>The test loop\<close>

text \<open>
  The two inner loops carry the row and bank counters, the loop variable \<open>i\<close> and, for writing,
  the flag \<open>dimm_done\<close>.
\<close>

lemma index_step: "i < g \<Longrightarrow> unat (g - (i + 1)) < unat (g - i :: u32)"
  using unat_pred_diff [of g i] by (metis less_irrefl lessI)

definition next_row :: "u32 \<Rightarrow> u32 \<Rightarrow> u32 \<times> u32" where
  "next_row row bank =
     (let row = row + 1 in if row = 32768 then (0, bank + 1) else (row, bank))"

function write_group ::
  "u32 \<Rightarrow> u32 \<Rightarrow> u8 \<Rightarrow> u32 \<Rightarrow> u32 \<Rightarrow> instruction_sequence option \<Rightarrow> host \<Rightarrow>
     (bool \<times> u32 \<times> u32 \<times> instruction_sequence option \<times> host) option" where
  "write_group i group_size pattern row bank iseq h =
     (if i < group_size
      then (case writeRow row bank pattern iseq h of
              None \<Rightarrow> None
            | Some (iseq, h) \<Rightarrow>
                (let (row, bank) = next_row row bank in
                 if bank = 8 then Some (True, row, bank, iseq, h)
                 else write_group (i + 1) group_size pattern row bank iseq h))
      else Some (False, row, bank, iseq, h))"
  by pat_completeness auto
termination
  by (relation "measure (\<lambda>(i, g, p, r, b, s, h). unat (g - i))") (auto intro: index_step)

function read_group ::
  "(nat \<Rightarrow> u32 list) \<Rightarrow> u32 \<Rightarrow> u32 \<Rightarrow> u8 \<Rightarrow> u32 \<Rightarrow> u32 \<Rightarrow> instruction_sequence option \<Rightarrow> host \<Rightarrow>
     (u32 \<times> u32 \<times> instruction_sequence option \<times> host) option" where
  "read_group rx i group_size pattern row bank iseq h =
     (if i < group_size
      then (case readAndCompareRow rx row bank pattern iseq h of
              None \<Rightarrow> None
            | Some (iseq, h) \<Rightarrow>
                (let (row, bank) = next_row row bank in
                 if bank = 8 then Some (row, bank, iseq, h)
                 else read_group rx (i + 1) group_size pattern row bank iseq h))
      else Some (row, bank, iseq, h))"
  by pat_completeness auto
termination
  by (relation "measure (\<lambda>(rx, i, g, p, r, b, s, h). unat (g - i))") (auto intro: index_step)

declare write_group.simps [simp del] read_group.simps [simp del]

text \<open>
  The outer loop runs until \<open>dimm_done\<close>; for a group size of 0 it would run for ever, so it is a
  partial function.  The busy wait between the last write and the first read is one event.
\<close>

partial_function (option) retention_loop ::
  "(nat \<Rightarrow> u32 list) \<Rightarrow> nat \<Rightarrow> u32 \<Rightarrow> u8 \<Rightarrow> u32 \<times> u32 \<Rightarrow> u32 \<times> u32 \<Rightarrow>
     instruction_sequence option \<Rightarrow> host \<Rightarrow> (instruction_sequence option \<times> host) option" where
  "retention_loop rx retention group_size pattern wpos rpos iseq h = do {
     (iseq, h) \<leftarrow> turnBus BUS_WRITE iseq h;
     (dimm_done, wrow, wbank, iseq, h) \<leftarrow>
       write_group 0 group_size pattern (fst wpos) (snd wpos) iseq h;
     (iseq, h) \<leftarrow> turnBus BUS_READ iseq h;
     (rrow, rbank, iseq, h) \<leftarrow>
       read_group rx 0 group_size pattern (fst rpos) (snd rpos) iseq (issue (Waited retention) h);
     (if dimm_done then Some (iseq, h)
      else retention_loop rx retention group_size pattern (wrow, wbank) (rrow, rbank) iseq h) }"

text \<open>
  \<open>group_size = ceil(retention / 5.0f)\<close>: the integer becomes a \<open>float\<close>, is divided by another one, and
  the ceiling is converted to \<open>uint\<close>.
\<close>

definition group_size_of :: "nat \<Rightarrow> u32" where
  "group_size_of retention = of_nat (single_ceil (single_div (single_of retention) 5))"

fun delete_sequence :: "instruction_sequence option \<Rightarrow> host \<Rightarrow> host" where
  "delete_sequence None h = h"
| "delete_sequence (Some s) h = h\<lparr>live := live h - 1\<rparr>"

definition testRetention :: "(nat \<Rightarrow> u32 list) \<Rightarrow> nat \<Rightarrow> host \<Rightarrow> host option" where
  "testRetention rx retention h = do {
     (iseq, h) \<leftarrow> retention_loop rx retention (group_size_of retention) 0xff (0, 0) (0, 0) None h;
     Some (delete_sequence iseq h) }"

section \<open>The programs that are sent\<close>

definition wait_instr :: "u32 \<Rightarrow> u64" where
  "wait_instr cycles = shl_or (instr_type_code WAIT) 28 (ucast cycles)"

definition row_frame :: "u32 \<Rightarrow> u32 \<Rightarrow> u64 list \<Rightarrow> u64 list" where
  "row_frame row bank body =
     [genPRE bank PRE_SINGLE, wait_instr 5, genACT bank row, wait_instr 5] @ body @
     [wait_instr 3, genPRE bank PRE_SINGLE, wait_instr 5, genEND]"

definition write_bursts :: "u32 \<Rightarrow> u8 \<Rightarrow> nat list \<Rightarrow> u64 list" where
  "write_bursts bank pattern ks =
     concat (map (\<lambda>k. [genWR bank (of_nat (8 * k)) pattern NO_AP FIXED, wait_instr 10]) ks)"

definition read_bursts :: "u32 \<Rightarrow> nat list \<Rightarrow> u64 list" where
  "read_bursts bank ks =
     concat (map (\<lambda>k. [genRD bank (of_nat (8 * k)) NO_AP FIXED, wait_instr 10]) ks)"

definition write_program :: "u32 \<Rightarrow> u32 \<Rightarrow> u8 \<Rightarrow> u64 list" where
  "write_program row bank pattern = row_frame row bank (write_bursts bank pattern [0..<128])"

definition read_program :: "u32 \<Rightarrow> u32 \<Rightarrow> u64 list" where
  "read_program row bank = row_frame row bank (read_bursts bank [0..<128])"

definition turn_program :: "busdir \<Rightarrow> u64 list" where
  "turn_program b = [genBUSDIR b, wait_instr 5, genEND]"

lemma genWAIT_const:
  "genWAIT 3 = Some (wait_instr 3)" "genWAIT 5 = Some (wait_instr 5)"
  "genWAIT 10 = Some (wait_instr 10)"
  by (simp_all add: genWAIT_def wait_instr_def)

lemma insert_wait_const:
  "insert_wait s 3 = insert_instr s (wait_instr 3)" "insert_wait s 5 = insert_instr s (wait_instr 5)"
  "insert_wait s 10 = insert_instr s (wait_instr 10)" "insert_wait s (6 + 4) = insert_instr s (wait_instr 10)"
  by (simp_all add: insert_wait_def genWAIT_const)

lemma length_bursts: "length (write_bursts bank pattern ks) = 2 * length ks"
  "length (read_bursts bank ks) = 2 * length ks"
  by (induction ks) (simp_all add: write_bursts_def read_bursts_def)

lemma bursts_Cons:
  "write_bursts bank pattern (k # ks) =
     genWR bank (of_nat (8 * k)) pattern NO_AP FIXED # wait_instr 10 # write_bursts bank pattern ks"
  "read_bursts bank (k # ks) =
     genRD bank (of_nat (8 * k)) NO_AP FIXED # wait_instr 10 # read_bursts bank ks"
  by (simp_all add: write_bursts_def read_bursts_def)

lemma bursts_Nil: "write_bursts bank pattern [] = []" "read_bursts bank [] = []"
  by (simp_all add: write_bursts_def read_bursts_def)

lemma yields_write_cols:
  "instr_buffer.holds s xs \<Longrightarrow> length xs + 2 * n < 2 ^ 30 \<Longrightarrow> j + n = 128 \<Longrightarrow>
     instr_buffer.yields (write_cols (8 * j) bank pattern s)
       (xs @ write_bursts bank pattern [j..<128])"
proof (induction n arbitrary: j s xs)
  case 0
  then show ?case
    by (simp add: write_cols.simps [of 1024] bursts_Nil instr_buffer.yields_Some)
next
  case (Suc n)
  let ?c = "genWR bank (of_nat (8 * j)) pattern NO_AP FIXED"
  let ?ys = "xs @ write_bursts bank pattern [j..<128]"
  from Suc.prems have j: "j < 128" by simp
  then have r: "[j..<128] = j # [Suc j..<128]" by (rule upt_conv_Cons)
  have len: "length xs + 2 < 2 ^ 31" using Suc.prems(2) by simp
  have step: "instr_buffer.yields (write_cols (8 * j + 8) bank pattern s2) ?ys"
    if "instr_buffer.holds s2 ((xs @ [?c]) @ [wait_instr 10])" for s2
    using Suc.IH [OF that, of "Suc j"] Suc.prems(2,3) by (simp add: r bursts_Cons add.commute)
  have "instr_buffer.yields (do { s \<leftarrow> insert_instr s ?c; s \<leftarrow> insert_instr s (wait_instr 10);
      write_cols (8 * j + 8) bank pattern s }) ?ys"
    by (rule instr_buffer.yields_step [OF Suc.prems(1)], use len in simp,
        erule instr_buffer.yields_step, use len in simp, erule step)
  then show ?case using j by (simp add: write_cols.simps [of "8 * j"] insert_wait_const)
qed

lemma yields_read_cols:
  "instr_buffer.holds s xs \<Longrightarrow> length xs + 2 * n < 2 ^ 30 \<Longrightarrow> j + n = 128 \<Longrightarrow>
     instr_buffer.yields (read_cols (8 * j) bank s)
       (xs @ read_bursts bank [j..<128])"
proof (induction n arbitrary: j s xs)
  case 0
  then show ?case
    by (simp add: read_cols.simps [of 1024] bursts_Nil instr_buffer.yields_Some)
next
  case (Suc n)
  let ?c = "genRD bank (of_nat (8 * j)) NO_AP FIXED"
  let ?ys = "xs @ read_bursts bank [j..<128]"
  from Suc.prems have j: "j < 128" by simp
  then have r: "[j..<128] = j # [Suc j..<128]" by (rule upt_conv_Cons)
  have len: "length xs + 2 < 2 ^ 31" using Suc.prems(2) by simp
  have step: "instr_buffer.yields (read_cols (8 * j + 8) bank s2) ?ys"
    if "instr_buffer.holds s2 ((xs @ [?c]) @ [wait_instr 10])" for s2
    using Suc.IH [OF that, of "Suc j"] Suc.prems(2,3) by (simp add: r bursts_Cons add.commute)
  have "instr_buffer.yields (do { s \<leftarrow> insert_instr s ?c; s \<leftarrow> insert_instr s (wait_instr 10);
      read_cols (8 * j + 8) bank s }) ?ys"
    by (rule instr_buffer.yields_step [OF Suc.prems(1)], use len in simp,
        erule instr_buffer.yields_step, use len in simp, erule step)
  then show ?case using j by (simp add: read_cols.simps [of "8 * j"] insert_wait_const)
qed

lemma yields_build:
  assumes "instr_buffer.holds s []"
  shows "instr_buffer.yields (build_write_row row bank pattern s) (write_program row bank pattern)"
    "instr_buffer.yields (build_read_row row bank s) (read_program row bank)"
    "instr_buffer.yields (build_turn_bus b s) (turn_program b)"
proof -
  have w: "instr_buffer.yields (write_cols 0 bank pattern s) (xs @ write_bursts bank pattern [0..<128])"
    and r: "instr_buffer.yields (read_cols 0 bank s) (xs @ read_bursts bank [0..<128])"
    if "instr_buffer.holds s xs" "length xs < 2 ^ 29" for s xs
    using yields_write_cols [OF that(1), of 128 0 bank pattern]
      yields_read_cols [OF that(1), of 128 0 bank] that(2) by simp_all
  note step = instr_buffer.yields_step and last = instr_buffer.yields_last
    and bind = instr_buffer.yields_bind
  show "instr_buffer.yields (build_write_row row bank pattern s) (write_program row bank pattern)"
    unfolding build_write_row_def insert_wait_const write_program_def row_frame_def
    by (rule step [OF assms], simp, (erule step, simp)+, rule bind, erule w, simp,
        (erule step, simp add: length_bursts)+, erule last)
       (simp_all add: length_bursts)
  show "instr_buffer.yields (build_read_row row bank s) (read_program row bank)"
    unfolding build_read_row_def insert_wait_const read_program_def row_frame_def
    by (rule step [OF assms], simp, (erule step, simp)+, rule bind, erule r, simp,
        (erule step, simp add: length_bursts)+, erule last)
       (simp_all add: length_bursts)
  show "instr_buffer.yields (build_turn_bus b s) (turn_program b)"
    unfolding build_turn_bus_def insert_wait_const turn_program_def
    by (rule step [OF assms], simp, (erule step, simp)+, erule last) simp_all
qed

section \<open>Effects of the operations\<close>

definition ok_iseq :: "instruction_sequence option \<Rightarrow> bool" where
  "ok_iseq iseq = pred_option seq_inv iseq"

definition send_program :: "u64 list \<Rightarrow> fpga_call" where
  "send_program p = FpgaSend 0 (memory_words p) 0 True 0"

lemma reuse_holds:
  "ok_iseq iseq \<Longrightarrow> instr_buffer.holds (fst (reuse_sequence iseq h)) []"
  using reset_inv new_sequence_inv [of 256]
  by (cases iseq) (auto simp: ok_iseq_def instr_buffer.holds_def)

lemma yields_execute:
  assumes "instr_buffer.yields m p" and "length p < 2 ^ 31"
  obtains s where "m = Some s" "seq_inv s" "execute s = Some (send_program p)"
proof -
  from assms(1) obtain s where s: "m = Some s" "seq_inv s" "seq_list s = p"
    by (rule instr_buffer.yieldsE)
  then have "execute s = Some (send_program p)"
    using execute_ok [OF s(2)] length_seq_list [OF s(2)] assms(2) by (simp add: send_program_def)
  with s that show thesis by blast
qed

lemma length_programs:
  "length (write_program row bank pattern) = 264" "length (read_program row bank) = 264"
  "length (turn_program b) = 3"
  by (simp_all add: write_program_def read_program_def turn_program_def row_frame_def length_bursts)

lemma program_small:
  "length (write_program row bank pattern) < 2 ^ 31" "length (read_program row bank) < 2 ^ 31"
  "length (turn_program b) < 2 ^ 31"
  by (simp_all add: length_programs)

lemma writeRow_effect:
  assumes "ok_iseq iseq"
  obtains s where "seq_inv s"
    "writeRow row bank pattern iseq h =
       Some (Some s, issue (send_program (write_program row bank pattern)) (snd (reuse_sequence iseq h)))"
proof -
  obtain s where "build_write_row row bank pattern (fst (reuse_sequence iseq h)) = Some s" "seq_inv s"
    "execute s = Some (send_program (write_program row bank pattern))"
    using yields_execute [OF yields_build(1) [OF reuse_holds [OF assms]] program_small(1)]
    by blast
  with that show thesis by (simp add: writeRow_def split_def)
qed

lemma turnBus_effect:
  assumes "ok_iseq iseq"
  obtains s where "seq_inv s"
    "turnBus b iseq h =
       Some (map_option (\<lambda>_. s) iseq, issue (send_program (turn_program b)) (snd (reuse_sequence iseq h)))"
proof -
  obtain s where "build_turn_bus b (fst (reuse_sequence iseq h)) = Some s" "seq_inv s"
    "execute s = Some (send_program (turn_program b))"
    using yields_execute [OF yields_build(3) [OF reuse_holds [OF assms]] program_small(3)]
    by blast
  with that show thesis by (simp add: turnBus_def split_def)
qed

definition row_reports :: "(nat \<Rightarrow> u32 list) \<Rightarrow> nat \<Rightarrow> u32 \<Rightarrow> u32 \<Rightarrow> u8 \<Rightarrow> nat list \<Rightarrow> report list" where
  "row_reports rx base row bank pattern ks =
     concat (map (\<lambda>k. compare_burst (8 * k) row bank pattern (rx (base + k))) ks)"

lemma recv_cols_effect:
  "j + n = 128 \<Longrightarrow> recvs h = base + j \<Longrightarrow>
     recv_cols rx (8 * j) row bank pattern h =
       h\<lparr>calls := calls h @ replicate n (FpgaRecv 0 16 0), recvs := base + 128,
         reports := reports h @ row_reports rx base row bank pattern [j..<128]\<rparr>"
proof (induction n arbitrary: j h)
  case 0
  then show ?case by (simp add: recv_cols.simps [of rx 1024] row_reports_def)
next
  case (Suc n)
  from Suc.prems have j: "j < 128" by simp
  then have r: "[j..<128] = j # [Suc j..<128]" by (rule upt_conv_Cons)
  let ?h = "(issue (FpgaRecv 0 16 0) h)\<lparr>recvs := Suc (recvs h),
      reports := reports h @ compare_burst (8 * j) row bank pattern (rx (recvs h))\<rparr>"
  have "recv_cols rx (8 * j) row bank pattern h = recv_cols rx (8 * Suc j) row bank pattern ?h"
    using j by (simp add: recv_cols.simps [of rx "8 * j"] issue_def Let_def add.commute)
  also have "\<dots> = ?h\<lparr>calls := calls ?h @ replicate n (FpgaRecv 0 16 0), recvs := base + 128,
         reports := reports ?h @ row_reports rx base row bank pattern [Suc j..<128]\<rparr>"
    using Suc.prems by (intro Suc.IH) simp_all
  finally show ?case
    using Suc.prems(2) by (simp add: issue_def r row_reports_def)
qed

definition read_calls :: "u32 \<Rightarrow> u32 \<Rightarrow> fpga_call list" where
  "read_calls row bank = send_program (read_program row bank) # replicate 128 (FpgaRecv 0 16 0)"

lemma readAndCompareRow_effect:
  assumes "ok_iseq iseq"
  obtains s where "seq_inv s"
    "readAndCompareRow rx row bank pattern iseq h =
       Some (Some s, (snd (reuse_sequence iseq h))
         \<lparr>calls := calls h @ read_calls row bank, recvs := recvs h + 128,
          reports := reports h @ row_reports rx (recvs h) row bank pattern [0..<128]\<rparr>)"
proof -
  obtain s where s: "build_read_row row bank (fst (reuse_sequence iseq h)) = Some s" "seq_inv s"
    "execute s = Some (send_program (read_program row bank))"
    using yields_execute [OF yields_build(2) [OF reuse_holds [OF assms]] program_small(2)]
    by blast
  have r: "recvs (snd (reuse_sequence iseq h)) = recvs h" "calls (snd (reuse_sequence iseq h)) = calls h"
    "reports (snd (reuse_sequence iseq h)) = reports h"
    by (cases iseq; simp)+
  have "recv_cols rx (8 * 0) row bank pattern
      (issue (send_program (read_program row bank)) (snd (reuse_sequence iseq h))) =
    (snd (reuse_sequence iseq h))
         \<lparr>calls := calls h @ read_calls row bank, recvs := recvs h + 128,
          reports := reports h @ row_reports rx (recvs h) row bank pattern [0..<128]\<rparr>"
    by (subst recv_cols_effect [where n = 128 and base = "recvs h"])
       (simp_all add: issue_def r read_calls_def)
  with s that show thesis by (simp add: readAndCompareRow_def split_def)
qed

section \<open>Walking over the module\<close>

text \<open>Row \<open>p\<close> of the module, counted through all banks.\<close>

definition all_rows :: nat where "all_rows = 8 * 32768"

definition row_of :: "nat \<Rightarrow> u32" where "row_of p = of_nat (p mod 32768)"

definition bank_of :: "nat \<Rightarrow> u32" where "bank_of p = of_nat (p div 32768)"

lemma next_row_pos:
  assumes "p < all_rows"
  shows "next_row (row_of p) (bank_of p) = (row_of (Suc p), bank_of (Suc p))"
    "bank_of (Suc p) = 8 \<longleftrightarrow> Suc p = all_rows"
proof -
  have lt: "p mod 32768 < 32768" by simp
  have "row_of p + 1 = 32768 \<longleftrightarrow> Suc (p mod 32768) = 32768"
  proof -
    have "unat (row_of p + 1) = Suc (p mod 32768)"
      using lt by (simp add: row_of_def unat_suc_word unat_of_nat)
    then show ?thesis by (simp add: word_unat_eq_iff)
  qed
  moreover have "Suc p mod 32768 = 0 \<and> Suc p div 32768 = Suc (p div 32768)"
    if "Suc (p mod 32768) = 32768" using that by (simp add: mod_Suc div_Suc)
  moreover have "Suc p mod 32768 = Suc (p mod 32768) \<and> Suc p div 32768 = p div 32768"
    if "Suc (p mod 32768) \<noteq> 32768" using that by (simp add: mod_Suc div_Suc)
  ultimately show "next_row (row_of p) (bank_of p) = (row_of (Suc p), bank_of (Suc p))"
    by (cases "Suc (p mod 32768) = 32768")
       (auto simp: next_row_def Let_def row_of_def bank_of_def add.commute)
  have "unat (bank_of (Suc p)) = Suc p div 32768"
  proof -
    have "Suc p div 32768 < 2 ^ 32" using assms by (simp add: all_rows_def)
    then show ?thesis by (simp add: bank_of_def unat_of_nat)
  qed
  then have "bank_of (Suc p) = 8 \<longleftrightarrow> Suc p div 32768 = 8" by (simp add: word_unat_eq_iff)
  also have "\<dots> \<longleftrightarrow> Suc p = all_rows"
  proof (cases "Suc p = all_rows")
    case False
    then have "Suc p < 8 * 32768" using assms by (simp add: all_rows_def)
    then have "Suc p div 32768 < 8" by (rule less_mult_imp_div_less)
    with False show ?thesis by simp
  qed (simp add: all_rows_def)
  finally show "bank_of (Suc p) = 8 \<longleftrightarrow> Suc p = all_rows" .
qed

lemma word_index_step:
  "unat i + Suc n = unat (g :: u32) \<Longrightarrow> i < g \<and> unat (i + 1) + n = unat g"
proof -
  assume a: "unat i + Suc n = unat g"
  then have "Suc (unat i) < 2 ^ 32 \<or> Suc (unat i) = unat g" using unat_lt32 [of g] by linarith
  then have "Suc (unat i) < 2 ^ 32" using unat_lt32 [of g] by auto
  then have "unat (i + 1) = Suc (unat i)" by (simp add: unat_suc_word)
  with a show ?thesis by (simp add: word_less_nat_alt)
qed

definition write_calls :: "u8 \<Rightarrow> nat list \<Rightarrow> fpga_call list" where
  "write_calls pattern ps =
     map (\<lambda>p. send_program (write_program (row_of p) (bank_of p) pattern)) ps"

definition alloc_host :: "instruction_sequence option \<Rightarrow> host \<Rightarrow> nat" where
  "alloc_host iseq h = live (snd (reuse_sequence iseq h))"

lemma reuse_frame [frame_simps]:
  "calls (snd (reuse_sequence iseq h)) = calls h" "reports (snd (reuse_sequence iseq h)) = reports h"
  "recvs (snd (reuse_sequence iseq h)) = recvs h"
  by (cases iseq; simp)+

lemma reuse_Some [simp]: "snd (reuse_sequence (Some s) h) = h"
  by simp

lemma write_group_some:
  "unat i + n = unat g \<Longrightarrow> p < all_rows \<Longrightarrow> seq_inv s \<Longrightarrow>
     \<exists>s'. seq_inv s' \<and> write_group i g pattern (row_of p) (bank_of p) (Some s) h =
       Some (all_rows \<le> p + n, row_of (min (p + n) all_rows), bank_of (min (p + n) all_rows), Some s',
         h\<lparr>calls := calls h @ write_calls pattern [p..<min (p + n) all_rows]\<rparr>)"
proof (induction n arbitrary: i p s h)
  case 0
  then have "i = g" by (simp add: word_unat_eq_iff)
  then show ?case using 0
    by (simp add: write_group.simps [of g] write_calls_def min_absorb1)
next
  case (Suc n)
  note step = word_index_step [OF Suc.prems(1)]
  have "ok_iseq (Some s)" using Suc.prems(3) by (simp add: ok_iseq_def)
  then obtain s1 where s1: "seq_inv s1" "writeRow (row_of p) (bank_of p) pattern (Some s) h =
       Some (Some s1, issue (send_program (write_program (row_of p) (bank_of p) pattern)) h)"
    by (rule writeRow_effect [of _ "row_of p" "bank_of p" pattern h]) simp
  have up: "[p..<min (p + Suc n) all_rows] = p # [Suc p..<min (p + Suc n) all_rows]"
    using Suc.prems(2) by (intro upt_conv_Cons) simp
  show ?case
  proof (cases "Suc p = all_rows")
    case True
    have m: "min (p + Suc n) all_rows = Suc p" using True by simp
    have "write_group i g pattern (row_of p) (bank_of p) (Some s) h =
       Some (True, row_of (Suc p), bank_of (Suc p), Some s1,
         issue (send_program (write_program (row_of p) (bank_of p) pattern)) h)"
      using step s1(2) next_row_pos [OF Suc.prems(2)] True by (simp add: write_group.simps [of i])
    moreover have "[p..<all_rows] = [p]" by (simp add: True [symmetric])
    ultimately show ?thesis unfolding m using s1(1) True by (simp add: issue_def write_calls_def)
  next
    case False
    then have p': "Suc p < all_rows" using Suc.prems(2) by simp
    have "write_group i g pattern (row_of p) (bank_of p) (Some s) h =
       write_group (i + 1) g pattern (row_of (Suc p)) (bank_of (Suc p)) (Some s1)
         (issue (send_program (write_program (row_of p) (bank_of p) pattern)) h)"
      using step s1(2) next_row_pos [OF Suc.prems(2)] False by (simp add: write_group.simps [of i])
    with Suc.IH [OF conjunct2 [OF step] p' s1(1),
        of "issue (send_program (write_program (row_of p) (bank_of p) pattern)) h"]
    show ?thesis using up by (simp add: issue_def write_calls_def)
  qed
qed

text \<open>The first group starts without a sequence; \<open>writeRow\<close> creates the one that is then kept.\<close>

lemma write_group_first:
  assumes "0 < unat g"
  shows "\<exists>s'. seq_inv s' \<and> write_group 0 g pattern (row_of 0) (bank_of 0) None h =
       Some (all_rows \<le> unat g, row_of (min (unat g) all_rows), bank_of (min (unat g) all_rows), Some s',
         h\<lparr>calls := calls h @ write_calls pattern [0..<min (unat g) all_rows], live := Suc (live h)\<rparr>)"
proof -
  let ?h = "h\<lparr>live := Suc (live h)\<rparr>"
  have "reuse_sequence (Some (new_sequence 256)) ?h = reuse_sequence None h"
    by (simp add: new_sequence_def)
  then have "writeRow row bank pattern (Some (new_sequence 256)) ?h = writeRow row bank pattern None h"
    for row bank by (simp only: writeRow_def)
  moreover have "0 < g" using assms by (simp add: word_less_nat_alt)
  ultimately have "write_group 0 g pattern (row_of 0) (bank_of 0) None h =
      write_group 0 g pattern (row_of 0) (bank_of 0) (Some (new_sequence 256)) ?h"
    by (simp add: write_group.simps [of 0])
  moreover obtain s' where "seq_inv s'" "write_group 0 g pattern (row_of 0) (bank_of 0)
      (Some (new_sequence 256)) ?h = Some (all_rows \<le> unat g, row_of (min (unat g) all_rows),
        bank_of (min (unat g) all_rows), Some s',
        ?h\<lparr>calls := calls ?h @ write_calls pattern [0..<min (unat g) all_rows]\<rparr>)"
    using write_group_some [of 0 "unat g" g 0 "new_sequence 256" pattern ?h] new_sequence_inv [of 256]
    by (auto simp: all_rows_def)
  moreover have "h\<lparr>live := a, calls := c\<rparr> = h\<lparr>calls := c, live := a\<rparr>" for a c by simp
  ultimately show ?thesis by auto
qed

definition group_read_calls :: "nat list \<Rightarrow> fpga_call list" where
  "group_read_calls ps = concat (map (\<lambda>p. read_calls (row_of p) (bank_of p)) ps)"

definition group_reports :: "(nat \<Rightarrow> u32 list) \<Rightarrow> nat \<Rightarrow> u8 \<Rightarrow> nat list \<Rightarrow> report list" where
  "group_reports rx base pattern ps =
     concat (map (\<lambda>p. row_reports rx (base + 128 * p) (row_of p) (bank_of p) pattern [0..<128]) ps)"

lemma group_Cons:
  "group_read_calls (p # ps) = read_calls (row_of p) (bank_of p) @ group_read_calls ps"
  "group_reports rx base pattern (p # ps) =
     row_reports rx (base + 128 * p) (row_of p) (bank_of p) pattern [0..<128] @
     group_reports rx base pattern ps"
  "group_read_calls [] = []" "group_reports rx base pattern [] = []"
  by (simp_all add: group_read_calls_def group_reports_def)

lemma read_group_some:
  "unat i + n = unat g \<Longrightarrow> p < all_rows \<Longrightarrow> seq_inv s \<Longrightarrow> recvs h = base + 128 * p \<Longrightarrow>
     \<exists>s'. seq_inv s' \<and> read_group rx i g pattern (row_of p) (bank_of p) (Some s) h =
       Some (row_of (min (p + n) all_rows), bank_of (min (p + n) all_rows), Some s',
         h\<lparr>calls := calls h @ group_read_calls [p..<min (p + n) all_rows],
           recvs := base + 128 * min (p + n) all_rows,
           reports := reports h @ group_reports rx base pattern [p..<min (p + n) all_rows]\<rparr>)"
proof (induction n arbitrary: i p s h)
  case 0
  then have "i = g" by (simp add: word_unat_eq_iff)
  then show ?case using 0
    by (simp add: read_group.simps [of _ g] group_Cons min_absorb1)
next
  case (Suc n)
  note step = word_index_step [OF Suc.prems(1)]
  have "ok_iseq (Some s)" using Suc.prems(3) by (simp add: ok_iseq_def)
  define h1 where "h1 = h\<lparr>calls := calls h @ read_calls (row_of p) (bank_of p),
         recvs := base + 128 * Suc p,
         reports := reports h @ row_reports rx (base + 128 * p) (row_of p) (bank_of p) pattern [0..<128]\<rparr>"
  obtain s1 where s1: "seq_inv s1"
    "readAndCompareRow rx (row_of p) (bank_of p) pattern (Some s) h = Some (Some s1, h1)"
  proof (rule readAndCompareRow_effect [OF \<open>ok_iseq (Some s)\<close>, of rx "row_of p" "bank_of p" pattern h])
    fix s1 assume inv: "seq_inv s1" and eq: "readAndCompareRow rx (row_of p) (bank_of p) pattern (Some s) h =
      Some (Some s1, (snd (reuse_sequence (Some s) h))
         \<lparr>calls := calls h @ read_calls (row_of p) (bank_of p), recvs := recvs h + 128,
          reports := reports h @ row_reports rx (recvs h) (row_of p) (bank_of p) pattern [0..<128]\<rparr>)"
    show thesis by (rule that [OF inv]) (simp add: eq Suc.prems(4) h1_def)
  qed
  have up: "[p..<min (p + Suc n) all_rows] = p # [Suc p..<min (p + Suc n) all_rows]"
    using Suc.prems(2) by (intro upt_conv_Cons) simp
  show ?case
  proof (cases "Suc p = all_rows")
    case True
    have m: "min (p + Suc n) all_rows = Suc p" using True by simp
    have "read_group rx i g pattern (row_of p) (bank_of p) (Some s) h =
       Some (row_of (Suc p), bank_of (Suc p), Some s1, h1)"
      using step s1(2) next_row_pos [OF Suc.prems(2)] True by (simp add: read_group.simps [of _ i])
    moreover have "[p..<all_rows] = [p]" by (simp add: True [symmetric])
    ultimately show ?thesis unfolding m using s1(1) True by (simp add: h1_def group_Cons)
  next
    case False
    then have p': "Suc p < all_rows" using Suc.prems(2) by simp
    have "read_group rx i g pattern (row_of p) (bank_of p) (Some s) h =
       read_group rx (i + 1) g pattern (row_of (Suc p)) (bank_of (Suc p)) (Some s1) h1"
      using step s1(2) next_row_pos [OF Suc.prems(2)] False by (simp add: read_group.simps [of _ i])
    moreover have "recvs h1 = base + 128 * Suc p" by (simp add: h1_def)
    ultimately show ?thesis using Suc.IH [OF conjunct2 [OF step] p' s1(1), of h1] up
      by (simp add: h1_def group_Cons)
  qed
qed

section \<open>The whole test\<close>

definition read_phase :: "nat \<Rightarrow> nat list \<Rightarrow> fpga_call list" where
  "read_phase retention ps =
     [send_program (turn_program BUS_READ), Waited retention] @ group_read_calls ps"

definition group_calls :: "nat \<Rightarrow> u8 \<Rightarrow> nat list \<Rightarrow> fpga_call list" where
  "group_calls retention pattern ps =
     send_program (turn_program BUS_WRITE) # write_calls pattern ps @ read_phase retention ps"

definition group_rows :: "nat \<Rightarrow> nat \<Rightarrow> nat list" where
  "group_rows g k = [k * g..<min (k * g + g) all_rows]"

lemma retention_step:
  assumes t: "turnBus BUS_WRITE iseq h = Some (iseq1, h1)"
    and w: "write_group 0 g pattern (row_of p) (bank_of p) iseq1 h1 =
      Some (all_rows \<le> p + unat g, row_of q, bank_of q, Some s, h2)"
    and inv: "seq_inv s" and rc: "recvs h2 = base + 128 * p" and p: "p < all_rows"
    and q: "q = min (p + unat g) all_rows"
  shows "\<exists>s'. seq_inv s' \<and>
    retention_loop rx retention g pattern (row_of p, bank_of p) (row_of p, bank_of p) iseq h =
      (let h' = h2\<lparr>calls := calls h2 @ read_phase retention [p..<q], recvs := base + 128 * q,
                   reports := reports h2 @ group_reports rx base pattern [p..<q]\<rparr>
       in if all_rows \<le> p + unat g then Some (Some s', h')
          else retention_loop rx retention g pattern (row_of q, bank_of q) (row_of q, bank_of q)
                 (Some s') h')"
proof -
  have ok: "ok_iseq (Some s)" using inv by (simp add: ok_iseq_def)
  obtain s1 where s1: "seq_inv s1"
    "turnBus BUS_READ (Some s) h2 = Some (Some s1, issue (send_program (turn_program BUS_READ)) h2)"
    using turnBus_effect [OF ok, of BUS_READ h2] by auto
  let ?h3 = "issue (Waited retention) (issue (send_program (turn_program BUS_READ)) h2)"
  have r3: "recvs ?h3 = base + 128 * p" using rc by (simp add: issue_def)
  obtain s2 where s2: "seq_inv s2"
    "read_group rx 0 g pattern (row_of p) (bank_of p) (Some s1) ?h3 =
       Some (row_of q, bank_of q, Some s2,
         ?h3\<lparr>calls := calls ?h3 @ group_read_calls [p..<q], recvs := base + 128 * q,
           reports := reports ?h3 @ group_reports rx base pattern [p..<q]\<rparr>)"
    using read_group_some [of 0 "unat g" g p s1 ?h3 base rx pattern] p s1(1) r3 q by auto
  have r: "read_group rx 0 g pattern (row_of p) (bank_of p) (Some s1)
      (h2\<lparr>calls := calls h2 @ [send_program (turn_program BUS_READ), Waited retention]\<rparr>) =
    Some (row_of q, bank_of q, Some s2,
      h2\<lparr>calls := calls h2 @ read_phase retention [p..<q], recvs := base + 128 * q,
         reports := reports h2 @ group_reports rx base pattern [p..<q]\<rparr>)"
    using s2(2) by (simp add: issue_def read_phase_def)
  show ?thesis
    by (rule exI [of _ s2])
       (simp add: s2(1) r Let_def retention_loop.simps [of rx retention g pattern "(row_of p, bank_of p)"] t w s1(2)
         issue_def)
qed

lemma group_count:
  assumes "0 < (g :: nat)" "k + Suc n = (N + g - 1) div g" "0 < N"
  shows "k * g < N" "n = 0 \<longleftrightarrow> N \<le> k * g + g"
proof -
  have "k < (N + g - 1) div g" using assms(2) by simp
  then have "Suc k * g \<le> N + g - 1" using assms(1) by (simp add: less_eq_div_iff_mult_less_eq Suc_le_eq [symmetric])
  then show "k * g < N" using assms(1,3) by simp
  have "n = 0 \<longleftrightarrow> (N + g - 1) div g \<le> Suc k" using assms(2) by linarith
  also have "\<dots> \<longleftrightarrow> N + g - 1 < Suc (Suc k) * g"
    using assms(1) by (simp add: div_less_iff_less_mult less_Suc_eq_le [symmetric] del: mult_Suc)
  also have "\<dots> \<longleftrightarrow> N \<le> k * g + g" using assms(1,3) by auto
  finally show "n = 0 \<longleftrightarrow> N \<le> k * g + g" .
qed

lemma group_rows_split:
  assumes "k * g < all_rows"
  shows "[k * g..<all_rows] = group_rows g k @ [min (k * g + g) all_rows..<all_rows]"
  using upt_add_eq_append [of "k * g" "min (k * g + g) all_rows" "all_rows - min (k * g + g) all_rows"]
    assms by (simp add: group_rows_def)

lemma group_append:
  "group_reports rx base pattern (ps @ qs) =
     group_reports rx base pattern ps @ group_reports rx base pattern qs"
  by (simp add: group_reports_def)

lemma retention_loop_some:
  assumes g: "0 < unat g"
  shows "k + Suc n = (all_rows + unat g - 1) div unat g \<Longrightarrow> seq_inv s \<Longrightarrow>
    recvs h = base + 128 * (k * unat g) \<Longrightarrow>
    \<exists>s'. retention_loop rx retention g pattern (row_of (k * unat g), bank_of (k * unat g))
        (row_of (k * unat g), bank_of (k * unat g)) (Some s) h =
      Some (Some s', h\<lparr>calls := calls h @
              concat (map (\<lambda>k. group_calls retention pattern (group_rows (unat g) k)) [k..<k + Suc n]),
          recvs := base + 128 * all_rows,
          reports := reports h @ group_reports rx base pattern [k * unat g..<all_rows]\<rparr>)"
proof (induction n arbitrary: k s h)
  let ?G = "unat g"
  have N: "0 < all_rows" by (simp add: all_rows_def)
  {
    fix k n s and h :: host
    assume kn: "k + Suc n = (all_rows + ?G - 1) div ?G" and inv: "seq_inv s"
      and rc: "recvs h = base + 128 * (k * ?G)"
    let ?p = "k * ?G" and ?q = "min (k * ?G + ?G) all_rows"
    note cnt = group_count [OF g kn N]
    have ok: "ok_iseq (Some s)" using inv by (simp add: ok_iseq_def)
    let ?h1 = "issue (send_program (turn_program BUS_WRITE)) h"
    obtain s1 where s1: "seq_inv s1" "turnBus BUS_WRITE (Some s) h = Some (Some s1, ?h1)"
      using turnBus_effect [OF ok, of BUS_WRITE h] by auto
    obtain s2 where s2: "seq_inv s2"
      "write_group 0 g pattern (row_of ?p) (bank_of ?p) (Some s1) ?h1 =
       Some (all_rows \<le> ?p + ?G, row_of ?q, bank_of ?q, Some s2,
         ?h1\<lparr>calls := calls ?h1 @ write_calls pattern [?p..<?q]\<rparr>)"
      using write_group_some [of 0 ?G g ?p s1 pattern ?h1] cnt(1) s1(1) by auto
    let ?h2 = "?h1\<lparr>calls := calls ?h1 @ write_calls pattern [?p..<?q]\<rparr>"
    have "recvs ?h2 = base + 128 * ?p" using rc by (simp add: issue_def)
    from retention_step [OF s1(2) s2(2,1) this cnt(1) refl, of rx retention]
    have "\<exists>s'. seq_inv s' \<and>
      retention_loop rx retention g pattern (row_of ?p, bank_of ?p) (row_of ?p, bank_of ?p) (Some s) h =
      (let h' = h\<lparr>calls := calls h @ group_calls retention pattern (group_rows ?G k),
                  recvs := base + 128 * ?q,
                  reports := reports h @ group_reports rx base pattern (group_rows ?G k)\<rparr>
       in if n = 0 then Some (Some s', h')
          else retention_loop rx retention g pattern (row_of ?q, bank_of ?q) (row_of ?q, bank_of ?q)
                 (Some s') h')"
      by (simp add: cnt(2) group_calls_def group_rows_def issue_def)
  }
  note iteration = this
  {
    case 0
    have "?G + k * ?G \<ge> all_rows" using group_count [OF g 0(1) N] by simp
    then have q: "min (k * ?G + ?G) all_rows = all_rows" by simp
    have "group_rows ?G k = [k * ?G..<all_rows]" by (simp add: group_rows_def q)
    then show ?case using iteration [OF 0] by (auto simp: q Let_def)
  next
    case (Suc n)
    have c: "k * ?G < all_rows" "k * ?G + ?G < all_rows"
      using group_count [OF g Suc.prems(1) N] by auto
    then have q: "min (k * ?G + ?G) all_rows = Suc k * ?G" by simp
    let ?h' = "h\<lparr>calls := calls h @ group_calls retention pattern (group_rows ?G k),
                  recvs := base + 128 * (Suc k * ?G),
                  reports := reports h @ group_reports rx base pattern (group_rows ?G k)\<rparr>"
    obtain s1 where s1: "seq_inv s1"
      "retention_loop rx retention g pattern (row_of (k * ?G), bank_of (k * ?G))
         (row_of (k * ?G), bank_of (k * ?G)) (Some s) h =
       retention_loop rx retention g pattern (row_of (Suc k * ?G), bank_of (Suc k * ?G))
         (row_of (Suc k * ?G), bank_of (Suc k * ?G)) (Some s1) ?h'"
      using iteration [OF Suc.prems] unfolding q Let_def by auto
    have "Suc k + Suc n = (all_rows + ?G - 1) div ?G" using Suc.prems(1) by simp
    from Suc.IH [OF this s1(1), of ?h'] obtain s2 where
      "retention_loop rx retention g pattern (row_of (Suc k * ?G), bank_of (Suc k * ?G))
        (row_of (Suc k * ?G), bank_of (Suc k * ?G)) (Some s1) ?h' =
      Some (Some s2, ?h'\<lparr>calls := calls ?h' @
              concat (map (\<lambda>k. group_calls retention pattern (group_rows ?G k)) [Suc k..<Suc k + Suc n]),
          recvs := base + 128 * all_rows,
          reports := reports ?h' @ group_reports rx base pattern [Suc k * ?G..<all_rows]\<rparr>)"
      by auto
    moreover have "[k..<k + Suc (Suc n)] = k # [Suc k..<Suc k + Suc n]"
      by (subst upt_conv_Cons) simp_all
    moreover have "[k * ?G..<all_rows] = group_rows ?G k @ [Suc k * ?G..<all_rows]"
      using group_rows_split [OF c(1)] unfolding q .
    ultimately show ?case unfolding s1(2)
      by (simp add: group_append del: upt_Suc mult_Suc)
  }
qed

lemma group_rows_cover:
  assumes "0 < g"
  shows "concat (map (group_rows g) [0..<(all_rows + g - 1) div g]) = [0..<all_rows]"
proof -
  have N: "0 < all_rows" by (simp add: all_rows_def)
  have "k + n = (all_rows + g - 1) div g \<Longrightarrow>
    concat (map (group_rows g) [k..<k + n]) = [k * g..<all_rows]" for k n
  proof (induction n arbitrary: k)
    case 0
    then have "(all_rows + g - 1) div g < Suc k" by simp
    then have "all_rows + g - 1 < Suc k * g" by (simp only: div_less_iff_less_mult [OF assms])
    then have "all_rows \<le> k * g" by simp
    then show ?case by simp
  next
    case (Suc n)
    note c = group_count [OF assms Suc.prems N]
    have u: "[k..<k + Suc n] = k # [Suc k..<Suc k + n]" by (subst upt_conv_Cons) simp_all
    have "concat (map (group_rows g) [Suc k..<Suc k + n]) = [Suc k * g..<all_rows]"
      using Suc.prems by (intro Suc.IH) simp
    also have "\<dots> = [min (k * g + g) all_rows..<all_rows]" by (simp add: min_def add.commute)
    finally show ?case using group_rows_split [OF c(1)] unfolding u by (simp del: upt_Suc)
  qed
  from this [of 0 "(all_rows + g - 1) div g"] show ?thesis by simp
qed

lemma retention_loop_first:
  assumes g: "0 < unat g" and rc: "recvs h = base"
  shows "\<exists>s'. retention_loop rx retention g pattern (0, 0) (0, 0) None h =
      Some (Some s', h\<lparr>live := live h + 2,
          calls := calls h @ concat (map (\<lambda>k. group_calls retention pattern
              (group_rows (unat g) k)) [0..<(all_rows + unat g - 1) div unat g]),
          recvs := base + 128 * all_rows,
          reports := reports h @ group_reports rx base pattern [0..<all_rows]\<rparr>)"
proof -
  let ?G = "unat g"
  let ?m = "(all_rows + ?G - 1) div ?G"
  let ?q = "min ?G all_rows"
  have N: "0 < all_rows" by (simp add: all_rows_def)
  have "1 \<le> ?m" using g N by (simp add: Suc_le_eq div_greater_zero_iff)
  then obtain n where n: "0 + Suc n = ?m" by (metis add_0 le_add_diff_inverse plus_1_eq_Suc)
  note cnt = group_count [OF g n N]
  let ?h1 = "h\<lparr>calls := calls h @ [send_program (turn_program BUS_WRITE)], live := Suc (live h)\<rparr>"
  have t: "turnBus BUS_WRITE None h = Some (None, ?h1)"
  proof (rule turnBus_effect [of None BUS_WRITE h])
    show "ok_iseq None" by (simp add: ok_iseq_def)
    fix s assume "turnBus BUS_WRITE None h =
      Some (map_option (\<lambda>_. s) None, issue (send_program (turn_program BUS_WRITE)) (snd (reuse_sequence None h)))"
    then show ?thesis by (simp add: issue_def)
  qed
  let ?h2 = "?h1\<lparr>calls := calls ?h1 @ write_calls pattern [0..<?q], live := Suc (live ?h1)\<rparr>"
  obtain s where s: "seq_inv s" "write_group 0 g pattern (row_of 0) (bank_of 0) None ?h1 =
      Some (all_rows \<le> 0 + ?G, row_of ?q, bank_of ?q, Some s, ?h2)"
    using write_group_first [OF g, of pattern ?h1] by auto
  have "recvs ?h2 = base + 128 * 0" using rc by simp
  let ?h' = "h\<lparr>live := live h + 2,
      calls := calls h @ group_calls retention pattern (group_rows ?G 0), recvs := base + 128 * ?q,
      reports := reports h @ group_reports rx base pattern [0..<?q]\<rparr>"
  have q0: "?q = min (0 + ?G) all_rows" by simp
  have raw: "?h2\<lparr>calls := calls ?h2 @ read_phase retention [0..<?q], recvs := base + 128 * ?q,
      reports := reports ?h2 @ group_reports rx base pattern [0..<?q]\<rparr> = ?h'"
    by (simp add: group_calls_def group_rows_def)
  obtain s1 where s1: "seq_inv s1"
    "retention_loop rx retention g pattern (row_of 0, bank_of 0) (row_of 0, bank_of 0) None h =
      (if all_rows \<le> ?G then Some (Some s1, ?h')
       else retention_loop rx retention g pattern (row_of ?q, bank_of ?q) (row_of ?q, bank_of ?q)
              (Some s1) ?h')"
    using retention_step [OF t s(2,1) \<open>recvs ?h2 = base + 128 * 0\<close> N q0, of rx retention]
    unfolding Let_def raw by auto
  have z: "row_of 0 = 0" "bank_of 0 = 0" by (simp_all add: row_of_def bank_of_def)
  show ?thesis
  proof (cases "all_rows \<le> ?G")
    case True
    then have "n = 0" using cnt(2) by simp
    then have "[0..<?m] = [0]" using n by simp
    moreover have "?q = all_rows" using True by simp
    ultimately show ?thesis using s1(2) True z by simp
  next
    case False
    then obtain n' where n': "n = Suc n'" using cnt(2) by (cases n) auto
    then have m: "1 + Suc n' = ?m" using n by simp
    have q: "?q = 1 * ?G" using False by simp
    have "recvs ?h' = base + 128 * (1 * ?G)" using q by simp
    from retention_loop_some [OF g m s1(1) this, of rx retention pattern] obtain s2 where
      s2: "retention_loop rx retention g pattern (row_of ?G, bank_of ?G) (row_of ?G, bank_of ?G) (Some s1) ?h' =
      Some (Some s2, ?h'\<lparr>calls := calls ?h' @ concat (map (\<lambda>k. group_calls retention pattern
              (group_rows ?G k)) [1..<?m]),
          recvs := base + 128 * all_rows,
          reports := reports ?h' @ group_reports rx base pattern [?G..<all_rows]\<rparr>)"
      unfolding m by auto
    have "[0..<?m] = 0 # [1..<?m]" using m by (subst upt_conv_Cons) simp_all
    moreover have "[0..<all_rows] = [0..<?G] @ [?G..<all_rows]"
      using False upt_add_eq_append [of 0 ?G "all_rows - ?G"] by simp
    ultimately show ?thesis using s1(2) s2 False q z by (simp add: group_append)
  qed
qed

text \<open>
  The rounding of the quotient can make a group smaller only where one group is the whole module
  anyway.
\<close>

lemma group_size_cases:
  assumes "0 < retention" and "retention < 2 ^ 31"
  shows "unat (group_size_of retention) = (retention + 4) div 5 \<or>
    all_rows \<le> unat (group_size_of retention) \<and> all_rows \<le> (retention + 4) div 5"
proof (cases "retention < 5 * 2 ^ 21")
  case True
  moreover have "(retention + 4) div 5 < 2 ^ 32" using assms(2) by simp
  ultimately show ?thesis using fifth_exact assms(1) by (simp add: group_size_of_def unat_of_nat)
next
  case False
  then have "all_rows \<le> (retention + 4) div 5" by (simp add: all_rows_def less_eq_div_iff_mult_less_eq)
  then show ?thesis
    using fifth_large [of retention] False assms(2) by (simp add: group_size_of_def unat_of_nat all_rows_def)
qed

lemma one_group:
  assumes "all_rows \<le> g"
  shows "map (\<lambda>k. f (group_rows g k)) [0..<(all_rows + g - 1) div g] = [f [0..<all_rows]]"
proof -
  have "(all_rows + g - 1) div g = 1"
    by (rule div_nat_eqI) (use assms in \<open>simp_all add: all_rows_def\<close>)
  then show ?thesis using assms by (simp add: group_rows_def)
qed

lemma testRetention_some:
  assumes "0 < retention" "retention < 2 ^ 31" "g = (retention + 4) div 5"
  shows "testRetention rx retention h =
    Some (h\<lparr>live := live h + 1,
          calls := calls h @ concat (map (\<lambda>k. group_calls retention 0xff (group_rows g k))
              [0..<(all_rows + g - 1) div g]),
          recvs := recvs h + 128 * all_rows,
          reports := reports h @ group_reports rx (recvs h) 0xff [0..<all_rows]\<rparr>)"
proof -
  let ?G = "unat (group_size_of retention)"
  have "0 < g" using assms(1,3) by (simp add: div_greater_zero_iff)
  then have "0 < ?G" using group_size_cases [OF assms(1,2)] assms(3) by (auto simp: all_rows_def)
  moreover have "map (\<lambda>k. group_calls retention 0xff (group_rows ?G k)) [0..<(all_rows + ?G - 1) div ?G] =
      map (\<lambda>k. group_calls retention 0xff (group_rows g k)) [0..<(all_rows + g - 1) div g]"
    using group_size_cases [OF assms(1,2)] one_group [of _ "group_calls retention 0xff"] assms(3) by auto
  ultimately show ?thesis
    using retention_loop_first [of "group_size_of retention" h "recvs h" rx retention "0xff"]
    by (auto simp: testRetention_def)
qed

section \<open>Properties\<close>

text \<open>C1: The retention test terminates for every positive retention time and covers the module: with \<open>g = ceil(retention / 5)\<close> rows per group it turns the bus, writes the
  group, turns the bus back, waits, and reads the same rows back in the same order, group after
  group, and the groups together are each of the 8 * 32768 rows exactly once, in order.\<close>

theorem testRetention_covers:
  assumes "0 < retention" and "retention < 2 ^ 31"
  shows "\<exists>h'. testRetention rx retention h = Some h' \<and>
    (let g = (retention + 4) div 5; n = (all_rows + g - 1) div g in
       calls h' = calls h @ concat (map (\<lambda>k.
         send_program (turn_program BUS_WRITE) #
         map (\<lambda>p. send_program (write_program (row_of p) (bank_of p) 0xff)) (group_rows g k) @
         send_program (turn_program BUS_READ) # Waited retention #
         concat (map (\<lambda>p. send_program (read_program (row_of p) (bank_of p)) #
                     replicate 128 (FpgaRecv 0 16 0)) (group_rows g k))) [0..<n]) \<and>
       concat (map (group_rows g) [0..<n]) = [0..<all_rows])"
  using group_rows_cover [of "(retention + 4) div 5"] assms
  by (simp add: testRetention_some [OF assms refl] Let_def div_greater_zero_iff group_calls_def
      write_calls_def read_phase_def group_read_calls_def read_calls_def)

theorem testRetention_covers_witness:
  "\<exists>h'. testRetention (\<lambda>_. replicate 16 0xffffffff) 64 \<lparr>calls = [], reports = [], recvs = 0, live = 0\<rparr> = Some h' \<and>
     concat (map (group_rows 13) [0..<(all_rows + 13 - 1) div 13]) = [0..<all_rows]"
  using testRetention_covers [of 64 "\<lambda>_. replicate 16 0xffffffff" "\<lparr>calls = [], reports = [], recvs = 0, live = 0\<rparr>"]
  by (auto simp: Let_def)

text \<open>C2: The retention test reports exactly the bytes that differ: the bursts received are compared in
  order, row after row of the module and column after column of the row, and every byte of a burst that
  is not the pattern \<open>0xff\<close> is reported once, with its column, row and bank.\<close>

theorem testRetention_reports_exact:
  assumes "0 < retention" and "retention < 2 ^ 31"
  shows "\<exists>h'. testRetention rx retention h = Some h' \<and> recvs h' = recvs h + 128 * all_rows \<and>
    reports h' = reports h @ concat (map (\<lambda>p. concat (map (\<lambda>k.
        map (\<lambda>b. \<lparr>rep_col = 8 * k, rep_row = of_nat (p mod 32768), rep_bank = of_nat (p div 32768), rep_data = b\<rparr>)
          (filter (\<lambda>b. b \<noteq> 0xff) (take 64 (rbuf_bytes (rx (recvs h + 128 * p + k)))))) [0..<128])) [0..<all_rows])"
  by (simp add: testRetention_some [OF assms refl] group_reports_def row_reports_def compare_burst_def row_of_def bank_of_def)

text \<open>One byte of burst 3 of row 5 came back as zero.\<close>

lemma concat_single:
  "k < n \<Longrightarrow> (\<And>i. i \<noteq> k \<Longrightarrow> f i = []) \<Longrightarrow> concat (map f [0..<n]) = f k"
proof (induction n)
  case (Suc n)
  then show ?case by (cases "k = n") auto
qed simp

lemma rbuf_bytes_Cons:
  "rbuf_bytes (w # ws) = [ucast w, ucast (drop_bit 8 w), ucast (drop_bit 16 w), ucast (drop_bit 24 w)] @ rbuf_bytes ws"
  by (simp add: rbuf_bytes_def)

lemma length_rbuf_bytes: "length (rbuf_bytes ws) = 4 * length ws"
  by (induction ws) (simp_all add: rbuf_bytes_def)

lemma rbuf_bytes_ones: "filter (\<lambda>b. b \<noteq> 0xff) (rbuf_bytes (replicate n 0xffffffff)) = []"
  by (induction n) (simp_all add: rbuf_bytes_def)

definition one_wrong :: "nat \<Rightarrow> u32 list" where
  "one_wrong i = (if i = 128 * 5 + 3 then 0xff00ffff # replicate 15 0xffffffff else replicate 16 0xffffffff)"

theorem testRetention_reports_exact_witness:
  "\<exists>h'. testRetention one_wrong 64 \<lparr>calls = [], reports = [], recvs = 0, live = 0\<rparr> = Some h' \<and>
     reports h' = [\<lparr>rep_col = 24, rep_row = 5, rep_bank = 0, rep_data = 0\<rparr>]"
proof -
  define f where "f p k = map (\<lambda>b. \<lparr>rep_col = 8 * k, rep_row = of_nat (p mod 32768), rep_bank = of_nat (p div 32768), rep_data = b\<rparr>)
      (filter (\<lambda>b. b \<noteq> 0xff) (take 64 (rbuf_bytes (one_wrong (0 + 128 * p + k)))))" for p k :: nat
  have good: "filter (\<lambda>b. b \<noteq> 0xff) (take 64 (rbuf_bytes (replicate 16 0xffffffff))) = []"
    and bad: "filter (\<lambda>b. b \<noteq> 0xff) (take 64 (rbuf_bytes (0xff00ffff # replicate 15 0xffffffff))) = [0]"
    by (simp_all add: rbuf_bytes_ones length_rbuf_bytes) (simp add: rbuf_bytes_Cons rbuf_bytes_ones)
  have off: "f p k = []" if "128 * p + k \<noteq> 128 * 5 + 3" for p k
    using that good by (simp add: f_def one_wrong_def)
  have "concat (map (\<lambda>p. concat (map (f p) [0..<128])) [0..<all_rows]) = concat (map (f 5) [0..<128])"
  proof (rule concat_single)
    fix p :: nat assume "p \<noteq> 5"
    then have "f p k = []" if "k < 128" for k using that by (intro off) presburger
    then show "concat (map (f p) [0..<128]) = []" by simp
  qed (simp add: all_rows_def)
  also have "\<dots> = f 5 3" by (rule concat_single) (simp_all add: off)
  also have "\<dots> = [\<lparr>rep_col = 24, rep_row = 5, rep_bank = 0, rep_data = 0\<rparr>]"
    using bad by (simp add: f_def one_wrong_def)
  finally have w: "concat (map (\<lambda>p. concat (map (f p) [0..<128])) [0..<all_rows]) = \<dots>" .
  obtain h' where "testRetention one_wrong 64 \<lparr>calls = [], reports = [], recvs = 0, live = 0\<rparr> = Some h'"
    "reports h' = concat (map (\<lambda>p. concat (map (f p) [0..<128])) [0..<all_rows])"
    using testRetention_reports_exact [of 64 one_wrong "\<lparr>calls = [], reports = [], recvs = 0, live = 0\<rparr>"]
    by (auto simp: f_def [abs_def])
  with w show ?thesis by simp
qed

text \<open>Every run of the retention test loses one \<open>InstructionSequence\<close>: the first \<open>turnBus\<close> is
  called without one, creates its own through a pointer passed by value, and nobody can delete
  it afterwards.  \<open>setRefreshConfig\<close>, which owns its sequence, leaves none behind.\<close>

theorem testRetention_leaks_sequence:
  assumes "0 < retention" and "retention < 2 ^ 31"
  shows "map_option live (testRetention rx retention h) = Some (live h + 1) \<and>
    (\<forall>h'. setRefreshConfig trefi trfc h = Some h' \<longrightarrow> live h' = live h)"
  by (auto simp: testRetention_some [OF assms refl] setRefreshConfig_def Let_def issue_def
      split: bind_splits)

theorem testRetention_leaks_sequence_witness:
  "map_option live (testRetention (\<lambda>_. replicate 16 0xffffffff) 64 \<lparr>calls = [], reports = [], recvs = 0, live = 0\<rparr>) = Some 1"
  using testRetention_leaks_sequence [of 64 "\<lambda>_. replicate 16 0xffffffff" "\<lparr>calls = [], reports = [], recvs = 0, live = 0\<rparr>" 0 0]
  by simp

text \<open>\<open>setRefreshConfig\<close> succeeds exactly when both values fit the 28 bits of the hardware's
  registers, and then sends one program that the hardware reads as setting tRFC, setting tREFI
  and ending.\<close>

theorem setRefreshConfig_correct:
  "(if unat trefi < 2 ^ 28 \<and> unat trfc < 2 ^ 28
    then \<exists>prog h'. setRefreshConfig trefi trfc h = Some h' \<and> calls h' = calls h @ [send_program prog] \<and>
           map hw_decode prog = [SetTrfc (unat trfc), SetTrefi (unat trefi), EndIseq]
    else setRefreshConfig trefi trfc h = None)"
proof (cases "genREF_CONFIG trfc TRFC")
  case None
  then have "\<not> unat trfc < 2 ^ 28" by (auto simp: genREF_CONFIG_def word_less_nat_alt split: if_splits)
  with None show ?thesis by (simp add: setRefreshConfig_def Let_def)
next
  case (Some i)
  then have fi: "unat trfc < 2 ^ 28" by (auto simp: genREF_CONFIG_def word_less_nat_alt split: if_splits)
  have n0: "instr_buffer.holds (new_sequence 256) []"
    using new_sequence_inv [of 256] by (simp add: instr_buffer.holds_def)
  show ?thesis
  proof (cases "genREF_CONFIG trefi TREFI")
    case None
    then have "\<not> unat trefi < 2 ^ 28" by (auto simp: genREF_CONFIG_def word_less_nat_alt split: if_splits)
    with None Some show ?thesis by (simp add: setRefreshConfig_def Let_def bind_eq_None_conv)
  next
    case (Some j)
    then have fj: "unat trefi < 2 ^ 28" by (auto simp: genREF_CONFIG_def word_less_nat_alt split: if_splits)
    have y: "instr_buffer.yields (do { s \<leftarrow> insert_instr (new_sequence 256) i; s \<leftarrow> insert_instr s j;
        insert_instr s genEND }) [i, j, genEND]"
      by (rule instr_buffer.yields_step [OF n0], simp, erule instr_buffer.yields_step, simp,
          erule instr_buffer.yields_last) simp_all
    then obtain s where "(do { s \<leftarrow> insert_instr (new_sequence 256) i; s \<leftarrow> insert_instr s j;
        insert_instr s genEND }) = Some s" "execute s = Some (send_program [i, j, genEND])"
      by (rule yields_execute) simp_all
    then obtain s1 s2 where st: "insert_instr (new_sequence 256) i = Some s1" "insert_instr s1 j = Some s2"
      "insert_instr s2 genEND = Some s" "execute s = Some (send_program [i, j, genEND])"
      by (auto simp: bind_eq_Some_conv)
    have "setRefreshConfig trefi trfc h =
        Some (issue (send_program [i, j, genEND]) h)"
      using \<open>genREF_CONFIG trfc TRFC = Some i\<close> Some st by (simp add: setRefreshConfig_def issue_def)
    moreover have "hw_decode i = SetTrfc (unat trfc)" "hw_decode j = SetTrefi (unat trefi)"
      using decode_REF_CONFIG [OF \<open>genREF_CONFIG trfc TRFC = Some i\<close>] decode_REF_CONFIG [OF Some] by simp_all
    ultimately show ?thesis using fi fj decode_fixed(3)
      by (intro iffD2 [OF if_P]) (auto simp: issue_def intro!: exI [of _ "[i, j, genEND]"])
  qed
qed

end
