(* ===== verification/Dram.thy ===== *)
theory Dram
  imports Retention
begin

text \<open>
  What the row programs of the retention test mean to the memory: an abstract DDR3 module that
  executes the decoded instructions of a program, one memory cycle each (a wait of \<open>n\<close> takes
  \<open>n\<close> cycles), keeps the state of every bank with the time it entered it, and counts commands
  that break the protocol or the timing constraints of \<open>softMC.inc\<close> (\<open>DEF_TRP\<close>, \<open>DEF_TRCD\<close>,
  \<open>DEF_TRAS\<close> at \<open>tCK\<close> = 2500 ps).
\<close>

section \<open>The module\<close>

datatype bank_state = Idle nat | Open nat nat  \<comment> \<open>since when; the open row and since when\<close>

record dram =
  now :: nat
  banks :: "nat \<Rightarrow> bank_state"
  cells :: "nat \<Rightarrow> nat \<Rightarrow> nat \<Rightarrow> nat"
  bursts :: "nat list list"
  violations :: nat

definition tCK :: nat where "tCK = 2500"
definition tRP :: nat where "tRP = 15000 div tCK"
definition tRCD :: nat where "tRCD = 15000 div tCK"
definition tRAS :: nat where "tRAS = 35000 div tCK"

lemma timing_values: "tRP = 6" "tRCD = 6" "tRAS = 14"
  by (simp_all add: tRP_def tRCD_def tRAS_def tCK_def)

definition violate :: "dram \<Rightarrow> dram" where
  "violate d = d\<lparr>violations := Suc (violations d)\<rparr>"

definition burst_cols :: "nat \<Rightarrow> bool \<Rightarrow> nat list" where
  "burst_cols c fixed8 =
     (if fixed8 then [8 * (c div 8)..<8 * (c div 8) + 8] else [4 * (c div 4)..<4 * (c div 4) + 4])"

fun close_after :: "bool \<Rightarrow> nat \<Rightarrow> dram \<Rightarrow> dram" where
  "close_after False b d = d"
| "close_after True b d = d\<lparr>banks := (banks d)(b := Idle (now d))\<rparr>"

fun ddr_execute :: "ddr_command \<Rightarrow> dram \<Rightarrow> dram" where
  "ddr_execute (Activate b r) d =
     (case banks d b of
        Idle t \<Rightarrow> (if t + tRP \<le> now d then d\<lparr>banks := (banks d)(b := Open r (now d))\<rparr> else violate d)
      | Open _ _ \<Rightarrow> violate d)"
| "ddr_execute (Precharge b) d =
     (case banks d b of
        Idle t \<Rightarrow> d\<lparr>banks := (banks d)(b := Idle (now d))\<rparr>
      | Open r t \<Rightarrow>
          (if t + tRAS \<le> now d then d\<lparr>banks := (banks d)(b := Idle (now d))\<rparr> else violate d))"
| "ddr_execute (WriteBurst b c x ap fixed8) d =
     (case banks d b of
        Idle t \<Rightarrow> violate d
      | Open r t \<Rightarrow>
          (if t + tRCD \<le> now d
           then close_after ap b
             (d\<lparr>cells := (cells d)(b := (cells d b)(r := (\<lambda>col.
                  if col \<in> set (burst_cols c fixed8) then x else cells d b r col)))\<rparr>)
           else violate d))"
| "ddr_execute (ReadBurst b c ap fixed8) d =
     (case banks d b of
        Idle t \<Rightarrow> violate d
      | Open r t \<Rightarrow>
          (if t + tRCD \<le> now d
           then close_after ap b (d\<lparr>bursts := bursts d @ [map (cells d b r) (burst_cols c fixed8)]\<rparr>)
           else violate d))"
| "ddr_execute RefreshCmd d = d"
| "ddr_execute ZqShort d = d"
| "ddr_execute PrechargeAll d = violate d"
| "ddr_execute OtherDdr d = violate d"

fun dram_step :: "hw_op \<Rightarrow> dram \<Rightarrow> dram" where
  "dram_step (DdrOp c) d = (ddr_execute c d)\<lparr>now := Suc (now d)\<rparr>"
| "dram_step (HwWait n) d = d\<lparr>now := now d + n\<rparr>"
| "dram_step EndIseq d = d"
| "dram_step BadOp d = violate d"
| "dram_step _ d = d\<lparr>now := Suc (now d)\<rparr>"

definition run_program :: "u64 list \<Rightarrow> dram \<Rightarrow> dram" where
  "run_program is d = fold (\<lambda>i. dram_step (hw_decode i)) is d"

definition settled :: "dram \<Rightarrow> nat \<Rightarrow> bool" where
  "settled d b \<longleftrightarrow> (case banks d b of Idle t \<Rightarrow> True | Open r t \<Rightarrow> t + tRAS \<le> now d)"

section \<open>Running the row programs\<close>

lemma run_Nil: "run_program [] d = d"
  and run_Cons: "run_program (i # is) d = run_program is (dram_step (hw_decode i) d)"
  and run_append: "run_program (is @ js) d = run_program js (run_program is d)"
  by (simp_all add: run_program_def)

lemma decode_wait_instr:
  "hw_decode (wait_instr 3) = HwWait 3" "hw_decode (wait_instr 5) = HwWait 5"
  "hw_decode (wait_instr 10) = HwWait 10"
  using decode_WAIT [OF genWAIT_const(1)] decode_WAIT [OF genWAIT_const(2)]
    decode_WAIT [OF genWAIT_const(3)] by simp_all

lemma column_word: "k < 128 \<Longrightarrow> unat (8 * word_of_nat k :: u32) = 8 * k"
  by (simp add: unat_word_ariths unat_of_nat)

definition paint :: "nat \<Rightarrow> nat \<Rightarrow> nat \<Rightarrow> nat set \<Rightarrow> dram \<Rightarrow> dram" where
  "paint b r x S d = d\<lparr>cells := (cells d)(b := (cells d b)(r := (\<lambda>c.
     if c \<in> S then x else cells d b r c)))\<rparr>"

definition later :: "nat \<Rightarrow> dram \<Rightarrow> dram" where
  "later n d = d\<lparr>now := now d + n\<rparr>"

definition burst_data :: "nat \<Rightarrow> nat \<Rightarrow> dram \<Rightarrow> nat list \<Rightarrow> nat list list" where
  "burst_data b r d ks = map (\<lambda>k. map (cells d b r) [8 * k..<8 * k + 8]) ks"

lemma paint_frame [frame_simps]:
  "banks (paint b r x S d) = banks d" "now (paint b r x S d) = now d"
  "violations (paint b r x S d) = violations d" "bursts (paint b r x S d) = bursts d"
  "banks (later n d) = banks d" "cells (later n d) = cells d" "now (later n d) = now d + n"
  "violations (later n d) = violations d" "bursts (later n d) = bursts d"
  by (simp_all add: paint_def later_def)

lemma paint_later:
  "later m (later n d) = later (n + m) d"
  "paint b r x S (later n d) = later n (paint b r x S d)"
  "paint b r x S (paint b r x T d) = paint b r x (S \<union> T) d"
  by (auto simp: paint_def later_def fun_eq_iff)

lemma paint_empty: "paint b r x {} d = d"
  by (simp add: paint_def)

lemma set_burst_cols: "set (burst_cols (8 * k) True) = {8 * k..<8 * k + 8}"
  by (simp add: burst_cols_def)

lemma write_burst_step:
  assumes "unat bank < 8" "k < 128" "banks d (unat bank) = Open r t" "t + tRCD \<le> now d"
  shows "run_program (write_bursts bank pattern [k]) d =
    later 11 (paint (unat bank) r (unat pattern) {8 * k..<8 * k + 8} d)"
proof -
  have "hw_decode (genWR bank (of_nat (8 * k)) pattern NO_AP FIXED) =
      DdrOp (WriteBurst (unat bank) (8 * k) (unat pattern) False True)"
    using decode_WR [OF assms(1), of "of_nat (8 * k)" pattern NO_AP FIXED] assms(2)
    by (simp add: column_word)
  then show ?thesis using assms(3,4)
    by (simp add: bursts_Cons bursts_Nil run_Cons run_Nil decode_wait_instr paint_def later_def
        set_burst_cols del: of_nat_mult)
qed

lemma run_write_bursts:
  assumes "unat bank < 8"
  shows "set ks \<subseteq> {0..<128} \<Longrightarrow> banks d (unat bank) = Open r t \<Longrightarrow> t + tRCD \<le> now d \<Longrightarrow>
    run_program (write_bursts bank pattern ks) d =
      later (11 * length ks)
        (paint (unat bank) r (unat pattern) (\<Union>k\<in>set ks. {8 * k..<8 * k + 8}) d)"
proof (induction ks arbitrary: d)
  case Nil
  then show ?case by (simp add: bursts_Nil run_Nil paint_empty later_def)
next
  case (Cons k ks)
  let ?d = "later 11 (paint (unat bank) r (unat pattern) {8 * k..<8 * k + 8} d)"
  have "write_bursts bank pattern (k # ks) = write_bursts bank pattern [k] @ write_bursts bank pattern ks"
    by (simp add: bursts_Cons bursts_Nil)
  then have "run_program (write_bursts bank pattern (k # ks)) d =
      run_program (write_bursts bank pattern ks) ?d"
    using write_burst_step [OF assms, of k d r t pattern] Cons.prems by (simp add: run_append)
  also have "\<dots> = later (11 * length ks)
        (paint (unat bank) r (unat pattern) (\<Union>k\<in>set ks. {8 * k..<8 * k + 8}) ?d)"
    using Cons.prems by (intro Cons.IH) (simp_all add: frame_simps)
  finally show ?case by (simp add: paint_later Un_commute)
qed

lemma row_columns: "(\<Union>k\<in>{0..<128}. {8 * k..<8 * k + 8}) = {0..<1024 :: nat}"
proof -
  have "c \<in> {8 * (c div 8)..<8 * (c div 8) + 8} \<and> c div 8 < 128" if "c < 1024" for c :: nat
    using that less_mult_imp_div_less [of c 128 8] by simp
  then show ?thesis by fastforce
qed

lemma read_burst_step:
  assumes "unat bank < 8" "k < 128" "banks d (unat bank) = Open r t" "t + tRCD \<le> now d"
  shows "run_program (read_bursts bank [k]) d =
    later 11 (d\<lparr>bursts := bursts d @ burst_data (unat bank) r d [k]\<rparr>)"
proof -
  have "hw_decode (genRD bank (of_nat (8 * k)) NO_AP FIXED) =
      DdrOp (ReadBurst (unat bank) (8 * k) False True)"
    using decode_RD [OF assms(1), of "of_nat (8 * k)" NO_AP FIXED] assms(2)
    by (simp add: column_word)
  then show ?thesis using assms(3,4)
    by (simp add: bursts_Cons bursts_Nil run_Cons run_Nil decode_wait_instr later_def
        burst_data_def burst_cols_def del: of_nat_mult)
qed

lemma run_read_bursts:
  assumes "unat bank < 8"
  shows "set ks \<subseteq> {0..<128} \<Longrightarrow> banks d (unat bank) = Open r t \<Longrightarrow> t + tRCD \<le> now d \<Longrightarrow>
    run_program (read_bursts bank ks) d =
      later (11 * length ks) (d\<lparr>bursts := bursts d @ burst_data (unat bank) r d ks\<rparr>)"
proof (induction ks arbitrary: d)
  case Nil
  then show ?case by (simp add: bursts_Nil run_Nil burst_data_def later_def)
next
  case (Cons k ks)
  let ?d = "later 11 (d\<lparr>bursts := bursts d @ burst_data (unat bank) r d [k]\<rparr>)"
  have "read_bursts bank (k # ks) = read_bursts bank [k] @ read_bursts bank ks"
    by (simp add: bursts_Cons bursts_Nil)
  then have "run_program (read_bursts bank (k # ks)) d = run_program (read_bursts bank ks) ?d"
    using read_burst_step [OF assms, of k d r t] Cons.prems by (simp add: run_append)
  also have "\<dots> = later (11 * length ks) (?d\<lparr>bursts := bursts ?d @ burst_data (unat bank) r ?d ks\<rparr>)"
    using Cons.prems by (intro Cons.IH) (simp_all add: frame_simps)
  finally show ?case by (simp add: later_def burst_data_def)
qed

text \<open>What surrounds the bursts: precharge, activate, and the closing precharge.\<close>

definition opened :: "nat \<Rightarrow> nat \<Rightarrow> dram \<Rightarrow> dram" where
  "opened b r d = d\<lparr>banks := (banks d)(b := Open r (now d + 6)), now := now d + 12\<rparr>"

definition closed :: "nat \<Rightarrow> dram \<Rightarrow> dram" where
  "closed b d = d\<lparr>banks := (banks d)(b := Idle (now d + 3)), now := now d + 9\<rparr>"

lemma run_row_frame:
  assumes b: "unat bank < 8" and r: "unat row < 32768" and ok: "settled d (unat bank)"
    and body: "run_program body (opened (unat bank) (unat row) d) = d1"
    and d1: "banks d1 (unat bank) = Open q t" "t + tRAS \<le> now d1 + 3"
  shows "run_program (row_frame row bank body) d = closed (unat bank) d1"
proof -
  note dec = decode_PRE [OF b, of PRE_SINGLE] decode_ACT [OF b] decode_fixed(3) decode_wait_instr
  have open_ok: "run_program [genPRE bank PRE_SINGLE, wait_instr 5, genACT bank row, wait_instr 5] d =
      opened (unat bank) (unat row) d"
    using ok r by (cases "banks d (unat bank)")
      (simp_all add: run_Cons run_Nil dec settled_def timing_values opened_def add.commute)
  have "run_program [wait_instr 3, genPRE bank PRE_SINGLE, wait_instr 5, genEND] d1 =
      closed (unat bank) d1"
    using d1 by (simp add: run_Cons run_Nil dec closed_def add.commute)
  with open_ok body show ?thesis unfolding row_frame_def run_append by simp
qed

lemma run_write_program:
  assumes "unat bank < 8" "unat row < 32768" "settled d (unat bank)"
  shows "run_program (write_program row bank pattern) d =
    closed (unat bank) (later 1408
      (paint (unat bank) (unat row) (unat pattern) {0..<1024} (opened (unat bank) (unat row) d)))"
  unfolding write_program_def
proof (rule run_row_frame [OF assms])
  let ?d = "opened (unat bank) (unat row) d"
  have o: "banks ?d (unat bank) = Open (unat row) (now d + 6)" "now ?d = now d + 12"
    by (simp_all add: opened_def)
  show "run_program (write_bursts bank pattern [0..<128]) ?d =
    later 1408 (paint (unat bank) (unat row) (unat pattern) {0..<1024} ?d)"
    using run_write_bursts [OF assms(1) _ o(1), of "[0..<128]" pattern] o(2) row_columns
    by (simp add: timing_values)
  show "banks (later 1408 (paint (unat bank) (unat row) (unat pattern) {0..<1024} ?d)) (unat bank) =
    Open (unat row) (now d + 6)" by (simp add: frame_simps o)
  show "now d + 6 + tRAS \<le>
    now (later 1408 (paint (unat bank) (unat row) (unat pattern) {0..<1024} ?d)) + 3"
    by (simp add: frame_simps o timing_values)
qed

lemma run_read_program:
  assumes "unat bank < 8" "unat row < 32768" "settled d (unat bank)"
  shows "run_program (read_program row bank) d =
    closed (unat bank) (later 1408 ((opened (unat bank) (unat row) d)
      \<lparr>bursts := bursts d @ burst_data (unat bank) (unat row) d [0..<128]\<rparr>))"
  unfolding read_program_def
proof (rule run_row_frame [OF assms])
  let ?d = "opened (unat bank) (unat row) d"
  let ?d1 = "later 1408 (?d\<lparr>bursts := bursts d @ burst_data (unat bank) (unat row) d [0..<128]\<rparr>)"
  have o: "banks ?d (unat bank) = Open (unat row) (now d + 6)" "now ?d = now d + 12"
    "bursts ?d = bursts d" "burst_data (unat bank) (unat row) ?d = burst_data (unat bank) (unat row) d"
    by (simp_all add: opened_def burst_data_def fun_eq_iff)
  show "run_program (read_bursts bank [0..<128]) ?d = ?d1"
    using run_read_bursts [OF assms(1) _ o(1), of "[0..<128]"] o(2-)
    by (simp add: timing_values)
  show "banks ?d1 (unat bank) = Open (unat row) (now d + 6)" by (simp add: frame_simps o)
  show "now d + 6 + tRAS \<le> now ?d1 + 3" by (simp add: frame_simps o timing_values)
qed

section \<open>Properties\<close>

text \<open>C3: \<open>writeRow\<close> always sends one program, of at most 8192 instructions (the capacity of the
  hardware's buffer), with which the memory sets all 1024 columns of exactly the row addressed
  to the pattern, without one violation of the command protocol or of tRP, tRCD and tRAS, and
  leaves the bank ready for the next program.\<close>

theorem writeRow_writes_row:
  assumes "ok_iseq iseq" and "unat row < 32768" and "unat bank < 8" and "settled d (unat bank)"
  shows "\<exists>s prog. writeRow row bank pattern iseq h =
      Some (Some s, issue (send_program prog) (snd (reuse_sequence iseq h))) \<and> seq_inv s \<and>
    length prog \<le> 8192 \<and> violations (run_program prog d) = violations d \<and>
    settled (run_program prog d) (unat bank) \<and>
    (\<forall>b r c. cells (run_program prog d) b r c =
       (if b = unat bank \<and> r = unat row \<and> c < 1024 then unat pattern else cells d b r c))"
proof -
  let ?p = "write_program row bank pattern"
  obtain s where s: "seq_inv s" "writeRow row bank pattern iseq h =
      Some (Some s, issue (send_program ?p) (snd (reuse_sequence iseq h)))"
    by (rule writeRow_effect [OF assms(1)])
  have "violations (run_program ?p d) = violations d" "settled (run_program ?p d) (unat bank)"
    "\<forall>b r c. cells (run_program ?p d) b r c =
       (if b = unat bank \<and> r = unat row \<and> c < 1024 then unat pattern else cells d b r c)"
    unfolding run_write_program [OF assms(3,2,4)]
    by (simp_all add: closed_def later_def paint_def opened_def settled_def)
  with s show ?thesis by (intro exI [of _ s] exI [of _ ?p]) (simp add: length_programs)
qed

definition blank_dram :: dram where
  "blank_dram = \<lparr>now = 100, banks = (\<lambda>_. Idle 0), cells = (\<lambda>_ _ _. 0), bursts = [], violations = 0\<rparr>"

definition idle_host :: host where
  "idle_host = \<lparr>calls = [], reports = [], recvs = 0, live = 0\<rparr>"

lemma blank_facts:
  "ok_iseq None" "unat (77 :: u32) < 32768" "unat (3 :: u32) < 8" "settled blank_dram (unat (3 :: u32))"
  "violations blank_dram = 0" "cells blank_dram b r c = 0" "calls idle_host = []"
  by (simp_all add: ok_iseq_def settled_def blank_dram_def idle_host_def)

theorem writeRow_writes_row_witness:
  "\<exists>s prog. writeRow 77 3 0xff None idle_host =
      Some (Some s, issue (send_program prog) (snd (reuse_sequence None idle_host))) \<and> seq_inv s \<and>
    length prog \<le> 8192 \<and> violations (run_program prog blank_dram) = 0 \<and>
    settled (run_program prog blank_dram) 3 \<and>
    (\<forall>b r c. cells (run_program prog blank_dram) b r c =
       (if b = 3 \<and> r = 77 \<and> c < 1024 then 255 else 0))"
  using writeRow_writes_row [OF blank_facts(1-4), of "0xff" idle_host]
  by (simp add: blank_facts(5,6) cong: if_cong)

text \<open>C4: \<open>readAndCompareRow\<close> sends one program that makes the memory return the 128 bursts of
  exactly the addressed row in column order, without a protocol or timing violation and without
  changing a cell, and then makes exactly 128 receive calls of 16 words; it reports, in order,
  every received byte that differs from the pattern.\<close>

theorem readAndCompareRow_reads_row:
  assumes "ok_iseq iseq" and "unat row < 32768" and "unat bank < 8" and "settled d (unat bank)"
  shows "\<exists>s prog h'. readAndCompareRow rx row bank pattern iseq h = Some (Some s, h') \<and> seq_inv s \<and>
    calls h' = calls h @ send_program prog # replicate 128 (FpgaRecv 0 16 0) \<and>
    reports h' = reports h @ concat (map (\<lambda>k.
      compare_burst (8 * k) row bank pattern (rx (recvs h + k))) [0..<128]) \<and>
    length prog \<le> 8192 \<and> violations (run_program prog d) = violations d \<and>
    settled (run_program prog d) (unat bank) \<and> cells (run_program prog d) = cells d \<and>
    bursts (run_program prog d) = bursts d @
      map (\<lambda>k. map (cells d (unat bank) (unat row)) [8 * k..<8 * k + 8]) [0..<128]"
proof -
  let ?p = "read_program row bank"
  obtain s where s: "seq_inv s" "readAndCompareRow rx row bank pattern iseq h =
       Some (Some s, (snd (reuse_sequence iseq h))
         \<lparr>calls := calls h @ read_calls row bank, recvs := recvs h + 128,
          reports := reports h @ row_reports rx (recvs h) row bank pattern [0..<128]\<rparr>)"
    by (rule readAndCompareRow_effect [OF assms(1)])
  have "violations (run_program ?p d) = violations d" "settled (run_program ?p d) (unat bank)"
    "cells (run_program ?p d) = cells d"
    "bursts (run_program ?p d) = bursts d @ burst_data (unat bank) (unat row) d [0..<128]"
    unfolding run_read_program [OF assms(3,2,4)]
    by (simp_all add: closed_def later_def opened_def settled_def)
  with s show ?thesis
    by (intro exI [of _ s] exI [of _ ?p] exI [of _ "(snd (reuse_sequence iseq h))
         \<lparr>calls := calls h @ read_calls row bank, recvs := recvs h + 128,
          reports := reports h @ row_reports rx (recvs h) row bank pattern [0..<128]\<rparr>"])
       (simp add: length_programs read_calls_def row_reports_def burst_data_def)
qed

theorem readAndCompareRow_reads_row_witness:
  "\<exists>s prog h'. readAndCompareRow (\<lambda>_. replicate 16 0xffffffff) 77 3 0xff None idle_host =
      Some (Some s, h') \<and> seq_inv s \<and>
    calls h' = send_program prog # replicate 128 (FpgaRecv 0 16 0) \<and>
    violations (run_program prog blank_dram) = 0"
  using readAndCompareRow_reads_row [OF blank_facts(1-4), of "\<lambda>_. replicate 16 0xffffffff" "0xff" idle_host]
  by (elim exE conjE, intro exI conjI) (simp_all add: blank_facts(5-))

end
