(* ===== verification/Riffa_Types.thy ===== *)
theory Riffa_Types
  imports Circ_Queue
begin

text \<open>
  The data of the Linux driver (\<open>riffa_driver.h\<close> and the head of \<open>riffa_driver.c\<close>): the
  constants, \<open>struct sg_mapping\<close>, \<open>struct chnl_dir\<close> and \<open>struct fpga_state\<close>, and the register
  accesses.  The registers of the FPGA are a parameter \<open>rd\<close>: the value of a register may depend
  on the number of the access.  Every access is logged in order.
\<close>

section \<open>Constants\<close>

abbreviation (input) EVENT_TXN_LEN :: u32 where "EVENT_TXN_LEN \<equiv> 1"
abbreviation (input) EVENT_TXN_OFFLAST :: u32 where "EVENT_TXN_OFFLAST \<equiv> 2"
abbreviation (input) EVENT_TXN_DONE :: u32 where "EVENT_TXN_DONE \<equiv> 3"
abbreviation (input) EVENT_SG_BUF_READ :: u32 where "EVENT_SG_BUF_READ \<equiv> 4"

abbreviation (input) NUM_FPGAS :: nat where "NUM_FPGAS \<equiv> 5"
abbreviation (input) MAX_CHNLS :: nat where "MAX_CHNLS \<equiv> 12"
abbreviation (input) MAX_BUS_WIDTH_PARAM :: nat where "MAX_BUS_WIDTH_PARAM \<equiv> 4"
abbreviation (input) SG_BUF_SIZE :: nat where "SG_BUF_SIZE \<equiv> 4 * 1024"
abbreviation (input) SG_ELEMS :: nat where "SG_ELEMS \<equiv> 200"
abbreviation (input) SPILL_BUF_SIZE :: nat where "SPILL_BUF_SIZE \<equiv> 4 * 1024"

abbreviation (input) RX_SG_LEN_REG_OFF :: nat where "RX_SG_LEN_REG_OFF \<equiv> 0x0"
abbreviation (input) RX_SG_ADDR_LO_REG_OFF :: nat where "RX_SG_ADDR_LO_REG_OFF \<equiv> 0x1"
abbreviation (input) RX_SG_ADDR_HI_REG_OFF :: nat where "RX_SG_ADDR_HI_REG_OFF \<equiv> 0x2"
abbreviation (input) RX_LEN_REG_OFF :: nat where "RX_LEN_REG_OFF \<equiv> 0x3"
abbreviation (input) RX_OFFLAST_REG_OFF :: nat where "RX_OFFLAST_REG_OFF \<equiv> 0x4"
abbreviation (input) RX_TNFR_LEN_REG_OFF :: nat where "RX_TNFR_LEN_REG_OFF \<equiv> 0xD"
abbreviation (input) TX_SG_LEN_REG_OFF :: nat where "TX_SG_LEN_REG_OFF \<equiv> 0x5"
abbreviation (input) TX_SG_ADDR_LO_REG_OFF :: nat where "TX_SG_ADDR_LO_REG_OFF \<equiv> 0x6"
abbreviation (input) TX_SG_ADDR_HI_REG_OFF :: nat where "TX_SG_ADDR_HI_REG_OFF \<equiv> 0x7"
abbreviation (input) TX_LEN_REG_OFF :: nat where "TX_LEN_REG_OFF \<equiv> 0x8"
abbreviation (input) TX_OFFLAST_REG_OFF :: nat where "TX_OFFLAST_REG_OFF \<equiv> 0x9"
abbreviation (input) TX_TNFR_LEN_REG_OFF :: nat where "TX_TNFR_LEN_REG_OFF \<equiv> 0xE"
abbreviation (input) INFO_REG_OFF :: nat where "INFO_REG_OFF \<equiv> 0xA"
abbreviation (input) IRQ_REG0_OFF :: nat where "IRQ_REG0_OFF \<equiv> 0xB"
abbreviation (input) IRQ_REG1_OFF :: nat where "IRQ_REG1_OFF \<equiv> 0xC"

definition CHNL_REG :: "nat \<Rightarrow> nat \<Rightarrow> nat" where
  "CHNL_REG c o' = push_bit 4 c + o'"

abbreviation (input) EINVAL :: int where "EINVAL \<equiv> 22"
abbreviation (input) ERESTARTSYS :: int where "ERESTARTSYS \<equiv> 512"
abbreviation (input) ENOMEM :: int where "ENOMEM \<equiv> 12"
abbreviation (input) ENODEV :: int where "ENODEV \<equiv> 19"

section \<open>State\<close>

datatype dma_direction = DMA_TO_DEVICE | DMA_FROM_DEVICE

text \<open>
  \<open>struct sg_mapping\<close>; \<open>sgm_ptr\<close> is the block it lives in, \<open>sm_pages\<close> the block of the page
  array with the pages pinned, \<open>sm_sgl\<close> the block of the scatterlist.
\<close>

record sg_mapping =
  sgm_ptr :: nat
  sm_pages :: "(nat \<times> nat list) option"
  sm_sgl :: "nat option"
  sm_direction :: dma_direction
  sm_num_sg :: nat
  sm_num_pages :: nat
  sm_length :: u64
  sm_overflow :: u64

text \<open>
  \<open>struct chnl_dir\<close>; \<open>sg_buf\<close> is the contents of the common buffer at \<open>buf_addr\<close>, in words, and
  \<open>wakes\<close> counts the wake-ups of its wait queue.
\<close>

record chnl_dir =
  dir_ptr :: nat
  wakes :: nat
  msgs :: circ_queue
  buf_addr :: nat
  sg_buf :: "u32 list"
  buf_hw_addr :: u64
  sg_map_0 :: "sg_mapping option"
  sg_map_1 :: "sg_mapping option"

record fpga_state =
  sc_ptr :: nat
  irq :: nat
  bar0_addr :: u64
  bar0_len :: u64
  bar0_flags :: u64
  intr_disabled :: bool
  spill_buf_addr :: "nat option"
  spill_buf_hw_addr :: u64
  num_sg :: nat
  sg_buf_size :: nat
  fpga_id :: int
  fpga_name :: string
  vendor_id :: nat
  device_id :: nat
  num_chnls :: nat
  recv_ptr :: "nat option"
  send_ptr :: "nat option"
  recv :: "chnl_dir list"
  send :: "chnl_dir list"

datatype mmio_access = RegRead nat | RegWrite nat u32

record device =
  sc :: fpga_state
  mmio :: "mmio_access list"
  kern :: kstate

type_synonym registers = "nat \<Rightarrow> nat \<Rightarrow> u32"

definition read_reg :: "registers \<Rightarrow> nat \<Rightarrow> device \<Rightarrow> u32 \<times> device" where
  "read_reg rd off d = (rd (length (mmio d)) off, d\<lparr>mmio := mmio d @ [RegRead off]\<rparr>)"

definition write_reg :: "nat \<Rightarrow> u32 \<Rightarrow> device \<Rightarrow> device" where
  "write_reg off val d = d\<lparr>mmio := mmio d @ [RegWrite off val]\<rparr>"

text \<open>Changing one channel of a device.\<close>

definition upd_recv :: "nat \<Rightarrow> (chnl_dir \<Rightarrow> chnl_dir) \<Rightarrow> device \<Rightarrow> device" where
  "upd_recv c f d = d\<lparr>sc := (sc d)\<lparr>recv := (recv (sc d))[c := f (recv (sc d) ! c)]\<rparr>\<rparr>"

definition upd_send :: "nat \<Rightarrow> (chnl_dir \<Rightarrow> chnl_dir) \<Rightarrow> device \<Rightarrow> device" where
  "upd_send c f d = d\<lparr>sc := (sc d)\<lparr>send := (send (sc d))[c := f (send (sc d) ! c)]\<rparr>\<rparr>"

lemma upd_frame [frame_simps]:
  "mmio (upd_recv c f d) = mmio d" "mmio (upd_send c f d) = mmio d"
  "kern (upd_recv c f d) = kern d" "kern (upd_send c f d) = kern d"
  "send (sc (upd_recv c f d)) = send (sc d)" "recv (sc (upd_send c f d)) = recv (sc d)"
  "num_chnls (sc (upd_recv c f d)) = num_chnls (sc d)"
  "num_chnls (sc (upd_send c f d)) = num_chnls (sc d)"
  "recv (sc (upd_recv c f d)) = (recv (sc d))[c := f (recv (sc d) ! c)]"
  "send (sc (upd_send c f d)) = (send (sc d))[c := f (send (sc d) ! c)]"
  by (simp_all add: upd_recv_def upd_send_def)

lemma read_reg_frame [mmio_simps]:
  "sc (snd (read_reg rd off d)) = sc d" "kern (snd (read_reg rd off d)) = kern d"
  "mmio (snd (read_reg rd off d)) = mmio d @ [RegRead off]"
  "fst (read_reg rd off d) = rd (length (mmio d)) off"
  by (simp_all add: read_reg_def)

lemma write_reg_frame [mmio_simps]:
  "sc (write_reg off v d) = sc d" "kern (write_reg off v d) = kern d"
  "mmio (write_reg off v d) = mmio d @ [RegWrite off v]"
  by (simp_all add: write_reg_def)

section \<open>Queues of a channel\<close>

text \<open>One message pushed on the queue of a channel; a full queue drops it (the code only logs).\<close>

definition push_msg :: "u32 \<Rightarrow> u32 \<Rightarrow> chnl_dir \<Rightarrow> chnl_dir" where
  "push_msg ty v c = c\<lparr>msgs := snd (push_circ_queue (msgs c) ty v)\<rparr>"

definition wake_up :: "chnl_dir \<Rightarrow> chnl_dir" where
  "wake_up c = c\<lparr>wakes := Suc (wakes c)\<rparr>"

definition push_msgs :: "(u32 \<times> u32) list \<Rightarrow> chnl_dir \<Rightarrow> chnl_dir" where
  "push_msgs ms c = fold (\<lambda>(ty, v). push_msg ty v) ms c"

abbreviation (input) pending :: "chnl_dir \<Rightarrow> (u32 \<times> u32) list" where
  "pending c \<equiv> queue_list (msgs c)"

lemma push_msgs_queue:
  "push_msgs ms c = c\<lparr>msgs := fold (\<lambda>m q. snd (case m of (a, b) \<Rightarrow> push_circ_queue q a b)) ms (msgs c)\<rparr>"
  by (induction ms arbitrary: c) (auto simp: push_msgs_def push_msg_def)

lemma push_msgs_effect:
  assumes "queue_inv (msgs c)" "credit (msgs c) (length ms)"
  shows "pending (push_msgs ms c) = take (queue_cap (msgs c)) (pending c @ ms)"
    "queue_inv (msgs (push_msgs ms c))"
    "queue_cap (msgs (push_msgs ms c)) = queue_cap (msgs c)"
  using circ_fifo.push_run [OF assms] unfolding push_msgs_queue by simp_all

lemma push_msgs_credit: "credit (msgs c) (length ms + n) \<Longrightarrow> credit (msgs (push_msgs ms c)) n"
  unfolding push_msgs_queue by (simp add: circ_fifo.fuel_run)

lemma push_msgs_append: "push_msgs (xs @ ys) c = push_msgs ys (push_msgs xs c)"
  by (simp add: push_msgs_def)

lemma push_msgs_simps: "push_msgs [] c = c" "push_msgs ((a, b) # ms) c = push_msgs ms (push_msg a b c)"
  by (simp_all add: push_msgs_def)

end
