(* ===== verification/Riffa_Sg.thy ===== *)
theory Riffa_Sg
  imports Riffa_Types
begin

text \<open>
  Scatter gather mappings (\<open>fill_sg_buf\<close>, \<open>free_sg_buf\<close> of \<open>riffa_driver.c\<close>): pinning the pages
  of the user buffer, building the scatterlist, writing its bus addresses to the common buffer
  of the channel, and giving everything back.
\<close>

section \<open>Operations\<close>

abbreviation (input) PAGE_SIZE :: u64 where "PAGE_SIZE \<equiv> 4096"

text \<open>One element of the common buffer: low address, high address, length in words.\<close>

definition write_sg_elem :: "nat \<Rightarrow> u64 \<Rightarrow> u32 \<Rightarrow> u32 list \<times> kstate \<Rightarrow> u32 list \<times> kstate" where
  "write_sg_elem i hw_addr words bk =
     (if 4 * i + 2 < length (fst bk)
      then ((fst bk)[i * 4 + 0 := ucast (hw_addr AND 0xFFFFFFFF),
                     i * 4 + 1 := ucast (drop_bit 32 hw_addr AND 0xFFFFFFFF),
                     i * 4 + 2 := words], snd bk)
      else (fst bk, add_fault (BufOverrun (i * 4 + 2)) (snd bk)))"

definition pages_required :: "u64 \<Rightarrow> u64 \<Rightarrow> nat \<Rightarrow> u64" where
  "pages_required udata len maxsg =
     (let n = drop_bit 12 (udata + len - 1) - drop_bit 12 udata + 1
      in if n > of_nat maxsg then of_nat maxsg else n)"

text \<open>The loop that sets the scatterlist entries, one per pinned page.\<close>

fun scatter :: "u32 \<Rightarrow> u64 \<Rightarrow> nat list \<Rightarrow> sgent list \<times> u64" where
  "scatter fp_offset len_rem [] = ([], len_rem)"
| "scatter fp_offset len_rem (p # ps) =
     (let len = ucast (if ucast fp_offset + len_rem > PAGE_SIZE
                       then PAGE_SIZE - ucast fp_offset else len_rem) :: u32;
          (es, r) = scatter 0 (len_rem - ucast len) ps
      in (\<lparr>sg_page = p, sg_len = len, sg_off = fp_offset\<rparr> # es, r))"

fun write_mapped :: "nat \<Rightarrow> (u64 \<times> u32) list \<Rightarrow> u32 list \<times> kstate \<Rightarrow> u32 list \<times> kstate" where
  "write_mapped i [] bk = bk"
| "write_mapped i ((hw_addr, hw_len) # hw) bk =
     write_mapped (Suc i) hw (write_sg_elem i hw_addr (drop_bit 2 hw_len) bk)"

text \<open>The elements that point to the spill buffer.\<close>

function fill_spill ::
  "u64 \<Rightarrow> nat \<Rightarrow> u64 \<Rightarrow> u64 \<Rightarrow> u64 \<Rightarrow> nat \<Rightarrow> u32 list \<times> kstate \<Rightarrow> nat \<times> u64 \<times> u32 list \<times> kstate" where
  "fill_spill spill maxsg overflow len_rem overflow_rem n bk =
     (if len_rem = 0 \<and> overflow_rem > 0 \<and> n < maxsg
      then fill_spill spill maxsg overflow len_rem
             (overflow_rem - (if of_nat SPILL_BUF_SIZE > overflow then overflow
                              else of_nat SPILL_BUF_SIZE))
             (Suc n) (write_sg_elem n spill (drop_bit 2 (of_nat SPILL_BUF_SIZE)) bk)
      else (n, overflow_rem, bk))"
  by pat_completeness auto
termination
  by (relation "measure (\<lambda>(spill, maxsg, overflow, len_rem, overflow_rem, n, bk). maxsg - n)") auto

declare fill_spill.simps [simp del]

text \<open>
  The part of \<open>fill_sg_buf\<close> that runs for a non-empty buffer: page array, pinned pages,
  scatterlist, DMA mapping.  On failure everything taken here is given back.
\<close>

definition map_user_pages ::
  "kenv \<Rightarrow> nat \<Rightarrow> u64 \<Rightarrow> u64 \<Rightarrow> kstate \<Rightarrow>
     ((nat \<times> nat list) \<times> nat \<times> (u64 \<times> u32) list \<times> u64) option \<times> kstate" where
  "map_user_pages env maxsg udata len k0 =
     (case kmalloc env k0 of
        (None, k) \<Rightarrow> (None, k)
      | (Some pb, k) \<Rightarrow>
          (let pgs = user_pages env (tick k) udata (unat (pages_required udata len maxsg));
               k = fold acquire (map PinnedPage pgs) (advance k)
           in if pgs = [] then (None, kfree (Some pb) k)
              else case kmalloc env k of
                (None, k) \<Rightarrow> (None, kfree (Some pb) (fold release (map PinnedPage pgs) k))
              | (Some sb, k) \<Rightarrow>
                  (let (es, len_rem) = scatter (ucast (udata AND 0xFFF)) len pgs;
                       hw = dma_map env (tick k) es;
                       k = (if hw = [] then advance k else acquire (DmaMapped sb) (advance k))
                   in (Some ((pb, pgs), sb, hw, len_rem), k))))"

definition fill_sg_buf ::
  "kenv \<Rightarrow> fpga_state \<Rightarrow> u32 list \<Rightarrow> u64 \<Rightarrow> u64 \<Rightarrow> u64 \<Rightarrow> dma_direction \<Rightarrow> kstate \<Rightarrow>
     sg_mapping option \<times> u32 list \<times> kstate" where
  "fill_sg_buf env s buf udata len overflow direction k0 =
     (case kmalloc env k0 of
        (None, k) \<Rightarrow> (None, buf, k)
      | (Some m, k) \<Rightarrow>
          (case (if len > 0
                 then (case map_user_pages env (num_sg s) udata len k of
                         (None, k) \<Rightarrow> (None, k)
                       | (Some (pages, sgl, hw, len_rem), k) \<Rightarrow>
                           (Some (Some pages, Some sgl, hw, len_rem), k))
                 else (Some (None, None, [], len), k)) of
             (None, k) \<Rightarrow> (None, buf, kfree (Some m) k)
           | (Some (pages, sgl, hw, len_rem), k) \<Rightarrow>
               (let bk = write_mapped 0 hw (buf, k);
                    (n, overflow_rem, bk) =
                      fill_spill (spill_buf_hw_addr s) (num_sg s) overflow len_rem overflow
                        (length hw) bk
                in (Some \<lparr>sgm_ptr = m, sm_pages = pages, sm_sgl = sgl, sm_direction = direction,
                     sm_num_sg = n,
                     sm_num_pages = (case pages of None \<Rightarrow> 0 | Some (_, ps) \<Rightarrow> length ps),
                     sm_length = len - len_rem, sm_overflow = overflow - overflow_rem\<rparr>, bk))))"

definition put_page :: "kenv \<Rightarrow> dma_direction \<Rightarrow> nat \<Rightarrow> kstate \<Rightarrow> kstate" where
  "put_page env direction p k =
     (let k = (if direction = DMA_FROM_DEVICE \<and> \<not> page_reserved env p
               then set_page_dirty p k else k)
      in release (PinnedPage p) k)"

fun free_sg_buf :: "kenv \<Rightarrow> sg_mapping option \<Rightarrow> kstate \<Rightarrow> kstate" where
  "free_sg_buf env None k = k"
| "free_sg_buf env (Some m) k =
     (let k = (case sm_sgl m of None \<Rightarrow> k | Some sb \<Rightarrow> release (DmaMapped sb) k);
          k = (case sm_pages m of None \<Rightarrow> k
               | Some (_, ps) \<Rightarrow> fold (put_page env (sm_direction m)) (take (sm_num_pages m) ps) k);
          k = (case sm_pages m of None \<Rightarrow> k | Some (pb, _) \<Rightarrow> kfree (Some pb) k);
          k = (case sm_sgl m of None \<Rightarrow> k | Some sb \<Rightarrow> kfree (Some sb) k)
      in kfree (Some (sgm_ptr m)) k)"

declare free_sg_buf.simps(2) [simp del]

section \<open>What a mapping holds\<close>

text \<open>
  The resources a mapping stands for.  The DMA mapping is part of them when the kernel mapped
  at least one entry.
\<close>

definition mapping_resources :: "sg_mapping \<Rightarrow> resource multiset" where
  "mapping_resources m =
     {#Kmem (sgm_ptr m)#} +
     (case sm_pages m of None \<Rightarrow> {#} | Some (pb, ps) \<Rightarrow> add_mset (Kmem pb) (mset (map PinnedPage ps))) +
     (case sm_sgl m of None \<Rightarrow> {#} | Some sb \<Rightarrow> {#Kmem sb, DmaMapped sb#})"

definition mapping_ok :: "sg_mapping \<Rightarrow> bool" where
  "mapping_ok m \<longleftrightarrow> (case sm_pages m of None \<Rightarrow> True | Some (pb, ps) \<Rightarrow> sm_num_pages m = length ps)"

definition opt_resources :: "sg_mapping option \<Rightarrow> resource multiset" where
  "opt_resources mo = (case mo of None \<Rightarrow> {#} | Some m \<Rightarrow> mapping_resources m)"

text \<open>
  What the kernel documents: it pins at most the pages asked for, and a DMA mapping of at least
  one entry succeeds with at least one and at most as many entries as it was given.
\<close>

definition kenv_ok :: "kenv \<Rightarrow> bool" where
  "kenv_ok env \<longleftrightarrow> (\<forall>t u n. length (user_pages env t u n) \<le> n) \<and>
     (\<forall>t es. length (dma_map env t es) \<le> length es)"

definition dma_ok :: "kenv \<Rightarrow> bool" where
  "dma_ok env \<longleftrightarrow> (\<forall>t es. es \<noteq> [] \<longrightarrow> dma_map env t es \<noteq> [])"

lemma scatter_length: "length (fst (scatter off rem ps)) = length ps"
  by (induction off rem ps rule: scatter.induct) (simp_all add: Let_def split_def)

text \<open>
  \<open>gives_back k A k'\<close>: from \<open>k\<close> to \<open>k'\<close> the resources \<open>A\<close> were given back, without a fault if
  they were held.  \<open>takes k A k'\<close>: they were taken.
\<close>

definition gives_back :: "kstate \<Rightarrow> resource multiset \<Rightarrow> kstate \<Rightarrow> bool" where
  "gives_back k A k' \<longleftrightarrow> held k' = held k - A \<and> (A \<subseteq># held k \<longrightarrow> faults k' = faults k)"

definition takes :: "kstate \<Rightarrow> resource multiset \<Rightarrow> kstate \<Rightarrow> bool" where
  "takes k A k' \<longleftrightarrow> held k' = A + held k \<and> faults k' = faults k"

lemma gives_back_none: "gives_back k {#} k"
  by (simp add: gives_back_def)

lemma gives_back_release: "gives_back k {#r#} (release r k)"
  by (simp add: gives_back_def ledger_simps)

lemma gives_back_trans:
  assumes "gives_back k A k'" "gives_back k' B k''"
  shows "gives_back k (A + B) k''"
proof -
  have "A \<subseteq># held k \<and> B \<subseteq># held k - A" if "A + B \<subseteq># held k"
  proof
    show "A \<subseteq># held k" using that mset_subset_eq_add_left subset_mset.order_trans by blast
    then show "B \<subseteq># held k - A" using that by (simp add: subset_mset.le_diff_conv2 add.commute)
  qed
  then show ?thesis using assms by (auto simp: gives_back_def)
qed

lemma gives_back_put_page: "gives_back k {#PinnedPage p#} (put_page env dir p k)"
  by (simp add: gives_back_def put_page_def Let_def ledger_simps)

lemma gives_back_put_pages: "gives_back k (image_mset PinnedPage (mset ps)) (fold (put_page env dir) ps k)"
proof (induction ps arbitrary: k)
  case Nil
  then show ?case by (simp add: gives_back_none)
next
  case (Cons p ps)
  from gives_back_trans [OF gives_back_put_page Cons.IH, of k p env dir] show ?case by simp
qed

lemma gives_back_kfree: "gives_back k {#Kmem p#} (kfree (Some p) k)"
  by (simp add: gives_back_release)

lemma gives_back_restores:
  "gives_back k' A k'' \<Longrightarrow> takes k A k' \<Longrightarrow> held k'' = held k \<and> faults k'' = faults k"
  by (simp add: gives_back_def takes_def)

lemma gives_back_free_sg_buf:
  assumes "mapping_ok m"
  shows "gives_back k (mapping_resources m) (free_sg_buf env (Some m) k)"
proof -
  define k1 where "k1 = (case sm_sgl m of None \<Rightarrow> k | Some sb \<Rightarrow> release (DmaMapped sb) k)"
  define k2 where "k2 = (case sm_pages m of None \<Rightarrow> k1
    | Some (_, ps) \<Rightarrow> fold (put_page env (sm_direction m)) (take (sm_num_pages m) ps) k1)"
  define k3 where "k3 = (case sm_pages m of None \<Rightarrow> k2 | Some (pb, _) \<Rightarrow> kfree (Some pb) k2)"
  define k4 where "k4 = (case sm_sgl m of None \<Rightarrow> k3 | Some sb \<Rightarrow> kfree (Some sb) k3)"
  define A where "A = (case sm_sgl m of None \<Rightarrow> {#} | Some sb \<Rightarrow> {#DmaMapped sb#})"
  define B where "B = (case sm_pages m of None \<Rightarrow> {#} | Some (pb, ps) \<Rightarrow> mset (map PinnedPage ps))"
  define C where "C = (case sm_pages m of None \<Rightarrow> {#} | Some (pb, ps) \<Rightarrow> {#Kmem pb#})"
  define D where "D = (case sm_sgl m of None \<Rightarrow> {#} | Some sb \<Rightarrow> {#Kmem sb#})"
  have "gives_back k A k1"
    by (auto simp: A_def k1_def gives_back_none gives_back_release split: option.split)
  moreover have "gives_back k1 B k2"
    using assms by (auto simp: B_def k2_def mapping_ok_def gives_back_none gives_back_put_pages
        split: option.split prod.split)
  moreover have "gives_back k2 C k3"
    by (auto simp: C_def k3_def gives_back_none gives_back_release split: option.split prod.split)
  moreover have "gives_back k3 D k4"
    by (auto simp: D_def k4_def gives_back_none gives_back_release split: option.split)
  moreover have "gives_back k4 {#Kmem (sgm_ptr m)#} (kfree (Some (sgm_ptr m)) k4)"
    by (rule gives_back_kfree)
  ultimately have "gives_back k (A + B + C + D + {#Kmem (sgm_ptr m)#}) (kfree (Some (sgm_ptr m)) k4)"
    by (blast intro: gives_back_trans)
  moreover have "A + B + C + D + {#Kmem (sgm_ptr m)#} = mapping_resources m"
    by (auto simp: A_def B_def C_def D_def mapping_resources_def split: option.split)
  moreover have "free_sg_buf env (Some m) k = kfree (Some (sgm_ptr m)) k4"
    by (simp only: free_sg_buf.simps Let_def k1_def k2_def k3_def k4_def)
  ultimately show ?thesis by simp
qed

lemma gives_back_free_opt:
  assumes "pred_option mapping_ok mo"
  shows "gives_back k (opt_resources mo) (free_sg_buf env mo k)"
  using assms gives_back_free_sg_buf
  by (cases mo) (auto simp: opt_resources_def gives_back_none)

section \<open>Bounds of the common buffer\<close>

text \<open>The buffer has room for \<open>maxsg\<close> elements of 16 bytes.\<close>

definition sg_room :: "nat \<Rightarrow> u32 list \<Rightarrow> bool" where
  "sg_room maxsg buf \<longleftrightarrow> 4 * maxsg \<le> length buf"

lemma write_sg_elem_frame:
  "length (fst (write_sg_elem i a w bk)) = length (fst bk)"
  "held (snd (write_sg_elem i a w bk)) = held (snd bk)"
  "sg_room maxsg (fst bk) \<Longrightarrow> i < maxsg \<Longrightarrow> snd (write_sg_elem i a w bk) = snd bk"
  by (auto simp: write_sg_elem_def add_fault_def sg_room_def)

lemma write_mapped_frame:
  "length (fst (write_mapped i hw bk)) = length (fst bk)"
  "held (snd (write_mapped i hw bk)) = held (snd bk)"
  "sg_room maxsg (fst bk) \<Longrightarrow> i + length hw \<le> maxsg \<Longrightarrow> snd (write_mapped i hw bk) = snd bk"
  by (induction i hw bk rule: write_mapped.induct)
     (simp_all add: write_sg_elem_frame sg_room_def)

lemma fill_spill_frame:
  "fill_spill spill maxsg overflow len_rem overflow_rem n bk = (n', r', bk') \<Longrightarrow>
     length (fst bk') = length (fst bk) \<and> held (snd bk') = held (snd bk) \<and> n \<le> n' \<and>
     (n \<le> maxsg \<longrightarrow> n' \<le> maxsg) \<and> (sg_room maxsg (fst bk) \<longrightarrow> snd bk' = snd bk)"
proof (induction spill maxsg overflow len_rem overflow_rem n bk rule: fill_spill.induct)
  case (1 spill maxsg overflow len_rem overflow_rem n bk)
  let ?bk = "write_sg_elem n spill (drop_bit 2 (of_nat SPILL_BUF_SIZE)) bk"
  show ?case
  proof (cases "len_rem = 0 \<and> overflow_rem > 0 \<and> n < maxsg")
    case True
    note fs = fill_spill.simps [of spill maxsg overflow len_rem overflow_rem n bk,
        unfolded if_P [OF True]]
    have "length (fst bk') = length (fst ?bk) \<and> held (snd bk') = held (snd ?bk) \<and> Suc n \<le> n' \<and>
     (Suc n \<le> maxsg \<longrightarrow> n' \<le> maxsg) \<and> (sg_room maxsg (fst ?bk) \<longrightarrow> snd bk' = snd ?bk)"
      by (rule "1.IH" [OF True "1.prems" [unfolded fs]])
    then show ?thesis using True
      by (auto simp: sg_room_def write_sg_elem_frame)
  next
    case False
    note fs = fill_spill.simps [of spill maxsg overflow len_rem overflow_rem n bk,
        unfolded if_not_P [OF False]]
    show ?thesis using "1.prems" [unfolded fs] by simp
  qed
qed

section \<open>The ledger of a mapping\<close>

lemma takes_acquire: "takes k {#r#} (acquire r k)"
  by (simp add: takes_def ledger_simps)

lemma kmalloc_cases:
  "kmalloc env k = (None, k') \<Longrightarrow> takes k {#} k'"
  "kmalloc env k = (Some p, k') \<Longrightarrow> takes k {#Kmem p#} k'"
  by (auto simp: kmalloc_def takes_def ledger_simps split: if_splits)

lemma takes_trans: "takes k A k' \<Longrightarrow> takes k' B k'' \<Longrightarrow> takes k (B + A) k''"
  by (simp add: takes_def add.assoc)

lemma map_user_pages_None:
  assumes "map_user_pages env maxsg udata len k = (None, k')"
  shows "takes k {#} k'"
  using assms
  by (auto simp: map_user_pages_def kmalloc_def takes_def ledger_simps Let_def split_def
      split: if_splits option.splits)

lemma map_user_pages_Some:
  assumes "map_user_pages env maxsg udata len k = (Some ((pb, pgs), sb, hw, len_rem), k')"
  shows "takes k ((if hw = [] then {#} else {#DmaMapped sb#}) +
      (add_mset (Kmem sb) (add_mset (Kmem pb) (mset (map PinnedPage pgs))))) k'"
    "pgs \<noteq> []" "\<exists>t es. hw = dma_map env t es \<and> length es = length pgs \<and>
       es = fst (scatter (ucast (udata AND 0xFFF)) len pgs)"
    "len_rem = snd (scatter (ucast (udata AND 0xFFF)) len pgs)"
    "\<exists>t. pgs = user_pages env t udata (unat (pages_required udata len maxsg))"
  using assms scatter_length [of "ucast (udata AND 0xFFF)" len pgs]
  by (auto simp: map_user_pages_def kmalloc_def takes_def ledger_simps Let_def split_def
      split: if_splits option.splits)

section \<open>What is in the common buffer\<close>

text \<open>The element \<open>i\<close> of the buffer as the FPGA reads it: bus address and length in words.\<close>

definition sg_elem :: "u32 list \<Rightarrow> nat \<Rightarrow> u64 \<times> u32" where
  "sg_elem buf i =
     (push_bit 32 (ucast (buf ! (i * 4 + 1))) OR ucast (buf ! (i * 4 + 0)), buf ! (i * 4 + 2))"

lemma split_address:
  "push_bit 32 (ucast (ucast (drop_bit 32 (a :: u64) AND 0xFFFFFFFF) :: u32)) OR
   ucast (ucast (a AND 0xFFFFFFFF) :: u32) = a"
proof -
  have m: "(0xFFFFFFFF :: u64) = mask 32" by (simp add: mask_eq_exp_minus_1)
  show ?thesis unfolding m by (rule bit_word_eqI) (auto simp: bit_simps)
qed

lemma sg_elem_write:
  assumes "sg_room maxsg (fst bk)" "i < maxsg"
  shows "sg_elem (fst (write_sg_elem i a w bk)) j = (if j = i then (a, w) else sg_elem (fst bk) j)"
proof -
  have len: "4 * i + 3 < length (fst bk) + 0 \<or> 4 * i + 3 \<le> length (fst bk)"
    using assms by (simp add: sg_room_def)
  then have l: "i * 4 + 2 < length (fst bk)" "i * 4 + 1 < length (fst bk)" "i * 4 < length (fst bk)"
    by linarith+
  have w: "fst (write_sg_elem i a w bk) =
    (fst bk)[i * 4 + 0 := ucast (a AND 0xFFFFFFFF),
             i * 4 + 1 := ucast (drop_bit 32 a AND 0xFFFFFFFF), i * 4 + 2 := w]"
    using l by (simp add: write_sg_elem_def mult.commute)
  show ?thesis
  proof (cases "j = i")
    case True
    then show ?thesis using l split_address [of a] by (simp add: w sg_elem_def)
  next
    case False
    then have "j * 4 \<noteq> i * 4" "j * 4 + 1 \<noteq> i * 4" "j * 4 + 2 \<noteq> i * 4" "j * 4 \<noteq> i * 4 + 1"
      "j * 4 \<noteq> i * 4 + 2" "j * 4 + 1 \<noteq> i * 4 + 2" "j * 4 + 2 \<noteq> i * 4 + 1"
      by presburger+
    with False show ?thesis by (simp add: w sg_elem_def)
  qed
qed

lemma write_mapped_elems:
  "sg_room maxsg (fst bk) \<Longrightarrow> i + length hw \<le> maxsg \<Longrightarrow>
     sg_elem (fst (write_mapped i hw bk)) j =
       (if i \<le> j \<and> j < i + length hw then (fst (hw ! (j - i)), drop_bit 2 (snd (hw ! (j - i))))
        else sg_elem (fst bk) j)"
proof (induction i hw bk rule: write_mapped.induct)
  case (1 i bk)
  then show ?case by auto
next
  case (2 i a l hw bk)
  let ?bk = "write_sg_elem i a (drop_bit 2 l) bk"
  have room: "sg_room maxsg (fst ?bk)" using 2(2) by (simp add: sg_room_def write_sg_elem_frame)
  have "sg_elem (fst (write_mapped (Suc i) hw ?bk)) j =
       (if Suc i \<le> j \<and> j < Suc i + length hw then (fst (hw ! (j - Suc i)), drop_bit 2 (snd (hw ! (j - Suc i))))
        else sg_elem (fst ?bk) j)"
    using 2(1) [OF room] 2(3) by simp
  then show ?case using sg_elem_write [OF 2(2), of i a "drop_bit 2 l" j] 2(3)
    by (auto simp: nth_Cons' not_less_eq_eq)
qed

lemma fill_spill_elems:
  "fill_spill spill maxsg overflow len_rem overflow_rem n bk = (n', r', bk') \<Longrightarrow>
     sg_room maxsg (fst bk) \<Longrightarrow>
     sg_elem (fst bk') j = (if n \<le> j \<and> j < n' then (spill, 1024) else sg_elem (fst bk) j)"
proof (induction spill maxsg overflow len_rem overflow_rem n bk rule: fill_spill.induct)
  case (1 spill maxsg overflow len_rem overflow_rem n bk)
  let ?bk = "write_sg_elem n spill (drop_bit 2 (of_nat SPILL_BUF_SIZE)) bk"
  show ?case
  proof (cases "len_rem = 0 \<and> overflow_rem > 0 \<and> n < maxsg")
    case True
    note fs = fill_spill.simps [of spill maxsg overflow len_rem overflow_rem n bk,
        unfolded if_P [OF True]]
    have room: "sg_room maxsg (fst ?bk)" using "1.prems"(2) by (simp add: sg_room_def write_sg_elem_frame)
    note IH = "1.IH" [OF True "1.prems"(1) [unfolded fs] room]
    have "Suc n \<le> n'" using fill_spill_frame [OF "1.prems"(1) [unfolded fs]] by simp
    then show ?thesis using IH True sg_elem_write [OF "1.prems"(2), of n spill _ j] by auto
  next
    case False
    note fs = fill_spill.simps [of spill maxsg overflow len_rem overflow_rem n bk,
        unfolded if_not_P [OF False]]
    show ?thesis using "1.prems"(1) [unfolded fs] by auto
  qed
qed

section \<open>The pages of the user buffer\<close>

text \<open>
  The user addresses a scatterlist covers, when its first entry lies in the virtual page \<open>v\<close>.
\<close>

fun entry_addrs :: "nat \<Rightarrow> sgent list \<Rightarrow> nat list" where
  "entry_addrs v [] = []"
| "entry_addrs v (e # es) =
     [4096 * v + unat (sg_off e)..<4096 * v + unat (sg_off e) + unat (sg_len e)] @
     entry_addrs (Suc v) es"

lemma scatter_entry_len:
  fixes off :: u32 and rem :: u64
  assumes "unat off < 4096" "unat rem < 2 ^ 63"
  defines "l \<equiv> (ucast (if ucast off + rem > PAGE_SIZE then PAGE_SIZE - ucast off else rem) :: u32)"
  shows "unat l = min (4096 - unat off) (unat rem)" "unat (rem - ucast l) = unat rem - unat l"
proof -
  have uo: "unat (ucast off :: u64) = unat off" by (rule bit_eqI) (auto simp: bit_simps dest: bit_imp_le_length)
  have sum: "unat (ucast off + rem) = unat off + unat rem"
    using assms(1,2) uo by (simp add: unat_word_ariths)
  have sub: "unat (PAGE_SIZE - ucast off) = 4096 - unat off"
    using assms(1) uo by (simp add: unat_diff_le)
  have big: "ucast off + rem > PAGE_SIZE \<longleftrightarrow> 4096 < unat off + unat rem"
    by (simp add: word_less_nat_alt sum)
  have narrow: "unat (ucast x :: u32) = unat x" if "unat x \<le> 4096" for x :: u64
    using that by (simp add: unsigned_ucast_eq take_bit_nat_eq_self)
  show l: "unat l = min (4096 - unat off) (unat rem)"
  proof (cases "4096 < unat off + unat rem")
    case True
    then show ?thesis using narrow [of "PAGE_SIZE - ucast off"] by (auto simp: l_def big sub min_def)
  next
    case False
    then show ?thesis using narrow [of rem] by (auto simp: l_def big min_def)
  qed
  have "unat (ucast l :: u64) = unat l" by (rule bit_eqI) (auto simp: bit_simps dest: bit_imp_le_length)
  then show "unat (rem - ucast l) = unat rem - unat l" using l by (simp add: unat_diff_le)
qed

lemma page_min:
  "(a :: nat) < 4096 \<Longrightarrow> 4096 < a + r \<Longrightarrow>
     min r (4096 * Suc n - a) = (4096 - a) + min (r - (4096 - a)) (4096 * n)"
  by (simp add: min_def) arith

lemma scatter_covers:
  "unat off < 4096 \<Longrightarrow> unat rem < 2 ^ 63 \<Longrightarrow>
     entry_addrs v (fst (scatter off rem ps)) =
       [4096 * v + unat off..<4096 * v + unat off + min (unat rem) (4096 * length ps - unat off)] \<and>
     unat (snd (scatter off rem ps)) = unat rem - min (unat rem) (4096 * length ps - unat off) \<and>
     map sg_page (fst (scatter off rem ps)) = ps"
proof (induction off rem ps arbitrary: v rule: scatter.induct)
  case (1 off rem)
  then show ?case by simp
next
  case (2 off rem p ps)
  let ?l = "ucast (if ucast off + rem > PAGE_SIZE then PAGE_SIZE - ucast off else rem) :: u32"
  note l = scatter_entry_len [OF 2(2,3)]
  have "unat (rem - ucast ?l) < 2 ^ 63" using l(2) 2(3) by simp
  with 2(1) [OF refl, of "Suc v"] have IH:
    "entry_addrs (Suc v) (fst (scatter 0 (rem - ucast ?l) ps)) =
       [4096 * Suc v..<4096 * Suc v + min (unat (rem - ucast ?l)) (4096 * length ps)]"
    "unat (snd (scatter 0 (rem - ucast ?l) ps)) =
       unat (rem - ucast ?l) - min (unat (rem - ucast ?l)) (4096 * length ps)"
    "map sg_page (fst (scatter 0 (rem - ucast ?l) ps)) = ps" by simp_all
  have s: "scatter off rem (p # ps) =
      (\<lparr>sg_page = p, sg_len = ?l, sg_off = off\<rparr> # fst (scatter 0 (rem - ucast ?l) ps),
       snd (scatter 0 (rem - ucast ?l) ps))" by (simp add: Let_def split_def)
  show ?case
  proof (cases "4096 < unat off + unat rem")
    case True
    then have ll: "unat ?l = 4096 - unat off" using l(1) by simp
    let ?m = "min (unat rem - (4096 - unat off)) (4096 * length ps)"
    have rest: "unat (rem - ucast ?l) = unat rem - (4096 - unat off)" by (simp only: l(2) ll)
    note m = page_min [OF 2(2) True, of "length ps"]
    have fin: "4096 * v + unat off + unat ?l = 4096 * Suc v" using ll 2(2) by simp
    have whole: "4096 * v + unat off + min (unat rem) (4096 * length (p # ps) - unat off) =
        4096 * Suc v + ?m" using m 2(2) by simp
    have "entry_addrs v (fst (scatter off rem (p # ps))) =
        [4096 * v + unat off..<4096 * v + unat off + unat ?l] @
        entry_addrs (Suc v) (fst (scatter 0 (rem - ucast ?l) ps))" unfolding s by simp
    also have "\<dots> = [4096 * v + unat off..<4096 * Suc v] @ [4096 * Suc v..<4096 * Suc v + ?m]"
      by (simp only: fin IH(1) rest)
    also have "\<dots> = [4096 * v + unat off..<4096 * Suc v + ?m]"
      using 2(2) upt_add_eq_append [of "4096 * v + unat off" "4096 * Suc v" ?m] by simp
    finally have addrs: "entry_addrs v (fst (scatter off rem (p # ps))) =
        [4096 * v + unat off..<4096 * v + unat off +
          min (unat rem) (4096 * length (p # ps) - unat off)]" by (simp only: whole)
    have "unat (snd (scatter off rem (p # ps))) =
        unat rem - (4096 - unat off) - ?m" unfolding s by (simp only: snd_conv IH(2) rest)
    also have "\<dots> = unat rem - min (unat rem) (4096 * length (p # ps) - unat off)"
      using m by simp
    finally show ?thesis using addrs IH(3) s by simp
  next
    case False
    then have ll: "unat ?l = unat rem" using l(1) by simp
    have "min (unat rem) (4096 * length (p # ps) - unat off) = unat rem" using False by simp
    then show ?thesis unfolding s using IH l(2) ll by simp
  qed
qed

section \<open>The contract of \<open>fill_sg_buf\<close>\<close>

lemma fill_None:
  assumes "fill_sg_buf env s buf udata len ovf dir k = (None, buf', k')"
  shows "buf' = buf" "takes k {#} k'"
proof -
  have "buf' = buf \<and> takes k {#} k'"
  proof (cases "kmalloc env k")
    case (Pair mo k1)
    show ?thesis
    proof (cases mo)
      case None
      then show ?thesis using assms Pair kmalloc_cases(1) by (auto simp: fill_sg_buf_def)
    next
      case (Some p)
      have t: "takes k {#Kmem p#} k1" using Pair Some kmalloc_cases(2) by simp
      obtain r k2 where mp: "map_user_pages env (num_sg s) udata len k1 = (r, k2)" by fastforce
      have "r = None" "0 < len" "buf' = buf" "k' = kfree (Some p) k2"
        using assms Pair Some mp
        by (auto simp: fill_sg_buf_def Let_def split_def split: if_splits option.splits)
      then have "takes k1 {#} k2" using mp map_user_pages_None by auto
      with t \<open>k' = kfree (Some p) k2\<close> \<open>buf' = buf\<close> show ?thesis
        by (simp add: takes_def ledger_simps)
    qed
  qed
  then show "buf' = buf" "takes k {#} k'" by simp_all
qed

lemma fill_Some_nonempty:
  assumes "fill_sg_buf env s buf udata len ovf dir k = (Some m, buf', k')" "0 < len"
  obtains k1 k2 pb pgs sb hw rem n r where
    "kmalloc env k = (Some (sgm_ptr m), k1)"
    "map_user_pages env (num_sg s) udata len k1 = (Some ((pb, pgs), sb, hw, rem), k2)"
    "fill_spill (spill_buf_hw_addr s) (num_sg s) ovf rem ovf (length hw)
       (write_mapped 0 hw (buf, k2)) = (n, r, buf', k')"
    "sm_pages m = Some (pb, pgs)" "sm_sgl m = Some sb" "sm_direction m = dir" "sm_num_sg m = n"
    "sm_num_pages m = length pgs" "sm_length m = len - rem" "sm_overflow m = ovf - r"
proof -
  obtain mo k1 where km: "kmalloc env k = (mo, k1)" by fastforce
  obtain ro k2 where mp: "map_user_pages env (num_sg s) udata len k1 = (ro, k2)" by fastforce
  obtain p where p: "mo = Some p" using assms(1) km by (cases mo) (auto simp: fill_sg_buf_def)
  obtain pb pgs sb hw rem where ro: "ro = Some ((pb, pgs), sb, hw, rem)"
    using assms km mp p by (cases ro) (auto simp: fill_sg_buf_def)
  obtain n r bk where fs: "fill_spill (spill_buf_hw_addr s) (num_sg s) ovf rem ovf (length hw)
       (write_mapped 0 hw (buf, k2)) = (n, r, bk)" by (metis prod_cases3)
  from assms km mp p ro fs have
    "m = \<lparr>sgm_ptr = p, sm_pages = Some (pb, pgs), sm_sgl = Some sb, sm_direction = dir,
          sm_num_sg = n, sm_num_pages = length pgs, sm_length = len - rem, sm_overflow = ovf - r\<rparr>"
    "bk = (buf', k')"
    by (auto simp: fill_sg_buf_def)
  with that [of k1 pb pgs sb hw rem k2 n r] km mp p ro fs show thesis by simp
qed

lemma fill_Some_empty:
  assumes "fill_sg_buf env s buf udata 0 ovf dir k = (Some m, buf', k')"
  obtains k1 n r where
    "kmalloc env k = (Some (sgm_ptr m), k1)"
    "fill_spill (spill_buf_hw_addr s) (num_sg s) ovf 0 ovf 0 (buf, k1) = (n, r, buf', k')"
    "sm_pages m = None" "sm_sgl m = None" "sm_direction m = dir" "sm_num_sg m = n"
    "sm_num_pages m = 0" "sm_length m = 0" "sm_overflow m = ovf - r"
proof -
  obtain mo k1 where km: "kmalloc env k = (mo, k1)" by fastforce
  obtain p where p: "mo = Some p" using assms(1) km by (cases mo) (auto simp: fill_sg_buf_def)
  obtain n r bk where fs: "fill_spill (spill_buf_hw_addr s) (num_sg s) ovf 0 ovf 0 (buf, k1) = (n, r, bk)"
    by (metis prod_cases3)
  from assms km p fs that [of k1 n r] show thesis by (auto simp: fill_sg_buf_def)
qed

lemma unat_pages_required: "unat (pages_required udata len maxsg) \<le> maxsg"
proof -
  let ?n = "drop_bit 12 (udata + len - 1) - drop_bit 12 udata + 1"
  have "unat (of_nat maxsg :: u64) \<le> maxsg"
    by (simp add: unat_of_nat)
  then show ?thesis by (auto simp: pages_required_def Let_def word_less_nat_alt)
qed

lemma page_offset: "unat (ucast (udata AND 0xFFF :: u64) :: u32) = unat udata mod 4096"
proof -
  have "udata AND 0xFFF = take_bit 12 udata"
    using take_bit_eq_mask [of 12 udata] by (simp add: mask_eq_exp_minus_1)
  moreover have "unat (ucast (take_bit 12 udata) :: u32) = take_bit 12 (unat udata)"
    by (rule bit_eqI) (auto simp: bit_simps)
  ultimately show ?thesis by (simp add: take_bit_eq_mod)
qed

text \<open>
  Everything the transfers need to know about a successful \<open>fill_sg_buf\<close>: the resources it took,
  the elements it wrote, and that it covered a non-empty prefix of the buffer.
\<close>

lemma fill_Some:
  assumes fill: "fill_sg_buf env s buf udata len ovf dir k = (Some m, buf', k')"
    and env: "kenv_ok env" "dma_ok env" and room: "sg_room (num_sg s) buf"
    and big: "unat len < 2 ^ 63"
  shows "takes k (mapping_resources m) k'" "mapping_ok m" "length buf' = length buf"
    "sm_num_sg m \<le> num_sg s" "sm_direction m = dir"
    "unat (sm_length m) \<le> unat len" "0 < len \<Longrightarrow> 0 < unat (sm_length m) \<and> 0 < sm_num_sg m"
proof -
  have c: "takes k (mapping_resources m) k' \<and> mapping_ok m \<and> length buf' = length buf \<and>
    sm_num_sg m \<le> num_sg s \<and> sm_direction m = dir \<and> unat (sm_length m) \<le> unat len \<and>
    (0 < len \<longrightarrow> 0 < unat (sm_length m) \<and> 0 < sm_num_sg m)"
  proof (cases "0 < len")
    case True
    obtain k1 k2 pb pgs sb hw rem n r where
      km: "kmalloc env k = (Some (sgm_ptr m), k1)" and
      mp: "map_user_pages env (num_sg s) udata len k1 = (Some ((pb, pgs), sb, hw, rem), k2)" and
      fs: "fill_spill (spill_buf_hw_addr s) (num_sg s) ovf rem ovf (length hw)
         (write_mapped 0 hw (buf, k2)) = (n, r, buf', k')" and
      m: "sm_pages m = Some (pb, pgs)" "sm_sgl m = Some sb" "sm_direction m = dir" "sm_num_sg m = n"
    "sm_num_pages m = length pgs" "sm_length m = len - rem" "sm_overflow m = ovf - r"
      by (rule fill_Some_nonempty [OF fill True])
    note M = map_user_pages_Some [OF mp]
    obtain t es where es: "hw = dma_map env t es" "length es = length pgs" using M(3) by blast
    then have "es \<noteq> []" using M(2) by auto
    then have hl: "length hw \<le> length pgs" and hne: "hw \<noteq> []"
      using es env unfolding kenv_ok_def dma_ok_def by metis+
    have "length pgs \<le> unat (pages_required udata len (num_sg s))"
      using M(5) env(1) by (auto simp: kenv_ok_def)
    then have pl: "length pgs \<le> num_sg s" using unat_pages_required le_trans by blast
    have wk: "snd (write_mapped 0 hw (buf, k2)) = k2" "length (fst (write_mapped 0 hw (buf, k2))) = length buf"
      using write_mapped_frame(3) [where maxsg = "num_sg s" and bk = "(buf, k2)" and i = 0 and hw = hw]
        room hl pl by (simp_all add: write_mapped_frame(1))
    have room2: "sg_room (num_sg s) (fst (write_mapped 0 hw (buf, k2)))"
      using room wk(2) by (simp add: sg_room_def)
    note F = fill_spill_frame [OF fs]
    have off: "unat (ucast (udata AND 0xFFF) :: u32) < 4096" by (simp add: page_offset)
    note S = scatter_covers [OF off big, of _ pgs, folded M(4)]
    have ur: "unat rem = unat len - min (unat len) (4096 * length pgs - unat udata mod 4096)"
      using S by (simp add: page_offset)
    then have ul: "unat (len - rem) = min (unat len) (4096 * length pgs - unat udata mod 4096)"
      by (simp add: unat_diff_le)
    have "0 < 4096 * length pgs - unat udata mod 4096"
    proof -
      have "unat udata mod 4096 < 4096" by simp
      moreover have "4096 \<le> 4096 * length pgs" using M(2) by (cases pgs) simp_all
      ultimately show ?thesis by linarith
    qed
    moreover have "0 < unat len" using True by (simp add: word_less_nat_alt)
    ultimately have "0 < unat (len - rem)" using ul by simp
    moreover have "takes k1 (add_mset (DmaMapped sb) (add_mset (Kmem sb) (add_mset (Kmem pb)
        (mset (map PinnedPage pgs))))) k2"
      using M(1) hne by (simp add: add_mset_commute)
    then have "takes k (mapping_resources m) k2"
      using kmalloc_cases(2) [OF km]
      by (simp add: m mapping_resources_def ac_simps takes_def)
    moreover have "k' = k2" using F room2 wk(1) by simp
    moreover have "0 < n" using hne F by (cases hw) auto
    ultimately show ?thesis using F wk hl pl ul True
      by (simp add: mapping_ok_def m)
  next
    case False
    then have z: "len = 0" by (simp add: word_gt_0)
    obtain k1 n r where
      km: "kmalloc env k = (Some (sgm_ptr m), k1)" and
      fs: "fill_spill (spill_buf_hw_addr s) (num_sg s) ovf 0 ovf 0 (buf, k1) = (n, r, buf', k')" and
      m: "sm_pages m = None" "sm_sgl m = None" "sm_direction m = dir" "sm_num_sg m = n"
    "sm_num_pages m = 0" "sm_length m = 0" "sm_overflow m = ovf - r"
      by (rule fill_Some_empty [OF fill [unfolded z]])
    note F = fill_spill_frame [OF fs]
    have "takes k {#Kmem (sgm_ptr m)#} k1" using kmalloc_cases(2) [OF km] .
    moreover have "k' = k1" using F room by simp
    ultimately show ?thesis using F z
      by (simp add: m mapping_resources_def mapping_ok_def)
  qed
  then show "takes k (mapping_resources m) k'" "mapping_ok m" "length buf' = length buf"
    "sm_num_sg m \<le> num_sg s" "sm_direction m = dir"
    "unat (sm_length m) \<le> unat len" "0 < len \<Longrightarrow> 0 < unat (sm_length m) \<and> 0 < sm_num_sg m"
    by blast+
qed

section \<open>The overflow elements\<close>

lemma fill_spill_runs:
  assumes "\<And>i. i < maxsg - n \<Longrightarrow> r - of_nat i * 4096 \<noteq> (0 :: u64)" "n \<le> maxsg" "\<not> ovf < 4096"
  shows "\<exists>bk'. fill_spill spill maxsg ovf 0 r n bk = (maxsg, r - of_nat (maxsg - n) * 4096, bk')"
  using assms
proof (induction "maxsg - n" arbitrary: n r bk)
  case 0
  then have "n = maxsg" by simp
  then show ?case by (simp add: fill_spill.simps [of _ maxsg])
next
  case (Suc x)
  let ?bk = "write_sg_elem n spill (drop_bit 2 (of_nat SPILL_BUF_SIZE)) bk"
  have n: "n < maxsg" "x = maxsg - Suc n" using Suc.hyps(2) by simp_all
  have r: "r > 0" using Suc.prems(1) [of 0] n(1) by (simp add: word_gt_0)
  have "fill_spill spill maxsg ovf 0 r n bk = fill_spill spill maxsg ovf 0 (r - 4096) (Suc n) ?bk"
    using n r Suc.prems(3) by (subst fill_spill.simps) simp
  moreover have "\<exists>bk'. fill_spill spill maxsg ovf 0 (r - 4096) (Suc n) ?bk =
      (maxsg, r - 4096 - of_nat (maxsg - Suc n) * 4096, bk')"
  proof (rule Suc.hyps(1) [OF n(2)])
    fix i assume "i < maxsg - Suc n"
    then show "r - 4096 - of_nat i * 4096 \<noteq> 0"
      using Suc.prems(1) [of "Suc i"] by (simp add: algebra_simps)
  qed (use n Suc.prems in simp_all)
  moreover have "maxsg - n = Suc (maxsg - Suc n)" using n by simp
  ultimately show ?case by (simp add: algebra_simps)
qed

lemma not_multiple_never_zero:
  assumes "unat (r :: u64) mod 4096 \<noteq> 0"
  shows "r - of_nat i * 4096 \<noteq> 0"
proof
  assume "r - of_nat i * 4096 = 0"
  then have "unat r = unat (of_nat (i * 4096) :: u64)" by simp
  then have "unat r = (i * 4096) mod 2 ^ 64" by (simp only: unat_of_nat) simp
  then have "unat r mod 4096 = (i * 4096) mod 2 ^ 64 mod 4096" by simp
  also have "\<dots> = 0" by (simp add: mod_mod_cancel)
  finally show False using assms by simp
qed

section \<open>Properties\<close>


lemma generous_env_ok: "kenv_ok generous_env" "dma_ok generous_env"
  by (simp_all add: kenv_ok_def dma_ok_def generous_env_def)

definition small_fpga :: fpga_state where
  "small_fpga = \<lparr>sc_ptr = 0, irq = 0, bar0_addr = 0, bar0_len = 1024, bar0_flags = 0,
      intr_disabled = False, spill_buf_addr = Some 0, spill_buf_hw_addr = 0x9000, num_sg = 4,
      sg_buf_size = 64, fpga_id = 0, fpga_name = ''fpga'', vendor_id = 0x10EE, device_id = 0,
      num_chnls = 0, recv_ptr = Some 0, send_ptr = Some 0, recv = [], send = []\<rparr>"

lemma small_fpga_pages: "pages_required 0x1FF0 0x1020 (num_sg small_fpga) = 3"
  by (simp add: pages_required_def small_fpga_def)

lemma small_fpga_room: "sg_room (num_sg small_fpga) (replicate 16 0)"
  by (simp add: sg_room_def small_fpga_def)


text \<open>C30: The scatterlist built for a user buffer covers a prefix of the buffer's addresses exactly,
  each byte once and in order, page by page over the pages that were pinned (all of it unless
  fewer pages were pinned than it spans); and the common buffer then holds, as the FPGA will
  read it, the bus addresses and word counts of the mapped entries followed by the spill buffer's.\<close>

theorem fill_sg_buf_covers:
  assumes fill: "fill_sg_buf env s buf udata len ovf dir k = (Some m, buf', k')"
    and env: "kenv_ok env" "dma_ok env" and room: "sg_room (num_sg s) buf"
    and len: "0 < len" "unat len < 2 ^ 63"
  shows "\<exists>pb pgs es t. sm_pages m = Some (pb, pgs) \<and> map sg_page es = pgs \<and>
    entry_addrs (unat udata div 4096) es = [unat udata..<unat udata + unat (sm_length m)] \<and>
    unat (sm_length m) = min (unat len) (4096 * length pgs - unat udata mod 4096) \<and>
    map (sg_elem buf') [0..<sm_num_sg m] =
      map (\<lambda>(a, l). (a, drop_bit 2 l)) (dma_map env t es) @
      replicate (sm_num_sg m - length (dma_map env t es)) (spill_buf_hw_addr s, 1024)"
proof -
  obtain k1 k2 pb pgs sb hw rem n r where
    mp: "map_user_pages env (num_sg s) udata len k1 = (Some ((pb, pgs), sb, hw, rem), k2)" and
    fs: "fill_spill (spill_buf_hw_addr s) (num_sg s) ovf rem ovf (length hw)
       (write_mapped 0 hw (buf, k2)) = (n, r, buf', k')" and
    m: "sm_pages m = Some (pb, pgs)" "sm_num_sg m = n" "sm_length m = len - rem"
    by (rule fill_Some_nonempty [OF fill len(1)])
  note M = map_user_pages_Some [OF mp]
  let ?off = "ucast (udata AND 0xFFF) :: u32"
  have off: "unat ?off = unat udata mod 4096" by (rule page_offset)
  obtain t es where es: "hw = dma_map env t es" "length es = length pgs" "es = fst (scatter ?off len pgs)"
    using M(3) by blast
  have "unat ?off < 4096" by (simp add: off)
  note S = scatter_covers [OF this len(2), of "unat udata div 4096" pgs, folded M(4) es(3)]
  have "unat rem \<le> unat len" using S by simp
  then have sl: "unat (sm_length m) = min (unat len) (4096 * length pgs - unat udata mod 4096)"
    using S by (simp add: m(3) unat_diff_le off)
  have base: "4096 * (unat udata div 4096) + unat ?off = unat udata"
    by (simp add: off)
  have addrs: "entry_addrs (unat udata div 4096) es = [unat udata..<unat udata + unat (sm_length m)]"
    using S unfolding base by (simp add: sl off)
  have hl: "length hw \<le> length pgs" using es env(1) by (metis kenv_ok_def)
  have "length pgs \<le> unat (pages_required udata len (num_sg s))" using M(5) env(1) by (auto simp: kenv_ok_def)
  then have hs: "length hw \<le> num_sg s" using unat_pages_required [of udata len "num_sg s"] hl by linarith
  have room2: "sg_room (num_sg s) (fst (write_mapped 0 hw (buf, k2)))"
    using room by (simp add: sg_room_def write_mapped_frame(1))
  have n: "length hw \<le> n" using fill_spill_frame [OF fs] by simp
  have "map (sg_elem buf') [0..<n] =
      map (\<lambda>(a, l). (a, drop_bit 2 l)) hw @ replicate (n - length hw) (spill_buf_hw_addr s, 1024)"
  proof (rule nth_equalityI)
    fix i assume "i < length (map (sg_elem buf') [0..<n])"
    then show "map (sg_elem buf') [0..<n] ! i =
      (map (\<lambda>(a, l). (a, drop_bit 2 l)) hw @ replicate (n - length hw) (spill_buf_hw_addr s, 1024)) ! i"
      using fill_spill_elems [OF fs room2, of i] n
        write_mapped_elems [of "num_sg s" "(buf, k2)" 0 hw i] room hs
      by (simp add: nth_append split_def)
  qed (use n in simp)
  then show ?thesis using S addrs sl m(1,2) es(1) by blast
qed

theorem fill_sg_buf_covers_witness:
  "\<exists>m buf' k' pb pgs es. fill_sg_buf generous_env small_fpga (replicate 16 0) 0x1FF0 0x1020 0
      DMA_TO_DEVICE fresh_kernel = (Some m, buf', k') \<and> sm_pages m = Some (pb, pgs) \<and>
    entry_addrs 1 es = [0x1FF0..<0x1FF0 + unat (sm_length m)]"
proof -
  obtain mo buf' k' where f: "fill_sg_buf generous_env small_fpga (replicate 16 0) 0x1FF0 0x1020 0
      DMA_TO_DEVICE fresh_kernel = (mo, buf', k')" by (metis prod_cases3)
  have "fst (fill_sg_buf generous_env small_fpga (replicate 16 0) 0x1FF0 0x1020 0
      DMA_TO_DEVICE fresh_kernel) \<noteq> None"
    by (simp add: fill_sg_buf_def map_user_pages_def kmalloc_def generous_env_def Let_def split_def
        small_fpga_pages)
  then obtain m where m: "mo = Some m" using f by (cases mo) auto
  have "unat (0x1FF0 :: u64) = 0x1FF0" "unat (0x1FF0 :: u64) div 4096 = 1" by simp_all
  with fill_sg_buf_covers [OF f [unfolded m] generous_env_ok small_fpga_room] f m show ?thesis
    by simp blast
qed

text \<open>The loop that maps the overflow subtracts the total \<open>overflow\<close> where the remainder was
  meant, so an overflow of more than one spill buffer that is not a multiple of it never reaches
  zero: every element of the common buffer is used up, and the amount reported as mapped exceeds
  the overflow there was.\<close>

theorem fill_sg_buf_overflow_overshoots:
  assumes "fill_sg_buf env s buf udata 0 ovf dir k = (Some m, buf', k')"
    and "4096 < unat ovf" and "unat ovf mod 4096 \<noteq> 0"
    and "unat ovf < 4096 * num_sg s" and "num_sg s < 2 ^ 32"
  shows "sm_num_sg m = num_sg s \<and> unat (sm_overflow m) = 4096 * num_sg s \<and> ovf < sm_overflow m"
proof -
  obtain k1 n r where
    fs: "fill_spill (spill_buf_hw_addr s) (num_sg s) ovf 0 ovf 0 (buf, k1) = (n, r, buf', k')" and
    m: "sm_num_sg m = n" "sm_overflow m = ovf - r"
    by (rule fill_Some_empty [OF assms(1)])
  have "\<not> ovf < 4096" using assms(2) by (simp add: word_less_nat_alt)
  then have "\<exists>bk'. fill_spill (spill_buf_hw_addr s) (num_sg s) ovf 0 ovf 0 (buf, k1) =
      (num_sg s, ovf - of_nat (num_sg s - 0) * 4096, bk')"
    using not_multiple_never_zero [OF assms(3)] by (intro fill_spill_runs) simp_all
  with fs have nr: "n = num_sg s" "r = ovf - of_nat (num_sg s) * 4096" by auto
  then have "sm_overflow m = of_nat (num_sg s * 4096)" by (simp add: m(2))
  then have u: "unat (sm_overflow m) = 4096 * num_sg s" using assms(5) by (simp only: unat_of_nat) simp
  with assms(4) nr(1) m(1) show ?thesis by (simp add: word_less_nat_alt)
qed

theorem fill_sg_buf_overflow_overshoots_witness:
  "\<exists>m buf' k'. fill_sg_buf generous_env small_fpga (replicate 16 0) 0 0 5000 DMA_FROM_DEVICE fresh_kernel =
      (Some m, buf', k') \<and> sm_num_sg m = 4 \<and> unat (sm_overflow m) = 16384"
proof -
  obtain mo buf' k' where f: "fill_sg_buf generous_env small_fpga (replicate 16 0) 0 0 5000
      DMA_FROM_DEVICE fresh_kernel = (mo, buf', k')" by (metis prod_cases3)
  have "fst (fill_sg_buf generous_env small_fpga (replicate 16 0) 0 0 5000
      DMA_FROM_DEVICE fresh_kernel) \<noteq> None"
    by (simp add: fill_sg_buf_def kmalloc_def generous_env_def Let_def split_def)
  then obtain m where m: "mo = Some m" using f by (cases mo) auto
  from fill_sg_buf_overflow_overshoots [OF f [unfolded m]] f m show ?thesis
    by (simp add: small_fpga_def)
qed

end
