(* ===== verification/Riffa_Intr.thy ===== *)
theory Riffa_Intr
  imports Riffa_Types
begin

text \<open>
  The interrupt handler of the Linux driver (\<open>process_intr_vector\<close>, \<open>intrpt_handler\<close>): it turns
  the bits of the interrupt vectors into messages on the queues of the channels and wakes the
  threads that wait there.
\<close>

section \<open>The handler\<close>

text \<open>\<open>vect & (1 << k)\<close>\<close>

definition vect_bit :: "u32 \<Rightarrow> nat \<Rightarrow> bool" where
  "vect_bit vect k \<longleftrightarrow> vect AND push_bit k 1 \<noteq> 0"

text \<open>The body of the loop over the channels of a vector.\<close>

definition intr_channel :: "registers \<Rightarrow> u32 \<Rightarrow> nat \<Rightarrow> nat \<Rightarrow> device \<Rightarrow> device" where
  "intr_channel rd vect i chnl d0 =
     (let (recv1, d1) =
            (if vect_bit vect (5 * i + 1)
             then (True, upd_recv chnl (push_msg EVENT_SG_BUF_READ 0) d0) else (False, d0));
          (recv2, d2) =
            (if vect_bit vect (5 * i + 2)
             then let (len, d) = read_reg rd (CHNL_REG chnl TX_TNFR_LEN_REG_OFF) d1
                  in (True, upd_recv chnl (push_msg EVENT_TXN_DONE len) d) else (recv1, d1));
          (recv3, d3) =
            (if vect_bit vect (5 * i + 0)
             then let (offlast, d) = read_reg rd (CHNL_REG chnl TX_OFFLAST_REG_OFF) d2;
                      (len, d) = read_reg rd (CHNL_REG chnl TX_LEN_REG_OFF) d;
                      d = upd_recv chnl (push_msg EVENT_TXN_OFFLAST offlast) d
                  in (True, upd_recv chnl (push_msg EVENT_TXN_LEN len) d) else (recv2, d2));
          (send1, d4) =
            (if vect_bit vect (5 * i + 3)
             then (True, upd_send chnl (push_msg EVENT_SG_BUF_READ 0) d3) else (False, d3));
          (send2, d5) =
            (if vect_bit vect (5 * i + 4)
             then let (len, d) = read_reg rd (CHNL_REG chnl RX_TNFR_LEN_REG_OFF) d4
                  in (True, upd_send chnl (push_msg EVENT_TXN_DONE len) d) else (send1, d4));
          d6 = (if recv3 then upd_recv chnl wake_up d5 else d5)
      in if send2 then upd_send chnl wake_up d6 else d6)"

function intr_loop :: "registers \<Rightarrow> nat \<Rightarrow> nat \<Rightarrow> u32 \<Rightarrow> device \<Rightarrow> device" where
  "intr_loop rd i off vect d =
     (if i < 6 \<and> i + off < num_chnls (sc d)
      then intr_loop rd (Suc i) off vect (intr_channel rd vect i (i + off) d)
      else d)"
  by pat_completeness auto
termination by (relation "measure (\<lambda>(rd, i, off, vect, d). 6 - i)") auto

declare intr_loop.simps [simp del]

definition process_intr_vector :: "registers \<Rightarrow> nat \<Rightarrow> u32 \<Rightarrow> device \<Rightarrow> device" where
  "process_intr_vector rd off vect d =
     (if vect AND 0xC0000000 \<noteq> 0 then d else intr_loop rd 0 off vect d)"

definition intrpt_handler :: "registers \<Rightarrow> device \<Rightarrow> device" where
  "intrpt_handler rd d =
     (if \<not> intr_disabled (sc d)
      then let (vect0, d) = read_reg rd IRQ_REG0_OFF d;
               (vect1, d) = (if 6 < num_chnls (sc d) then read_reg rd IRQ_REG1_OFF d else (0, d));
               d = process_intr_vector rd 0 vect0 d
           in if 6 < num_chnls (sc d) then process_intr_vector rd 6 vect1 d else d
      else d)"

section \<open>What a vector means\<close>

text \<open>
  The messages the five bits of channel \<open>chnl\<close> at position \<open>i\<close> of a vector stand for, with the
  register values \<open>regs\<close>, in the order in which the waiting thread must see them.
\<close>

definition recv_events :: "(nat \<Rightarrow> u32) \<Rightarrow> u32 \<Rightarrow> nat \<Rightarrow> nat \<Rightarrow> (u32 \<times> u32) list" where
  "recv_events regs vect i chnl =
     (if bit vect (5 * i + 1) then [(EVENT_SG_BUF_READ, 0)] else []) @
     (if bit vect (5 * i + 2)
      then [(EVENT_TXN_DONE, regs (CHNL_REG chnl TX_TNFR_LEN_REG_OFF))] else []) @
     (if bit vect (5 * i)
      then [(EVENT_TXN_OFFLAST, regs (CHNL_REG chnl TX_OFFLAST_REG_OFF)),
            (EVENT_TXN_LEN, regs (CHNL_REG chnl TX_LEN_REG_OFF))] else [])"

definition send_events :: "(nat \<Rightarrow> u32) \<Rightarrow> u32 \<Rightarrow> nat \<Rightarrow> nat \<Rightarrow> (u32 \<times> u32) list" where
  "send_events regs vect i chnl =
     (if bit vect (5 * i + 3) then [(EVENT_SG_BUF_READ, 0)] else []) @
     (if bit vect (5 * i + 4)
      then [(EVENT_TXN_DONE, regs (CHNL_REG chnl RX_TNFR_LEN_REG_OFF))] else [])"

text \<open>Delivering messages: push them in order and wake the thread if there is one.\<close>

definition deliver :: "(u32 \<times> u32) list \<Rightarrow> chnl_dir \<Rightarrow> chnl_dir" where
  "deliver ms c = (let c = push_msgs ms c in if ms = [] then c else wake_up c)"

lemma vect_bit: "k < 32 \<Longrightarrow> vect_bit vect k \<longleftrightarrow> bit vect k"
proof -
  assume "k < 32"
  then have "bit (vect AND push_bit k 1) n \<longleftrightarrow> n = k \<and> bit vect k" for n
    by (auto simp: bit_simps dest: bit_imp_le_length)
  then show ?thesis unfolding vect_bit_def by (metis bit_0_eq bit_eq_iff bot_apply bot_bool_def)
qed

lemma deliver_frame [frame_simps]:
  "msgs (deliver ms c) = msgs (push_msgs ms c)"
  by (simp add: deliver_def Let_def wake_up_def)

lemma length_events: "length (recv_events regs vect i chnl) \<le> 4" "length (send_events regs vect i chnl) \<le> 2"
  by (simp_all add: recv_events_def send_events_def)

lemma intr_channel_effect:
  assumes "i < 6" "chnl < length (recv (sc d))" "chnl < length (send (sc d))"
  shows "recv (sc (intr_channel (\<lambda>_. regs) vect i chnl d)) =
      (recv (sc d))[chnl := deliver (recv_events regs vect i chnl) (recv (sc d) ! chnl)]"
    "send (sc (intr_channel (\<lambda>_. regs) vect i chnl d)) =
      (send (sc d))[chnl := deliver (send_events regs vect i chnl) (send (sc d) ! chnl)]"
  using assms
  by (simp_all add: intr_channel_def vect_bit recv_events_def send_events_def deliver_def Let_def
      split_def frame_simps mmio_simps push_msgs_simps)

lemma intr_channel_frame [frame_simps]:
  "num_chnls (sc (intr_channel rd vect i chnl d)) = num_chnls (sc d)"
  "kern (intr_channel rd vect i chnl d) = kern d"
  "length (recv (sc (intr_channel rd vect i chnl d))) = length (recv (sc d))"
  "length (send (sc (intr_channel rd vect i chnl d))) = length (send (sc d))"
  by (simp_all add: intr_channel_def Let_def split_def frame_simps mmio_simps)

lemma intr_loop_frame [frame_simps]:
  "num_chnls (sc (intr_loop rd i off vect d)) = num_chnls (sc d)"
  "kern (intr_loop rd i off vect d) = kern d"
proof (induction rd i off vect d rule: intr_loop.induct)
  case (1 rd i off vect d)
  { case 1 then show ?case using "1.IH" by (simp add: intr_loop.simps [of rd i] frame_simps) next
    case 2 then show ?case using "1.IH" by (simp add: intr_loop.simps [of rd i] frame_simps) }
qed

lemma process_intr_vector_frame [frame_simps]:
  "num_chnls (sc (process_intr_vector rd off vect d)) = num_chnls (sc d)"
  "kern (process_intr_vector rd off vect d) = kern d"
  by (simp_all add: process_intr_vector_def frame_simps)

lemma intr_loop_effect:
  "length (recv (sc d)) = num_chnls (sc d) \<Longrightarrow> length (send (sc d)) = num_chnls (sc d) \<Longrightarrow> c < num_chnls (sc d) \<Longrightarrow>
   recv (sc (intr_loop (\<lambda>_. regs) i off vect d)) ! c =
     (if i + off \<le> c \<and> c < 6 + off then deliver (recv_events regs vect (c - off) c) (recv (sc d) ! c)
      else recv (sc d) ! c) \<and>
   send (sc (intr_loop (\<lambda>_. regs) i off vect d)) ! c =
     (if i + off \<le> c \<and> c < 6 + off then deliver (send_events regs vect (c - off) c) (send (sc d) ! c)
      else send (sc d) ! c) \<and>
   num_chnls (sc (intr_loop (\<lambda>_. regs) i off vect d)) = num_chnls (sc d) \<and>
   length (recv (sc (intr_loop (\<lambda>_. regs) i off vect d))) = num_chnls (sc d) \<and>
   length (send (sc (intr_loop (\<lambda>_. regs) i off vect d))) = num_chnls (sc d)"
proof (induction "6 - i" arbitrary: i d)
  case 0
  then show ?case by (auto simp: intr_loop.simps [of _ i])
next
  case (Suc n)
  show ?case
  proof (cases "i + off < num_chnls (sc d)")
    case True
    let ?d = "intr_channel (\<lambda>_. regs) vect i (i + off) d"
    have i: "i < 6" using Suc.hyps(2) by simp
    have IH: "recv (sc (intr_loop (\<lambda>_. regs) (Suc i) off vect ?d)) ! c =
     (if Suc i + off \<le> c \<and> c < 6 + off then deliver (recv_events regs vect (c - off) c) (recv (sc ?d) ! c)
      else recv (sc ?d) ! c) \<and>
   send (sc (intr_loop (\<lambda>_. regs) (Suc i) off vect ?d)) ! c =
     (if Suc i + off \<le> c \<and> c < 6 + off then deliver (send_events regs vect (c - off) c) (send (sc ?d) ! c)
      else send (sc ?d) ! c) \<and>
   num_chnls (sc (intr_loop (\<lambda>_. regs) (Suc i) off vect ?d)) = num_chnls (sc ?d) \<and>
   length (recv (sc (intr_loop (\<lambda>_. regs) (Suc i) off vect ?d))) = num_chnls (sc ?d) \<and>
   length (send (sc (intr_loop (\<lambda>_. regs) (Suc i) off vect ?d))) = num_chnls (sc ?d)"
      using Suc.hyps(2) Suc.prems by (intro Suc.hyps(1)) (simp_all add: frame_simps)
    have eff: "recv (sc ?d) = (recv (sc d))[i + off := deliver (recv_events regs vect i (i + off)) (recv (sc d) ! (i + off))]"
      "send (sc ?d) = (send (sc d))[i + off := deliver (send_events regs vect i (i + off)) (send (sc d) ! (i + off))]"
      using intr_channel_effect [OF i, of "i + off" d regs vect] True Suc.prems by simp_all
    have u: "intr_loop (\<lambda>_. regs) i off vect d = intr_loop (\<lambda>_. regs) (Suc i) off vect ?d"
      using i True by (simp add: intr_loop.simps [of _ i])
    show ?thesis
    proof (cases "c = i + off")
      case True
      then show ?thesis unfolding u using IH eff i Suc.prems by (simp add: frame_simps)
    next
      case False
      then show ?thesis unfolding u using IH eff Suc.prems by (auto simp: frame_simps)
    qed
  next
    case False
    then show ?thesis using Suc.prems by (simp add: intr_loop.simps [of _ i])
  qed
qed

definition vector_events ::
  "((nat \<Rightarrow> u32) \<Rightarrow> u32 \<Rightarrow> nat \<Rightarrow> nat \<Rightarrow> (u32 \<times> u32) list) \<Rightarrow> (nat \<Rightarrow> u32) \<Rightarrow> nat \<Rightarrow> (u32 \<times> u32) list" where
  "vector_events ev regs c =
     (let vect = regs (if c < 6 then IRQ_REG0_OFF else IRQ_REG1_OFF) in
      if vect AND 0xC0000000 \<noteq> 0 then [] else ev regs vect (if c < 6 then c else c - 6) c)"

lemma deliver_Nil: "deliver [] c = c"
  by (simp add: deliver_def push_msgs_simps)

lemma process_intr_vector_effect:
  assumes "length (recv (sc d)) = num_chnls (sc d)" "length (send (sc d)) = num_chnls (sc d)"
    "c < num_chnls (sc d)"
  shows "recv (sc (process_intr_vector (\<lambda>_. regs) off vect d)) ! c =
     (if off \<le> c \<and> c < 6 + off \<and> vect AND 0xC0000000 = 0
      then deliver (recv_events regs vect (c - off) c) (recv (sc d) ! c) else recv (sc d) ! c)"
    "send (sc (process_intr_vector (\<lambda>_. regs) off vect d)) ! c =
     (if off \<le> c \<and> c < 6 + off \<and> vect AND 0xC0000000 = 0
      then deliver (send_events regs vect (c - off) c) (send (sc d) ! c) else send (sc d) ! c)"
    "num_chnls (sc (process_intr_vector (\<lambda>_. regs) off vect d)) = num_chnls (sc d)"
    "length (recv (sc (process_intr_vector (\<lambda>_. regs) off vect d))) = num_chnls (sc d)"
    "length (send (sc (process_intr_vector (\<lambda>_. regs) off vect d))) = num_chnls (sc d)"
  using intr_loop_effect [OF assms, of regs 0 off vect] assms
  by (simp_all add: process_intr_vector_def)

lemma intrpt_handler_effect:
  assumes "\<not> intr_disabled (sc d)" "length (recv (sc d)) = num_chnls (sc d)"
    "length (send (sc d)) = num_chnls (sc d)" "num_chnls (sc d) \<le> 12" "c < num_chnls (sc d)"
  shows "recv (sc (intrpt_handler (\<lambda>_. regs) d)) ! c =
      deliver (vector_events recv_events regs c) (recv (sc d) ! c)"
    "send (sc (intrpt_handler (\<lambda>_. regs) d)) ! c =
      deliver (vector_events send_events regs c) (send (sc d) ! c)"
proof -
  define d1 where "d1 = (if 6 < num_chnls (sc d)
      then snd (read_reg (\<lambda>_. regs) IRQ_REG1_OFF (snd (read_reg (\<lambda>_. regs) IRQ_REG0_OFF d)))
      else snd (read_reg (\<lambda>_. regs) IRQ_REG0_OFF d))"
  have d1: "sc d1 = sc d" by (simp add: d1_def mmio_simps)
  define d2 where "d2 = process_intr_vector (\<lambda>_. regs) 0 (regs IRQ_REG0_OFF) d1"
  have h: "intrpt_handler (\<lambda>_. regs) d =
      (if 6 < num_chnls (sc d) then process_intr_vector (\<lambda>_. regs) 6 (regs IRQ_REG1_OFF) d2 else d2)"
    using assms(1) by (simp add: intrpt_handler_def d2_def d1_def Let_def split_def mmio_simps frame_simps)
  note e1 = process_intr_vector_effect [of d1, unfolded d1, OF assms(2,3,5), of regs 0 "regs IRQ_REG0_OFF",
      folded d2_def]
  have "length (recv (sc d2)) = num_chnls (sc d2)" "length (send (sc d2)) = num_chnls (sc d2)"
    "c < num_chnls (sc d2)" using e1(3-5) assms(5) by simp_all
  note e2 = process_intr_vector_effect [OF this, of regs 6 "regs IRQ_REG1_OFF"]
  show "recv (sc (intrpt_handler (\<lambda>_. regs) d)) ! c =
      deliver (vector_events recv_events regs c) (recv (sc d) ! c)"
    unfolding h using e1(1) e2(1) assms(4,5) by (auto simp: vector_events_def Let_def deliver_Nil)
  show "send (sc (intrpt_handler (\<lambda>_. regs) d)) ! c =
      deliver (vector_events send_events regs c) (send (sc d) ! c)"
    unfolding h using e1(2) e2(2) assms(4,5) by (auto simp: vector_events_def Let_def deliver_Nil)
qed

lemma intr_disabled_frame [frame_simps]:
  "intr_disabled (sc (upd_recv c f d)) = intr_disabled (sc d)" "intr_disabled (sc (upd_send c f d)) = intr_disabled (sc d)"
  by (simp_all add: upd_recv_def upd_send_def)

lemma intr_loop_keeps:
  "intr_disabled (sc (intr_loop rd i off vect d)) = intr_disabled (sc d) \<and>
   length (recv (sc (intr_loop rd i off vect d))) = length (recv (sc d)) \<and>
   length (send (sc (intr_loop rd i off vect d))) = length (send (sc d))"
proof (induction rd i off vect d rule: intr_loop.induct)
  case (1 rd i off vect d)
  have "intr_disabled (sc (intr_channel rd vect i (i + off) d)) = intr_disabled (sc d)"
    by (simp add: intr_channel_def Let_def split_def frame_simps mmio_simps)
  with "1.IH" show ?case by (simp add: intr_loop.simps [of rd i] frame_simps)
qed

lemma intrpt_handler_frame:
  "intr_disabled (sc (intrpt_handler rd d)) = intr_disabled (sc d)" "num_chnls (sc (intrpt_handler rd d)) = num_chnls (sc d)"
  "length (recv (sc (intrpt_handler rd d))) = length (recv (sc d))" "length (send (sc (intrpt_handler rd d))) = length (send (sc d))"
  by (simp_all add: intrpt_handler_def process_intr_vector_def intr_loop_keeps Let_def split_def frame_simps mmio_simps)

lemma length_vector_events:
  "length (vector_events recv_events regs c) \<le> 4" "length (vector_events send_events regs c) \<le> 2"
  by (simp_all add: vector_events_def Let_def length_events)

section \<open>Properties\<close>

definition device_ok :: "device \<Rightarrow> bool" where
  "device_ok d \<longleftrightarrow> length (recv (sc d)) = num_chnls (sc d) \<and>
     length (send (sc d)) = num_chnls (sc d) \<and> num_chnls (sc d) \<le> MAX_CHNLS"

text \<open>C27: With interrupts enabled, the handler appends to the queue of every channel, and of no
  other place, exactly the messages its five bits stand for, cut at the capacity of the queue:
  the scatter gather message before the completion of the old transaction, and the offset and
  length of a new one last, in this order, with the values read from the registers of that
  channel; it wakes the waiting thread once if there was a message.  A vector with one of its two
  top bits set is ignored as a whole.\<close>

theorem intrpt_handler_messages:
  assumes "\<not> intr_disabled (sc d)" and "device_ok d" and "c < num_chnls (sc d)"
    and "queue_inv (msgs (recv (sc d) ! c))" and "credit (msgs (recv (sc d) ! c)) 4"
    and "queue_inv (msgs (send (sc d) ! c))" and "credit (msgs (send (sc d) ! c)) 2"
  shows "pending (recv (sc (intrpt_handler (\<lambda>_. regs) d)) ! c) =
      take (queue_cap (msgs (recv (sc d) ! c)))
        (pending (recv (sc d) ! c) @ vector_events recv_events regs c) \<and>
    pending (send (sc (intrpt_handler (\<lambda>_. regs) d)) ! c) =
      take (queue_cap (msgs (send (sc d) ! c)))
        (pending (send (sc d) ! c) @ vector_events send_events regs c) \<and>
    queue_inv (msgs (recv (sc (intrpt_handler (\<lambda>_. regs) d)) ! c)) \<and>
    queue_inv (msgs (send (sc (intrpt_handler (\<lambda>_. regs) d)) ! c)) \<and>
    wakes (recv (sc (intrpt_handler (\<lambda>_. regs) d)) ! c) =
      wakes (recv (sc d) ! c) + of_bool (vector_events recv_events regs c \<noteq> []) \<and>
    wakes (send (sc (intrpt_handler (\<lambda>_. regs) d)) ! c) =
      wakes (send (sc d) ! c) + of_bool (vector_events send_events regs c \<noteq> [])"
proof -
  have dev: "length (recv (sc d)) = num_chnls (sc d)" "length (send (sc d)) = num_chnls (sc d)"
    "num_chnls (sc d) \<le> 12" using assms(2) by (simp_all add: device_ok_def)
  note eff = intrpt_handler_effect [OF assms(1) dev assms(3), of regs]
  have cr: "credit (msgs (recv (sc d) ! c)) (length (vector_events recv_events regs c))"
    and cs: "credit (msgs (send (sc d) ! c)) (length (vector_events send_events regs c))"
    using assms(5,7) length_vector_events [of regs c] by (auto intro: credit_mono)
  note r = push_msgs_effect [OF assms(4) cr] and s = push_msgs_effect [OF assms(6) cs]
  have w: "wakes (deliver ms x) = wakes x + of_bool (ms \<noteq> [])" for ms x
    by (simp add: deliver_def Let_def wake_up_def push_msgs_queue)
  show ?thesis by (simp add: eff r s w frame_simps)
qed

definition blank_chnl :: "u32 \<Rightarrow> chnl_dir" where
  "blank_chnl n = \<lparr>dir_ptr = 0, wakes = 0,
     msgs = \<lparr>writeIndex = 0, readIndex = 0, vals = replicate (unat n) (0, 0), qlen = n,
             q_ptr = 0, vals_ptr = 0, slot_ptrs = []\<rparr>,
     buf_addr = 0, sg_buf = replicate 1024 0, buf_hw_addr = 0x1000, sg_map_0 = None, sg_map_1 = None\<rparr>"

definition idle_device :: "nat \<Rightarrow> device" where
  "idle_device n = \<lparr>sc = \<lparr>sc_ptr = 0, irq = 0, bar0_addr = 0, bar0_len = 1024, bar0_flags = 0,
      intr_disabled = False, spill_buf_addr = Some 0, spill_buf_hw_addr = 0x9000, num_sg = 200,
      sg_buf_size = 4096, fpga_id = 0, fpga_name = ''fpga'', vendor_id = 0x10EE, device_id = 0,
      num_chnls = n, recv_ptr = Some 0, send_ptr = Some 0,
      recv = replicate n (blank_chnl 5), send = replicate n (blank_chnl 4)\<rparr>,
    mmio = [], kern = fresh_kernel\<rparr>"

lemma idle_device_facts:
  "c < n \<Longrightarrow> n \<le> 12 \<Longrightarrow> device_ok (idle_device n) \<and> \<not> intr_disabled (sc (idle_device n)) \<and>
     num_chnls (sc (idle_device n)) = n \<and>
     recv (sc (idle_device n)) ! c = blank_chnl 5 \<and> send (sc (idle_device n)) ! c = blank_chnl 4"
  by (simp add: idle_device_def device_ok_def)

lemma blank_chnl_facts:
  "queue_inv (msgs (blank_chnl 5))" "queue_inv (msgs (blank_chnl 4))"
  "credit (msgs (blank_chnl 5)) 4" "credit (msgs (blank_chnl 4)) 2"
  "pending (blank_chnl n) = []" "queue_cap (msgs (blank_chnl n)) = unat n - 1"
  "qlen (msgs (blank_chnl n)) = n"
  by (simp_all add: blank_chnl_def queue_inv_def stored_def credit_def queue_list_def queue_cap_def)

theorem intrpt_handler_messages_witness:
  "pending (recv (sc (intrpt_handler (\<lambda>_. (\<lambda>off. if off = 0xC then 0x3E0 else 7)) (idle_device 12))) ! 7) =
     [(EVENT_SG_BUF_READ, 0), (EVENT_TXN_DONE, 7), (EVENT_TXN_OFFLAST, 7), (EVENT_TXN_LEN, 7)]"
  using intrpt_handler_messages [of "idle_device 12" 7 "\<lambda>off. if off = 0xC then 0x3E0 else 7"]
    idle_device_facts [of 7 12] blank_chnl_facts
  by (simp add: vector_events_def recv_events_def CHNL_REG_def push_bit_eq_mult)



text \<open>While a reset has interrupts disabled the handler does nothing at all, not even a register
  access; and it never gives back or takes a kernel resource.\<close>

theorem intrpt_handler_quiet:
  "kern (intrpt_handler rd d) = kern d \<and>
   intrpt_handler rd (d\<lparr>sc := (sc d)\<lparr>intr_disabled := True\<rparr>\<rparr>) = d\<lparr>sc := (sc d)\<lparr>intr_disabled := True\<rparr>\<rparr>"
  by (simp add: intrpt_handler_def Let_def split_def frame_simps mmio_simps)

end
