(* ===== verification/Riffa_Wait.thy ===== *)
theory Riffa_Wait
  imports Riffa_Sg Riffa_Intr
begin

text \<open>
  What \<open>chnl_send\<close> and \<open>chnl_recv\<close> share: the conversion of the timeout, the state of a transfer,
  and the loop that waits for messages of the interrupt handler.  What happens while the thread
  waits is a list of rounds, one for each time it looks at the queue: the messages the handler
  pushes before the first look and between the two looks, what \<open>schedule_timeout\<close> returns, and
  whether a signal is pending.  When the rounds are used up the thread is still blocked (\<open>None\<close>).
\<close>

section \<open>Timeouts\<close>

definition LONG_MAX :: u64 where "LONG_MAX = 2 ^ 63 - 1"

text \<open>\<open>timeout == 0 ? MAX_SCHEDULE_TIMEOUT : min (timeout * HZ / 1000) LONG_MAX\<close>, in 64 bits.\<close>

definition to_jiffies :: "u64 \<Rightarrow> u64 \<Rightarrow> u64" where
  "to_jiffies hz timeout =
     (if timeout = 0 then LONG_MAX
      else if timeout * hz div 1000 > LONG_MAX then LONG_MAX
      else timeout * hz div 1000)"

section \<open>Waiting for a message\<close>

record round =
  irq_first :: "(u32 \<times> u32) list"
  irq_second :: "(u32 \<times> u32) list"
  slept :: "u64 \<Rightarrow> u64"
  signal_pending :: bool

datatype wait_result = Got u32 u32 | Signalled | TimedOut

text \<open>The handler delivers messages to the channel.\<close>

definition arrive :: "(u32 \<times> u32) list \<Rightarrow> chnl_dir \<Rightarrow> chnl_dir" where
  "arrive ms c = push_msgs ms c"

definition set_msgs :: "circ_queue \<Rightarrow> chnl_dir \<Rightarrow> chnl_dir" where
  "set_msgs q c = c\<lparr>msgs := q\<rparr>"

text \<open>
  The inner loop: pop; if there was nothing, look again before sleeping; a signal wins over the
  message the second look found.
\<close>

fun wait_msg ::
  "round list \<Rightarrow> u64 \<Rightarrow> chnl_dir \<Rightarrow> (wait_result \<times> chnl_dir \<times> round list) option" where
  "wait_msg [] tymeout c = None"
| "wait_msg (r # rs) tymeout c =
     (let c = arrive (irq_first r) c in
      case pop_circ_queue (msgs c) of
        (Some (msg_type, msg), q) \<Rightarrow> Some (Got msg_type msg, set_msgs q c, rs)
      | (None, q) \<Rightarrow>
          (let c = arrive (irq_second r) (set_msgs q c) in
           case pop_circ_queue (msgs c) of
             (Some (msg_type, msg), q) \<Rightarrow>
               (if signal_pending r then Some (Signalled, set_msgs q c, rs)
                else Some (Got msg_type msg, set_msgs q c, rs))
           | (None, q) \<Rightarrow>
               (let tymeout = slept r tymeout; c = set_msgs q c in
                if signal_pending r then Some (Signalled, c, rs)
                else if tymeout = 0 then Some (TimedOut, c, rs)
                else wait_msg rs tymeout c)))"

lemma wait_msg_rounds:
  "wait_msg rs ty c = Some (res, c', rs') \<Longrightarrow> length rs' < length rs"
proof (induction rs ty c rule: wait_msg.induct)
  case (1 ty c)
  then show ?case by simp
next
  case (2 r rs ty c)
  then show ?case
    by (auto simp: Let_def less_Suc_eq split: prod.splits option.splits if_splits)
qed

lemma wait_msg_frame:
  "wait_msg rs ty c = Some (res, c', rs') \<Longrightarrow> \<exists>q. c' = c\<lparr>msgs := q\<rparr>"
proof (induction rs ty c rule: wait_msg.induct)
  case (1 ty c)
  then show ?case by simp
next
  case (2 r rs ty c)
  then show ?case
    by (fastforce simp: Let_def arrive_def set_msgs_def push_msgs_queue
        split: prod.splits option.splits if_splits)
qed

section \<open>Transfers\<close>

text \<open>What every transfer carries: its channel, the kernel and the registers.\<close>

record xfer =
  x_dir :: chnl_dir
  x_kern :: kstate
  x_mmio :: "mmio_access list"

definition x_write :: "nat \<Rightarrow> u32 \<Rightarrow> 'a xfer_scheme \<Rightarrow> 'a xfer_scheme" where
  "x_write off v x = x\<lparr>x_mmio := x_mmio x @ [RegWrite off v]\<rparr>"

text \<open>
  The outer loop \<open>while (1)\<close>: wait for a message and handle it.  A handler either ends the call
  (\<open>Inl\<close>) or continues with a new state.  \<open>tymeout\<close> is reset before every wait.
\<close>

function msg_loop ::
  "(u32 \<Rightarrow> u32 \<Rightarrow> 'a xfer_scheme \<Rightarrow> (u32 \<times> 'a xfer_scheme) + 'a xfer_scheme) \<Rightarrow>
   ('a xfer_scheme \<Rightarrow> u32 \<times> 'a xfer_scheme) \<Rightarrow> ('a xfer_scheme \<Rightarrow> u32 \<times> 'a xfer_scheme) \<Rightarrow>
   u64 \<Rightarrow> round list \<Rightarrow> 'a xfer_scheme \<Rightarrow> (u32 \<times> 'a xfer_scheme) option" where
  "msg_loop handle on_signal on_timeout tymeouto rounds x =
     (case wait_msg rounds tymeouto (x_dir x) of
        None \<Rightarrow> None
      | Some (res, c, rs) \<Rightarrow>
          (let x = x\<lparr>x_dir := c\<rparr> in
           case res of
             Signalled \<Rightarrow> Some (on_signal x)
           | TimedOut \<Rightarrow> Some (on_timeout x)
           | Got msg_type msg \<Rightarrow>
               (case handle msg_type msg x of
                  Inl r \<Rightarrow> Some r
                | Inr x \<Rightarrow> msg_loop handle on_signal on_timeout tymeouto rs x)))"
  by pat_completeness auto
termination
  by (relation "measure (\<lambda>(h, s, t, ty, rounds, x). length rounds)") (auto dest: wait_msg_rounds)

declare msg_loop.simps [simp del]

text \<open>
  The contract of such a loop: an invariant that does not depend on the message queue, which
  every handler keeps or ends with the postcondition.  Then the call, if it returns, returns with
  the postcondition, whatever messages, signals and timeouts come.
\<close>

locale message_loop =
  fixes handle :: "u32 \<Rightarrow> u32 \<Rightarrow> 'a xfer_scheme \<Rightarrow> (u32 \<times> 'a xfer_scheme) + 'a xfer_scheme"
    and on_signal on_timeout :: "'a xfer_scheme \<Rightarrow> u32 \<times> 'a xfer_scheme"
    and inv :: "'a xfer_scheme \<Rightarrow> bool"
    and post :: "u32 \<Rightarrow> 'a xfer_scheme \<Rightarrow> bool"
  assumes inv_queue: "inv x \<Longrightarrow> inv (x\<lparr>x_dir := (x_dir x)\<lparr>msgs := q\<rparr>\<rparr>)"
    and handle_returns: "inv x \<Longrightarrow> handle t m x = Inl (v, y) \<Longrightarrow> post v y"
    and handle_continues: "inv x \<Longrightarrow> handle t m x = Inr y \<Longrightarrow> inv y"
    and signal_post: "inv x \<Longrightarrow> on_signal x = (v, y) \<Longrightarrow> post v y"
    and timeout_post: "inv x \<Longrightarrow> on_timeout x = (v, y) \<Longrightarrow> post v y"
begin

lemma inv_wait: "inv x \<Longrightarrow> wait_msg rs ty (x_dir x) = Some (res, c, rs') \<Longrightarrow> inv (x\<lparr>x_dir := c\<rparr>)"
  using wait_msg_frame inv_queue by blast

theorem loop_post:
  "inv x \<Longrightarrow> msg_loop handle on_signal on_timeout ty rounds x = Some (v, y) \<Longrightarrow> post v y"
proof (induction "length rounds" arbitrary: rounds x rule: less_induct)
  case less
  obtain res c rs where w: "wait_msg rounds ty (x_dir x) = Some (res, c, rs)"
    using less.prems(2) by (auto simp: msg_loop.simps [of _ _ _ _ rounds] split: option.splits prod.splits)
  let ?x = "x\<lparr>x_dir := c\<rparr>"
  have i: "inv ?x" by (rule inv_wait [OF less.prems(1) w])
  show ?case
  proof (cases res)
    case (Got t m)
    show ?thesis
    proof (cases "handle t m ?x")
      case (Inl r)
      then show ?thesis using less.prems(2) w Got i
        by (cases r) (auto simp: msg_loop.simps [of _ _ _ _ rounds] intro: handle_returns)
    next
      case (Inr z)
      have "length rs < length rounds" by (rule wait_msg_rounds [OF w])
      moreover have "msg_loop handle on_signal on_timeout ty rs z = Some (v, y)"
        using less.prems(2) w Got Inr by (simp add: msg_loop.simps [of _ _ _ _ rounds])
      ultimately show ?thesis using less.hyps handle_continues [OF i Inr] by blast
    qed
  next
    case Signalled
    then show ?thesis using less.prems(2) w i
      by (auto simp: msg_loop.simps [of _ _ _ _ rounds] intro: signal_post)
  next
    case TimedOut
    then show ?thesis using less.prems(2) w i
      by (auto simp: msg_loop.simps [of _ _ _ _ rounds] intro: timeout_post)
  qed
qed

end

section \<open>A device that follows the protocol\<close>

text \<open>
  The messages of a list of rounds, and when all of them reach the thread: at every look the queue has
  room for what arrives, nothing arrives between two looks that do not happen, no signal is pending,
  and a wait for nothing does not use up the time.  \<open>k\<close> messages are in the queue before.  How the
  messages are spread over the rounds, and how often the thread is woken for nothing, is left open.
\<close>

definition flow :: "round list \<Rightarrow> (u32 \<times> u32) list" where
  "flow rs = concat (map (\<lambda>r. irq_first r @ irq_second r) rs)"

lemma flow_simps [simp]: "flow [] = []" "flow (r # rs) = irq_first r @ irq_second r @ flow rs"
  by (simp_all add: flow_def)

fun served :: "nat \<Rightarrow> nat \<Rightarrow> round list \<Rightarrow> bool" where
  "served cap k [] = (k = 0)"
| "served cap k (r # rs) =
     (\<not> signal_pending r \<and>
      (let n = k + length (irq_first r) in
       if 0 < n then n \<le> cap \<and> irq_second r = [] \<and> served cap (n - 1) rs
       else let n = length (irq_second r) in
            if 0 < n then n \<le> cap \<and> served cap (n - 1) rs
            else (\<forall>t. slept r t \<noteq> 0) \<and> served cap 0 rs))"

text \<open>The messages \<open>ms\<close> are what the thread will read from the queue.\<close>

definition streams :: "(u32 \<times> u32) list \<Rightarrow> round list \<Rightarrow> chnl_dir \<Rightarrow> bool" where
  "streams ms rs c \<longleftrightarrow> queue_inv (msgs c) \<and> credit (msgs c) (length (flow rs)) \<and>
     served (queue_cap (msgs c)) (length (pending c)) rs \<and> pending c @ flow rs = ms"

lemma streams_queue: "msgs c = msgs c' \<Longrightarrow> streams ms rs c = streams ms rs c'"
  by (simp add: streams_def)

lemma arrive_streams:
  assumes "queue_inv (msgs c)" and "credit (msgs c) (length ms + n)" and "length (pending c) + length ms \<le> queue_cap (msgs c)"
  shows "queue_inv (msgs (arrive ms c))" "credit (msgs (arrive ms c)) n" "pending (arrive ms c) = pending c @ ms"
    "queue_cap (msgs (arrive ms c)) = queue_cap (msgs c)" "set_msgs q (arrive ms c) = set_msgs q c"
proof -
  have "credit (msgs c) (length ms)" by (rule credit_mono [OF assms(2)]) simp
  note P = push_msgs_effect [OF assms(1) this]
  show "queue_inv (msgs (arrive ms c))" "queue_cap (msgs (arrive ms c)) = queue_cap (msgs c)"
    "pending (arrive ms c) = pending c @ ms"
    using P assms(3) by (simp_all add: arrive_def)
  show "credit (msgs (arrive ms c)) n" unfolding arrive_def by (rule push_msgs_credit [OF assms(2)])
  show "set_msgs q (arrive ms c) = set_msgs q c" by (simp add: arrive_def set_msgs_def push_msgs_queue)
qed

lemma pop_streams:
  assumes "queue_inv (msgs c)" and "credit (msgs c) (length (flow rs))" and "pending c = m # ms"
    and "served (queue_cap (msgs c)) (length ms) rs"
  obtains q where "pop_circ_queue (msgs c) = (Some m, q)" "streams (ms @ flow rs) rs (set_msgs q c)"
proof -
  obtain m' q where p: "pop_circ_queue (msgs c) = (m', q)" by fastforce
  have "m' = Some m \<and> queue_list q = ms \<and> queue_inv q"
    using circ_fifo.pop_head [OF assms(1)] assms(3) p by simp
  moreover have "queue_cap q = queue_cap (msgs c)" "credit q (length (flow rs))"
    using circ_fifo.cap_pop [of "msgs c"] circ_fifo.fuel_pop [OF assms(1)] assms(2) p by simp_all
  ultimately show thesis using that [of q] p assms(4) by (simp add: streams_def set_msgs_def)
qed

lemma wait_streams:
  assumes "streams ((t, v) # ms) rs c"
  shows "\<exists>q rs'. wait_msg (rs @ rest) ty c = Some (Got t v, c\<lparr>msgs := q\<rparr>, rs' @ rest) \<and> streams ms rs' (c\<lparr>msgs := q\<rparr>)"
  using assms
proof (induction rs arbitrary: c ty)
  case Nil
  then have False by (auto simp: streams_def)
  then show ?case ..
next
  case (Cons r rs)
  let ?k = "length (pending c)" and ?a = "irq_first r" and ?b = "irq_second r"
  have S: "queue_inv (msgs c)" "credit (msgs c) (length ?a + (length ?b + length (flow rs)))"
    "served (queue_cap (msgs c)) ?k (r # rs)" "pending c @ ?a @ ?b @ flow rs = (t, v) # ms"
    using Cons.prems by (simp_all add: streams_def)
  let ?c = "arrive ?a c"
  have sp: "\<not> signal_pending r" using S(3) by simp
  show ?case
  proof (cases "0 < ?k + length ?a")
    case True
    then have f: "?k + length ?a \<le> queue_cap (msgs c)" "?b = []" "served (queue_cap (msgs c)) (?k + length ?a - 1) rs"
      using S(3) by (simp_all add: Let_def split: if_splits)
    note A = arrive_streams [OF S(1,2) f(1)]
    obtain ms' where ms': "pending ?c = (t, v) # ms'" "ms = ms' @ flow rs"
    proof -
      have "pending ?c @ flow rs = (t, v) # ms" "pending ?c \<noteq> []" using S(4) A(3) True f(2) by auto
      then show thesis using that by (cases "pending ?c") auto
    qed
    then have "length ms' = ?k + length ?a - 1" using A(3) by (metis One_nat_def diff_Suc_1 length_Cons length_append)
    then obtain q where q: "pop_circ_queue (msgs ?c) = (Some (t, v), q)" "streams ms rs (set_msgs q ?c)"
      using pop_streams [OF A(1) _ ms'(1), of rs] A(2,4) f ms'(2) by auto
    then show ?thesis using A(5) by (intro exI [of _ q] exI [of _ rs]) (simp add: Let_def set_msgs_def)
  next
    case False
    then have e: "pending c = []" "?a = []" by simp_all
    have c0: "?c = c" by (simp add: e(2) arrive_def push_msgs_simps)
    have p0: "pop_circ_queue (msgs c) = (None, msgs c)" by (rule circ_fifo.pop_empty [OF S(1) e(1)])
    have id: "set_msgs (msgs c) c = c" by (simp add: set_msgs_def)
    let ?c2 = "arrive ?b c"
    show ?thesis
    proof (cases "?b = []")
      case True
      then have f: "\<forall>t. slept r t \<noteq> 0" "served (queue_cap (msgs c)) 0 rs" using S(3) e by (simp_all add: Let_def)
      have c2: "?c2 = c" by (simp add: True arrive_def push_msgs_simps)
      have "streams ((t, v) # ms) rs c" using S f(2) e True by (simp add: streams_def)
      from Cons.IH [OF this, of "slept r ty"] show ?thesis using f(1) sp by (simp add: c0 c2 p0 id)
    next
      case False
      then have f: "length (pending c) + length ?b \<le> queue_cap (msgs c)" "served (queue_cap (msgs c)) (length ?b - 1) rs"
        using S(3) e by (simp_all add: Let_def split: if_splits)
      have cr: "credit (msgs c) (length ?b + length (flow rs))" using S(2) e(2) by simp
      note A = arrive_streams [OF S(1) cr f(1)]
      obtain ms' where ms': "pending ?c2 = (t, v) # ms'" "ms = ms' @ flow rs"
      proof -
        have "pending ?c2 @ flow rs = (t, v) # ms" "pending ?c2 \<noteq> []" using S(4) A(3) False e by auto
        then show thesis using that by (cases "pending ?c2") auto
      qed
      then have "length ms' = length ?b - 1" using A(3) e(1) by (metis One_nat_def append_Nil diff_Suc_1 length_Cons)
      then obtain q where q: "pop_circ_queue (msgs ?c2) = (Some (t, v), q)" "streams ms rs (set_msgs q ?c2)"
        using pop_streams [OF A(1,2) ms'(1)] A(4) f(2) ms'(2) by auto
      then show ?thesis
        using A(5) sp by (intro exI [of _ q] exI [of _ rs]) (simp add: c0 p0 id Let_def, simp add: set_msgs_def)
    qed
  qed
qed

lemma msg_loop_streams:
  assumes "streams ((t, v) # ms) rs (x_dir x)"
  obtains q rs' where "streams ms rs' ((x_dir x)\<lparr>msgs := q\<rparr>)"
    "msg_loop handle sg tm ty (rs @ rest) x =
       (case handle t v (x\<lparr>x_dir := (x_dir x)\<lparr>msgs := q\<rparr>\<rparr>) of
          Inl r \<Rightarrow> Some r | Inr y \<Rightarrow> msg_loop handle sg tm ty (rs' @ rest) y)"
proof -
  from wait_streams [OF assms, of rest ty] obtain q rs' where q:
    "wait_msg (rs @ rest) ty (x_dir x) = Some (Got t v, (x_dir x)\<lparr>msgs := q\<rparr>, rs' @ rest)"
    "streams ms rs' ((x_dir x)\<lparr>msgs := q\<rparr>)" by blast
  with that [of rs' q] show thesis
    by (simp add: msg_loop.simps [of handle sg tm ty "rs @ rest"])
qed

text \<open>The simplest case: a round for every message, which arrives in time.\<close>

definition deliver_round :: "u32 \<times> u32 \<Rightarrow> round" where
  "deliver_round m = \<lparr>irq_first = [m], irq_second = [], slept = (\<lambda>t. t), signal_pending = False\<rparr>"

lemma served_deliver: "0 < cap \<Longrightarrow> served cap 0 (map deliver_round ms)" "flow (map deliver_round ms) = ms"
  by (induction ms) (auto simp: deliver_round_def)

lemma replicate_2: "replicate 2 x = [x, x]"
  by (simp add: numeral_2_eq_2)

text \<open>
  The rounds of a thread that waits on channel \<open>c\<close> of a device: before the first look and between the
  two looks the interrupt handler runs, each time with the registers as the device shows them.
\<close>

record visit =
  intrs_first :: "(nat \<Rightarrow> u32) list"
  intrs_second :: "(nat \<Rightarrow> u32) list"
  sleep :: "u64 \<Rightarrow> u64"

definition heard ::
  "((nat \<Rightarrow> u32) \<Rightarrow> u32 \<Rightarrow> nat \<Rightarrow> nat \<Rightarrow> (u32 \<times> u32) list) \<Rightarrow> nat \<Rightarrow> (nat \<Rightarrow> u32) list \<Rightarrow> (u32 \<times> u32) list" where
  "heard ev c intrs = concat (map (\<lambda>regs. vector_events ev regs c) intrs)"

definition round_of ::
  "((nat \<Rightarrow> u32) \<Rightarrow> u32 \<Rightarrow> nat \<Rightarrow> nat \<Rightarrow> (u32 \<times> u32) list) \<Rightarrow> nat \<Rightarrow> visit \<Rightarrow> round" where
  "round_of ev c v = \<lparr>irq_first = heard ev c (intrs_first v), irq_second = heard ev c (intrs_second v),
     slept = sleep v, signal_pending = False\<rparr>"

text \<open>What runs of the handler leave in the queues of a channel is what arrives in such a round.\<close>

lemma handler_arrives:
  assumes "\<not> intr_disabled (sc d)" and "device_ok d" and "c < num_chnls (sc d)"
    and e_def: "e = fold (\<lambda>regs. intrpt_handler (\<lambda>_. regs)) intrs d"
  shows "msgs (send (sc e) ! c) = msgs (arrive (heard send_events c intrs) (send (sc d) ! c)) \<and>
    msgs (recv (sc e) ! c) = msgs (arrive (heard recv_events c intrs) (recv (sc d) ! c))"
  using assms
proof (induction intrs arbitrary: d)
  case Nil
  then show ?case by (simp add: heard_def arrive_def push_msgs_simps)
next
  case (Cons regs intrs)
  let ?d = "intrpt_handler (\<lambda>_. regs) d"
  have dev: "length (recv (sc d)) = num_chnls (sc d)" "length (send (sc d)) = num_chnls (sc d)"
    "num_chnls (sc d) \<le> 12" using Cons.prems(2) by (simp_all add: device_ok_def)
  note eff = intrpt_handler_effect [OF Cons.prems(1) dev Cons.prems(3), of regs]
  have "\<not> intr_disabled (sc ?d)" "device_ok ?d" "c < num_chnls (sc ?d)"
    using intrpt_handler_frame [of "\<lambda>_. regs" d] Cons.prems by (simp_all add: device_ok_def)
  note I = Cons.IH [OF this]
  have arr: "msgs (arrive ms (deliver ns x)) = msgs (arrive (ns @ ms) x)" for ms ns x
    by (simp add: arrive_def push_msgs_queue deliver_def Let_def wake_up_def)
  show ?case using I Cons.prems(4) by (simp add: eff arr heard_def)
qed

text \<open>A kernel as documented, and one that moreover never refuses.\<close>

definition env_good :: "kenv \<Rightarrow> bool" where
  "env_good env \<longleftrightarrow> kenv_ok env \<and> dma_ok env"

definition env_generous :: "kenv \<Rightarrow> bool" where
  "env_generous env \<longleftrightarrow> env_good env \<and> (\<forall>t. kmalloc_ok env t) \<and>
     (\<forall>t u n. 0 < n \<longrightarrow> user_pages env t u n \<noteq> [])"

lemma pages_required_pos:
  assumes "0 < len" "unat udata + unat len \<le> 2 ^ 64" "0 < maxsg" "maxsg < 2 ^ 63"
  shows "0 < unat (pages_required udata len maxsg)"
proof -
  have l: "0 < unat len" using assms(1) by (simp add: word_less_nat_alt)
  have e: "unat (udata + len - 1) = unat udata + unat len - 1"
  proof -
    have "unat (udata + (len - 1)) = unat udata + (unat len - 1)"
      using assms(1,2) l by (simp add: unat_word_ariths unat_minus_one)
    then show ?thesis using l by (simp add: add_diff_eq)
  qed
  let ?a = "drop_bit 12 (udata + len - 1)" and ?b = "drop_bit 12 udata"
  have a: "unat ?a = unat (udata + len - 1) div 4096" and b: "unat ?b = unat udata div 4096"
    by (simp_all add: drop_bit_eq_div unat_div)
  have le: "unat ?b \<le> unat ?a" unfolding a b e using l by (intro div_le_mono) simp
  have lt: "unat ?a < 2 ^ 52" unfolding a using unat_lt64 [of "udata + len - 1"] by simp
  have "unat (?a - ?b) = unat ?a - unat ?b" by (rule unat_diff_le [OF le])
  then have "unat (?a - ?b + 1) = unat ?a - unat ?b + 1"
    using lt by (simp add: unat_suc_word)
  moreover have "unat (of_nat maxsg :: u64) = maxsg" using assms(4) by (simp add: unat_of_nat)
  ultimately show ?thesis using assms(3) by (simp add: pages_required_def Let_def)
qed

lemma generous_fill:
  assumes "env_generous env" "0 < len" "unat udata + unat len \<le> 2 ^ 64" "0 < num_sg s" "num_sg s < 2 ^ 63"
  shows "fst (fill_sg_buf env s buf udata len ovf dir k) \<noteq> None"
  using assms(1,2) pages_required_pos [OF assms(2-5)]
  by (simp add: fill_sg_buf_def map_user_pages_def kmalloc_def env_generous_def Let_def split_def)

end
