(* ===== verification/Riffa_Send.thy ===== *)
theory Riffa_Send
  imports Riffa_Wait
begin

text \<open>
  Sending (\<open>chnl_send\<close> of \<open>riffa_driver.c\<close>): the driver announces the transfer, offers the user
  buffer to the FPGA one scatterlist at a time, at most two of them mapped at once, and returns
  when the FPGA reports completion, on a signal, a timeout or when no further scatterlist can be
  built.
\<close>

section \<open>The operation\<close>

record send_state = xfer +
  s_udata :: u64
  s_length :: u64
  s_sent :: u64

definition send_result :: "send_state \<Rightarrow> u32" where
  "send_result x = ucast (drop_bit 2 (s_sent x))"

definition free_maps :: "kenv \<Rightarrow> 'a xfer_scheme \<Rightarrow> 'a xfer_scheme" where
  "free_maps env x =
     x\<lparr>x_kern := free_sg_buf env (sg_map_1 (x_dir x)) (free_sg_buf env (sg_map_0 (x_dir x)) (x_kern x))\<rparr>"

text \<open>A new scatterlist becomes the current one, and the FPGA is told where it is.\<close>

definition offer_send :: "nat \<Rightarrow> sg_mapping \<Rightarrow> send_state \<Rightarrow> send_state" where
  "offer_send chnl m x =
     (let dir = x_dir x;
          x = x\<lparr>s_udata := s_udata x + sm_length m, s_length := s_length x - sm_length m,
                x_dir := dir\<lparr>sg_map_0 := sg_map_1 dir, sg_map_1 := Some m\<rparr>\<rparr>;
          x = x_write (CHNL_REG chnl RX_SG_ADDR_LO_REG_OFF) (ucast (buf_hw_addr dir AND 0xFFFFFFFF)) x;
          x = x_write (CHNL_REG chnl RX_SG_ADDR_HI_REG_OFF)
                (ucast (drop_bit 32 (buf_hw_addr dir) AND 0xFFFFFFFF)) x
      in x_write (CHNL_REG chnl RX_SG_LEN_REG_OFF) (4 * of_nat (sm_num_sg m)) x)"

text \<open>Building the next scatterlist from what is left of the user buffer.\<close>

definition fill_send :: "kenv \<Rightarrow> fpga_state \<Rightarrow> send_state \<Rightarrow> sg_mapping option \<times> send_state" where
  "fill_send env s x =
     (case fill_sg_buf env s (sg_buf (x_dir x)) (s_udata x) (s_length x) 0 DMA_TO_DEVICE (x_kern x) of
        (mo, buf, k) \<Rightarrow> (mo, x\<lparr>x_dir := (x_dir x)\<lparr>sg_buf := buf\<rparr>, x_kern := k\<rparr>))"

text \<open>Releasing the previous scatterlist, which the FPGA has read.\<close>

definition release_send :: "kenv \<Rightarrow> send_state \<Rightarrow> send_state" where
  "release_send env x =
     x\<lparr>s_sent := (case sg_map_0 (x_dir x) of
          Some m \<Rightarrow> s_sent x + sm_length m | None \<Rightarrow> s_sent x),
       x_kern := free_sg_buf env (sg_map_0 (x_dir x)) (x_kern x),
       x_dir := (x_dir x)\<lparr>sg_map_0 := None\<rparr>\<rparr>"

definition send_handle ::
  "kenv \<Rightarrow> fpga_state \<Rightarrow> nat \<Rightarrow> u32 \<Rightarrow> u32 \<Rightarrow> send_state \<Rightarrow> (u32 \<times> send_state) + send_state" where
  "send_handle env s chnl msg_type msg x =
     (if msg_type = EVENT_SG_BUF_READ
      then (let x = release_send env x
            in if s_length x > 0
               then (case fill_send env s x of
                       (None, x) \<Rightarrow> Inl (send_result x, free_maps env x)
                     | (Some m, x) \<Rightarrow>
                         (if sm_num_sg m = 0 then Inl (send_result x, free_maps env x)
                          else Inr (offer_send chnl m x)))
               else Inr x)
      else if msg_type = EVENT_TXN_DONE
      then (let x = x\<lparr>s_sent := push_bit 2 (ucast msg)\<rparr>
            in Inl (send_result x, free_maps env x))
      else Inr x)"

definition send_signal :: "kenv \<Rightarrow> send_state \<Rightarrow> u32 \<times> send_state" where
  "send_signal env x = (of_int (- ERESTARTSYS), free_maps env x)"

definition send_timeout :: "kenv \<Rightarrow> send_state \<Rightarrow> u32 \<times> send_state" where
  "send_timeout env x = (send_result x, free_maps env x)"

text \<open>What a transfer did goes back to the device.\<close>

definition put_send :: "nat \<Rightarrow> device \<Rightarrow> 'a xfer_scheme \<Rightarrow> device" where
  "put_send c d x = (upd_send c (\<lambda>_. x_dir x) d)\<lparr>mmio := x_mmio x, kern := x_kern x\<rparr>"

definition start_send :: "nat \<Rightarrow> u64 \<Rightarrow> u64 \<Rightarrow> device \<Rightarrow> send_state" where
  "start_send c udata len d =
     (let dir = send (sc d) ! c in
      \<lparr>x_dir = dir\<lparr>msgs := drain_circ_queue (msgs dir), sg_map_0 := None, sg_map_1 := None\<rparr>,
       x_kern = kern d, x_mmio = mmio d, s_udata = udata, s_length = len, s_sent = 0\<rparr>)"

definition chnl_send ::
  "kenv \<Rightarrow> u64 \<Rightarrow> round list \<Rightarrow> int \<Rightarrow> u64 \<Rightarrow> u32 \<Rightarrow> u32 \<Rightarrow> u32 \<Rightarrow> u64 \<Rightarrow> device \<Rightarrow>
     (u32 \<times> device) option" where
  "chnl_send env hz rounds chnl bufp len offset is_last timeout d =
     (let nbytes = push_bit 2 (ucast len) :: u64; udata = bufp; max_ptr = udata + nbytes - 1 in
      if chnl \<ge> int (num_chnls (sc d)) \<or> chnl < 0 then Some (0, d)
      else if max_ptr < udata then Some (of_int (- EINVAL), d)
      else if udata AND 0x3 \<noteq> 0 then Some (of_int (- EINVAL), d)
      else let c = nat chnl;
               x = start_send c udata nbytes d;
               x = x_write (CHNL_REG c RX_OFFLAST_REG_OFF) (push_bit 1 offset OR is_last) x;
               x = x_write (CHNL_REG c RX_LEN_REG_OFF) len x
           in if len = 0 then Some (0, put_send c d x)
              else case fill_send env (sc d) x of
                (None, x) \<Rightarrow> Some (send_result x, put_send c d x)
              | (Some m, x) \<Rightarrow>
                  (if sm_num_sg m = 0 then Some (send_result x, put_send c d x)
                   else map_option (\<lambda>(v, x). (v, put_send c d x))
                     (msg_loop (send_handle env (sc d) c) (send_signal env) (send_timeout env)
                        (to_jiffies hz timeout) rounds (offer_send c m x))))"

section \<open>The ledger of a send\<close>

text \<open>
  \<open>send_inv\<close>: the resources held beyond \<open>h0\<close> are those of the two mappings, no fault has been
  added to \<open>f0\<close>, the common buffer has room for all elements, and what is left is a suffix of
  the user buffer of \<open>total\<close> bytes that ends at \<open>fin\<close>.
\<close>

definition maps_held :: "resource multiset \<Rightarrow> fault list \<Rightarrow> 'a xfer_scheme \<Rightarrow> bool" where
  "maps_held h0 f0 x \<longleftrightarrow>
     held (x_kern x) = opt_resources (sg_map_0 (x_dir x)) + opt_resources (sg_map_1 (x_dir x)) + h0 \<and>
     faults (x_kern x) = f0 \<and> pred_option mapping_ok (sg_map_0 (x_dir x)) \<and>
     pred_option mapping_ok (sg_map_1 (x_dir x))"

definition send_inv ::
  "kenv \<Rightarrow> fpga_state \<Rightarrow> resource multiset \<Rightarrow> fault list \<Rightarrow> u64 \<Rightarrow> send_state \<Rightarrow> bool" where
  "send_inv env s h0 f0 fin x \<longleftrightarrow>
     env_good env \<and> maps_held h0 f0 x \<and> sg_room (num_sg s) (sg_buf (x_dir x)) \<and>
     unat (s_length x) < 2 ^ 63 \<and> s_udata x + s_length x = fin"

definition balanced :: "resource multiset \<Rightarrow> fault list \<Rightarrow> 'a xfer_scheme \<Rightarrow> bool" where
  "balanced h0 f0 x \<longleftrightarrow> held (x_kern x) = h0 \<and> faults (x_kern x) = f0"

lemma free_maps_balanced:
  assumes "maps_held h0 f0 x"
  shows "balanced h0 f0 (free_maps env x)"
proof -
  let ?a = "sg_map_0 (x_dir x)" and ?b = "sg_map_1 (x_dir x)" and ?k = "x_kern x"
  have g: "gives_back ?k (opt_resources ?a + opt_resources ?b)
      (free_sg_buf env ?b (free_sg_buf env ?a ?k))"
    by (rule gives_back_trans [OF gives_back_free_opt gives_back_free_opt])
       (use assms in \<open>simp_all add: maps_held_def\<close>)
  then show ?thesis using assms
    by (simp add: balanced_def free_maps_def maps_held_def gives_back_def)
qed

lemma fill_send_cases:
  assumes inv: "send_inv env s h0 f0 fin x" and f: "fill_send env s x = (mo, y)" and len: "s_length x > 0"
    and m0: "sg_map_0 (x_dir x) = None"
  shows "mo = None \<Longrightarrow> maps_held h0 f0 y"
    "mo = Some m \<Longrightarrow> sm_num_sg m \<noteq> 0 \<and> send_inv env s h0 f0 fin (offer_send c m y)"
proof -
  obtain buf k where fs: "fill_sg_buf env s (sg_buf (x_dir x)) (s_udata x) (s_length x) 0 DMA_TO_DEVICE
      (x_kern x) = (mo, buf, k)" and y: "y = x\<lparr>x_dir := (x_dir x)\<lparr>sg_buf := buf\<rparr>, x_kern := k\<rparr>"
    using f by (auto simp: fill_send_def split: prod.splits)
  show "mo = None \<Longrightarrow> maps_held h0 f0 y"
    using fill_None [of env s "sg_buf (x_dir x)" "s_udata x" "s_length x" 0 DMA_TO_DEVICE "x_kern x" buf k] fs y inv
    by (auto simp: maps_held_def takes_def send_inv_def)
  assume mo: "mo = Some m"
  have env: "kenv_ok env" "dma_ok env" and room: "sg_room (num_sg s) (sg_buf (x_dir x))"
    and big: "unat (s_length x) < 2 ^ 63"
    using inv by (simp_all add: send_inv_def env_good_def)
  note F = fill_Some [OF fs [unfolded mo] env room big]
  have "unat (s_length x - sm_length m) < 2 ^ 63" using F(6) big by (simp add: unat_diff_le)
  then show "sm_num_sg m \<noteq> 0 \<and> send_inv env s h0 f0 fin (offer_send c m y)"
    using F len inv m0
    by (simp add: send_inv_def offer_send_def Let_def x_write_def maps_held_def y takes_def
        opt_resources_def sg_room_def)
qed

lemma send_inv_release:
  assumes "send_inv env s h0 f0 fin x"
  shows "send_inv env s h0 f0 fin (release_send env x)" "sg_map_0 (x_dir (release_send env x)) = None"
proof -
  have ok: "pred_option mapping_ok (sg_map_0 (x_dir x))"
    using assms by (simp add: send_inv_def maps_held_def)
  have "gives_back (x_kern x) (opt_resources (sg_map_0 (x_dir x)))
      (free_sg_buf env (sg_map_0 (x_dir x)) (x_kern x))" by (rule gives_back_free_opt [OF ok])
  then show "send_inv env s h0 f0 fin (release_send env x)" using assms
    by (auto simp: release_send_def send_inv_def maps_held_def gives_back_def opt_resources_def ac_simps)
qed (simp add: release_send_def)

lemma send_handle_cases:
  assumes "send_inv env s h0 f0 fin x"
  shows "case send_handle env s c t m x of
      Inl (v, y) \<Rightarrow> balanced h0 f0 y | Inr y \<Rightarrow> send_inv env s h0 f0 fin y"
proof -
  consider "t = EVENT_SG_BUF_READ" | "t = EVENT_TXN_DONE" | "t \<noteq> EVENT_SG_BUF_READ" "t \<noteq> EVENT_TXN_DONE"
    by blast
  then show ?thesis
  proof cases
    case 1
    let ?x = "release_send env x"
    note inv = send_inv_release [OF assms]
    obtain mo z where f: "fill_send env s ?x = (mo, z)" by fastforce
    have h: "send_handle env s c t m x =
        (if s_length ?x > 0 then (case fill_send env s ?x of
             (None, x) \<Rightarrow> Inl (send_result x, free_maps env x)
           | (Some m, x) \<Rightarrow> if sm_num_sg m = 0 then Inl (send_result x, free_maps env x)
                          else Inr (offer_send c m x)) else Inr ?x)"
      unfolding send_handle_def using 1 by (simp add: Let_def)
    show ?thesis
    proof (cases "s_length ?x > 0")
      case True
      note F = fill_send_cases [OF inv(1) f True inv(2)]
      show ?thesis
      proof (cases mo)
        case None
        then show ?thesis unfolding h f using True free_maps_balanced [OF F(1) [OF None], of env] by simp
      next
        case (Some n)
        then show ?thesis unfolding h f using True F(2) [OF Some, of c] by simp
      qed
    next
      case False
      then show ?thesis unfolding h using inv(1) by simp
    qed
  next
    case 2
    have "maps_held h0 f0 (x\<lparr>s_sent := w\<rparr>)" for w
      using assms by (simp add: send_inv_def maps_held_def)
    from free_maps_balanced [OF this [of "push_bit 2 (ucast m)"], of env] show ?thesis
      using 2 by (simp add: send_handle_def Let_def)
  next
    case 3
    then show ?thesis using assms by (simp add: send_handle_def)
  qed
qed

interpretation send_loop: message_loop "send_handle env s c" "send_signal env" "send_timeout env"
  "send_inv env s h0 f0 fin" "\<lambda>v y. balanced h0 f0 y" for env s c h0 f0 fin
proof (unfold_locales, goal_cases)
  case (1 x q)
  then show ?case by (simp add: send_inv_def maps_held_def)
next
  case (2 x t m v y)
  then show ?case using send_handle_cases [OF 2(1), of c t m] by simp
next
  case (3 x t m y)
  then show ?case using send_handle_cases [OF 3(1), of c t m] by simp
next
  case (4 x v y)
  then show ?case by (auto simp: send_signal_def send_inv_def intro: free_maps_balanced)
next
  case (5 x v y)
  then show ?case by (auto simp: send_timeout_def send_inv_def intro: free_maps_balanced)
qed

section \<open>The whole call\<close>

text \<open>What \<open>chnl_send\<close> asks of the device: an existing channel with its buffer.\<close>

definition send_ready :: "device \<Rightarrow> bool" where
  "send_ready d \<longleftrightarrow> length (send (sc d)) = num_chnls (sc d) \<and>
     (\<forall>c < num_chnls (sc d). sg_room (num_sg (sc d)) (sg_buf (send (sc d) ! c)) \<and>
        queue_inv (msgs (send (sc d) ! c)) \<and> qlen (msgs (send (sc d) ! c)) = 4)"

lemma nbytes_unat: "unat (push_bit 2 (ucast (len :: u32)) :: u64) = 4 * unat len"
proof -
  have u: "unat (ucast len :: u64) = unat len" by (rule bit_eqI) (auto simp: bit_simps dest: bit_imp_le_length)
  have "unat (push_bit 2 (ucast len) :: u64) = (unat len * 4) mod 2 ^ 64"
    by (simp add: push_bit_eq_mult unat_word_ariths u mult.commute)
  moreover have "unat len * 4 < 2 ^ 64" using unat_lt32 [of len] by simp
  ultimately show ?thesis by simp
qed

lemma start_send_inv:
  assumes "send_ready d" "c < num_chnls (sc d)" "env_good env" "unat n < 2 ^ 63"
  shows "send_inv env (sc d) (held (kern d)) (faults (kern d)) (udata + n)
    (x_write a1 v1 (x_write a2 v2 (start_send c udata n d)))"
  using assms
  by (simp add: send_inv_def maps_held_def start_send_def Let_def x_write_def opt_resources_def
      send_ready_def)

lemma put_send_kern [simp]: "kern (put_send c d x) = x_kern x"
  by (simp add: put_send_def)

lemma chnl_send_balanced:
  assumes r: "chnl_send env hz rounds chnl bufp len offset is_last timeout d = Some (v, d')"
    and ready: "send_ready d" and env: "env_good env"
  shows "held (kern d') = held (kern d) \<and> faults (kern d') = faults (kern d)"
proof -
  let ?n = "push_bit 2 (ucast len) :: u64"
  let ?c = "nat chnl"
  let ?x = "x_write (CHNL_REG ?c RX_LEN_REG_OFF) len
    (x_write (CHNL_REG ?c RX_OFFLAST_REG_OFF) (push_bit 1 offset OR is_last) (start_send ?c bufp ?n d))"
  show ?thesis
  proof (cases "chnl \<ge> int (num_chnls (sc d)) \<or> chnl < 0 \<or> bufp + ?n - 1 < bufp \<or> bufp AND 3 \<noteq> 0 \<or> len = 0")
    case True
    then show ?thesis using r
      by (auto simp: chnl_send_def Let_def x_write_def start_send_def split: if_splits)
  next
    case False
    then have c: "?c < num_chnls (sc d)" by auto
    have n: "unat ?n < 2 ^ 63" using unat_lt32 [of len] by (simp add: nbytes_unat)
    have pos: "s_length ?x > 0"
    proof -
      have "0 < unat len" using False by (simp add: unat_gt_0)
      then have "0 < unat ?n" by (simp add: nbytes_unat)
      then show ?thesis by (simp add: x_write_def start_send_def Let_def word_less_nat_alt)
    qed
    note inv = start_send_inv [OF ready c env n, of bufp]
    obtain mo y where f: "fill_send env (sc d) ?x = (mo, y)" by fastforce
    have m0: "sg_map_0 (x_dir ?x) = None" by (simp add: x_write_def start_send_def Let_def)
    note F = fill_send_cases [OF inv f pos m0]
    have call: "chnl_send env hz rounds chnl bufp len offset is_last timeout d =
      (case mo of None \<Rightarrow> Some (send_result y, put_send ?c d y)
       | Some m \<Rightarrow> if sm_num_sg m = 0 then Some (send_result y, put_send ?c d y)
           else map_option (\<lambda>(v, x). (v, put_send ?c d x))
             (msg_loop (send_handle env (sc d) ?c) (send_signal env) (send_timeout env)
                (to_jiffies hz timeout) rounds (offer_send ?c m y)))"
      using False f by (simp add: chnl_send_def Let_def)
    show ?thesis
    proof (cases mo)
      case None
      then have "maps_held (held (kern d)) (faults (kern d)) y" "sg_map_0 (x_dir y) = None"
        "sg_map_1 (x_dir y) = None"
        using F(1) f by (auto simp: fill_send_def x_write_def start_send_def Let_def split: prod.splits)
      then show ?thesis using r call None by (auto simp: maps_held_def opt_resources_def)
    next
      case (Some m)
      note G = F(2) [OF Some, of ?c]
      obtain w z where ml: "msg_loop (send_handle env (sc d) ?c) (send_signal env) (send_timeout env)
                (to_jiffies hz timeout) rounds (offer_send ?c m y) = Some (w, z)" "d' = put_send ?c d z"
        using r call Some G by auto
      from send_loop.loop_post [OF conjunct2 [OF G] ml(1)] ml(2) show ?thesis
        by (simp add: balanced_def)
    qed
  qed
qed

section \<open>Progress\<close>

definition send_live :: "kenv \<Rightarrow> fpga_state \<Rightarrow> send_state \<Rightarrow> bool" where
  "send_live env s x \<longleftrightarrow> unat (s_udata x) + unat (s_length x) \<le> 2 ^ 64 \<and>
     env_generous env \<and> 0 < num_sg s \<and> num_sg s < 2 ^ 63"

lemma fill_send_live:
  assumes inv: "send_inv env s h0 f0 fin x" and live: "send_live env s x" and len: "s_length x > 0"
    and m0: "sg_map_0 (x_dir x) = None"
  obtains m y where "fill_send env s x = (Some m, y)" "sm_num_sg m \<noteq> 0"
    "send_inv env s h0 f0 fin (offer_send c m y)" "send_live env s (offer_send c m y)"
    "msgs (x_dir (offer_send c m y)) = msgs (x_dir x)" "x_mmio y = x_mmio x"
proof -
  obtain mo y where f: "fill_send env s x = (mo, y)" by fastforce
  have "mo \<noteq> None"
  proof -
    have "mo = fst (fill_sg_buf env s (sg_buf (x_dir x)) (s_udata x) (s_length x) 0 DMA_TO_DEVICE (x_kern x))"
      using f by (auto simp: fill_send_def split: prod.splits)
    then show ?thesis using generous_fill [of env "s_length x" "s_udata x" s] live len
      by (simp add: send_live_def)
  qed
  then obtain m where m: "mo = Some m" by auto
  note F = fill_send_cases(2) [OF inv f len m0 m]
  obtain buf k where fs: "fill_sg_buf env s (sg_buf (x_dir x)) (s_udata x) (s_length x) 0 DMA_TO_DEVICE
      (x_kern x) = (Some m, buf, k)" and y: "y = x\<lparr>x_dir := (x_dir x)\<lparr>sg_buf := buf\<rparr>, x_kern := k\<rparr>"
    using f m by (auto simp: fill_send_def split: prod.splits)
  have le: "unat (sm_length m) \<le> unat (s_length x)"
    using fill_Some(6) [OF fs] inv by (simp add: send_inv_def env_good_def)
  have "unat (s_udata x + sm_length m) \<le> unat (s_udata x) + unat (sm_length m)"
    by (simp add: unat_word_ariths)
  then have "send_live env s (offer_send c m y)"
    using live le by (auto simp: send_live_def offer_send_def Let_def x_write_def y unat_diff_le)
  then show thesis using that [of m y] f m F
    by (simp add: y offer_send_def Let_def x_write_def)
qed

lemma send_handle_read_live:
  assumes inv: "send_inv env s h0 f0 fin x" and live: "send_live env s x"
  obtains y where "send_handle env s c EVENT_SG_BUF_READ v x = Inr y" "send_inv env s h0 f0 fin y"
    "send_live env s y" "msgs (x_dir y) = msgs (x_dir x)" "\<exists>ws. x_mmio y = x_mmio x @ ws"
proof -
  let ?x = "release_send env x"
  note i = send_inv_release [OF inv]
  have l: "send_live env s ?x" using live by (simp add: send_live_def release_send_def)
  have mm: "msgs (x_dir ?x) = msgs (x_dir x)" "x_mmio ?x = x_mmio x" by (simp_all add: release_send_def)
  show thesis
  proof (cases "s_length ?x > 0")
    case True
    obtain m y where f: "fill_send env s ?x = (Some m, y)" "sm_num_sg m \<noteq> 0"
      "send_inv env s h0 f0 fin (offer_send c m y)" "send_live env s (offer_send c m y)"
      "msgs (x_dir (offer_send c m y)) = msgs (x_dir ?x)" "x_mmio y = x_mmio ?x"
      by (rule fill_send_live [OF i(1) l True i(2)])
    then show thesis using that [of "offer_send c m y"] True mm
      by (simp add: send_handle_def offer_send_def Let_def x_write_def)
  next
    case False
    then show thesis using that [of ?x] i l mm by (simp add: send_handle_def)
  qed
qed

lemma send_loop_live:
  "send_inv env s h0 f0 fin x \<Longrightarrow> send_live env s x \<Longrightarrow>
   streams (replicate n (EVENT_SG_BUF_READ, 0) @ [(EVENT_TXN_DONE, v)]) rs (x_dir x) \<Longrightarrow>
   \<exists>y ws. msg_loop (send_handle env s c) (send_signal env) (send_timeout env) ty (rs @ rest) x = Some (v, y) \<and>
     x_mmio y = x_mmio x @ ws"
proof (induction n arbitrary: x rs)
  case 0
  have "streams ((EVENT_TXN_DONE, v) # []) rs (x_dir x)" using 0(3) by simp
  then obtain q rs' where q: "msg_loop (send_handle env s c) (send_signal env) (send_timeout env) ty (rs @ rest) x =
       (case send_handle env s c EVENT_TXN_DONE v (x\<lparr>x_dir := (x_dir x)\<lparr>msgs := q\<rparr>\<rparr>) of
          Inl r \<Rightarrow> Some r | Inr y \<Rightarrow> msg_loop (send_handle env s c) (send_signal env) (send_timeout env) ty (rs' @ rest) y)"
    by (rule msg_loop_streams)
  have "ucast (drop_bit 2 (push_bit 2 (ucast v) :: u64)) = v"
    by (rule bit_word_eqI) (auto simp: bit_simps)
  then have "send_handle env s c EVENT_TXN_DONE v y = Inl (v, free_maps env (y\<lparr>s_sent := push_bit 2 (ucast v)\<rparr>))"
    for y by (simp add: send_handle_def send_result_def free_maps_def)
  then show ?case by (simp add: q free_maps_def)
next
  case (Suc n)
  let ?ms = "replicate n (EVENT_SG_BUF_READ, 0) @ [(EVENT_TXN_DONE, v)]"
  have "streams ((EVENT_SG_BUF_READ, 0) # ?ms) rs (x_dir x)" using Suc.prems(3) by simp
  then obtain q rs' where qq: "streams ?ms rs' ((x_dir x)\<lparr>msgs := q\<rparr>)" and
    q: "msg_loop (send_handle env s c) (send_signal env) (send_timeout env) ty (rs @ rest) x =
       (case send_handle env s c EVENT_SG_BUF_READ 0 (x\<lparr>x_dir := (x_dir x)\<lparr>msgs := q\<rparr>\<rparr>) of
          Inl r \<Rightarrow> Some r
        | Inr y \<Rightarrow> msg_loop (send_handle env s c) (send_signal env) (send_timeout env) ty (rs' @ rest) y)"
    by (rule msg_loop_streams)
  let ?x = "x\<lparr>x_dir := (x_dir x)\<lparr>msgs := q\<rparr>\<rparr>"
  have i: "send_inv env s h0 f0 fin ?x" using Suc.prems(1) by (simp add: send_inv_def maps_held_def)
  have l: "send_live env s ?x" using Suc.prems(2) by (simp add: send_live_def)
  obtain y where y: "send_handle env s c EVENT_SG_BUF_READ 0 ?x = Inr y" "send_inv env s h0 f0 fin y"
    "send_live env s y" "msgs (x_dir y) = msgs (x_dir ?x)" "\<exists>ws. x_mmio y = x_mmio ?x @ ws"
    by (rule send_handle_read_live [OF i l])
  have "streams ?ms rs' (x_dir y)" using qq y(4) by (simp add: streams_def)
  from Suc.IH [OF y(2,3) this] q y(1,5) show ?case by auto
qed

lemma chnl_send_live:
  assumes ready: "send_ready d" and env: "env_generous env"
    and sgs: "0 < num_sg (sc d)" "num_sg (sc d) < 2 ^ 63"
    and chnl: "c < num_chnls (sc d)" and len: "len \<noteq> 0" and align: "bufp AND 3 = 0"
    and fits: "unat bufp + 4 * unat len \<le> 2 ^ 64"
    and rs: "served 3 0 rs" "flow rs = replicate n (EVENT_SG_BUF_READ, 0) @ [(EVENT_TXN_DONE, v)]"
  shows "\<exists>d' ws. chnl_send env hz (rs @ rest) (int c) bufp len offset is_last timeout d = Some (v, d') \<and>
      mmio d' = mmio d @ [RegWrite (CHNL_REG c RX_OFFLAST_REG_OFF) (push_bit 1 offset OR is_last),
        RegWrite (CHNL_REG c RX_LEN_REG_OFF) len] @ ws"
proof -
  let ?n = "push_bit 2 (ucast len) :: u64"
  let ?x = "x_write (CHNL_REG c RX_LEN_REG_OFF) len
    (x_write (CHNL_REG c RX_OFFLAST_REG_OFF) (push_bit 1 offset OR is_last) (start_send c bufp ?n d))"
  have l: "0 < unat len" using len by (simp add: unat_gt_0)
  have un: "unat ?n = 4 * unat len" by (rule nbytes_unat)
  have nowrap: "\<not> bufp + ?n - 1 < bufp"
  proof -
    have "unat (bufp + (?n - 1)) = unat bufp + (4 * unat len - 1)"
      using fits l un by (simp add: unat_word_ariths unat_minus_one unat_gt_0 [symmetric])
    then show ?thesis using l by (simp add: word_less_nat_alt add_diff_eq)
  qed
  have n63: "unat ?n < 2 ^ 63" using unat_lt32 [of len] by (simp add: un)
  have good: "env_good env" using env by (simp add: env_generous_def)
  note inv = start_send_inv [OF ready chnl good n63, of bufp "CHNL_REG c RX_LEN_REG_OFF" len
      "CHNL_REG c RX_OFFLAST_REG_OFF" "push_bit 1 offset OR is_last"]
  have sx: "s_length ?x = ?n" "s_udata ?x = bufp" "sg_map_0 (x_dir ?x) = None"
    "msgs (x_dir ?x) = drain_circ_queue (msgs (send (sc d) ! c))"
    "x_mmio ?x = mmio d @ [RegWrite (CHNL_REG c RX_OFFLAST_REG_OFF) (push_bit 1 offset OR is_last),
        RegWrite (CHNL_REG c RX_LEN_REG_OFF) len]"
    by (simp_all add: x_write_def start_send_def Let_def)
  have live: "send_live env (sc d) ?x" unfolding send_live_def sx using fits un env sgs by simp
  have pos: "s_length ?x > 0" unfolding sx using l by (simp add: word_less_nat_alt un)
  obtain m y where f: "fill_send env (sc d) ?x = (Some m, y)" "sm_num_sg m \<noteq> 0"
      "send_inv env (sc d) (held (kern d)) (faults (kern d)) (bufp + ?n) (offer_send c m y)"
      "send_live env (sc d) (offer_send c m y)"
      "msgs (x_dir (offer_send c m y)) = msgs (x_dir ?x)" "x_mmio y = x_mmio ?x"
    by (rule fill_send_live [OF inv live pos sx(3)])
  have "queue_inv (msgs (send (sc d) ! c))" "qlen (msgs (send (sc d) ! c)) = 4"
    using ready chnl by (simp_all add: send_ready_def)
  then have "streams (replicate n (EVENT_SG_BUF_READ, 0) @ [(EVENT_TXN_DONE, v)]) rs (x_dir (offer_send c m y))"
    using drain_circ_queue_empties [of "msgs (send (sc d) ! c)"] f(5) sx(4) rs
    by (simp add: streams_def queue_cap_def send_queue_credit)
  from send_loop_live [OF f(3,4) this, of c "to_jiffies hz timeout" rest] obtain z ws where
    z: "msg_loop (send_handle env (sc d) c) (send_signal env) (send_timeout env) (to_jiffies hz timeout)
     (rs @ rest) (offer_send c m y) = Some (v, z)" "x_mmio z = x_mmio (offer_send c m y) @ ws" by blast
  have o: "\<exists>ws. x_mmio (offer_send c m y) = x_mmio y @ ws"
    by (simp add: offer_send_def Let_def x_write_def)
  have "chnl_send env hz (rs @ rest) (int c) bufp len offset is_last timeout d = Some (v, put_send c d z)"
    using chnl len align nowrap f(1,2) z(1) by (simp add: chnl_send_def Let_def)
  moreover have "mmio (put_send c d z) = x_mmio z" by (simp add: put_send_def)
  ultimately show ?thesis using z(2) o f(6) sx(5) by auto
qed

section \<open>Properties\<close>


lemma idle_send_ready: "n \<le> 12 \<Longrightarrow> send_ready (idle_device n)"
  by (simp add: send_ready_def idle_device_def blank_chnl_def sg_room_def queue_inv_def stored_def)

lemma generous_env_generous: "env_generous generous_env"
  using generous_env_ok by (simp add: env_generous_def env_good_def) (simp add: generous_env_def)

lemma env_good_generous: "env_good generous_env"
  using generous_env_generous by (simp add: env_generous_def)

lemma idle_send_run:
  "\<exists>d'. chnl_send generous_env 250 (map deliver_round [(EVENT_SG_BUF_READ, 0), (EVENT_TXN_DONE, 4096)])
      1 0x1000 4096 0 1 0 (idle_device 2) = Some (4096, d')"
proof -
  have "num_sg (sc (idle_device 2)) = 200" "num_chnls (sc (idle_device 2)) = 2"
    by (simp_all add: idle_device_def)
  then show ?thesis
    using chnl_send_live [OF idle_send_ready generous_env_generous, of 2 1 4096 "0x1000"
        "map deliver_round [(EVENT_SG_BUF_READ, 0), (EVENT_TXN_DONE, 4096)]" 1 4096 250 "[]" 0 1 0]
    by (auto simp: served_deliver simp del: list.map)
qed



text \<open>
  A round with one message, one in which the thread is woken for nothing, and one in which two
  messages come together before the thread sleeps, the second of which it finds in the round after.
\<close>

definition uneven_rounds :: "round list" where
  "uneven_rounds =
     [deliver_round (EVENT_SG_BUF_READ, 0),
      \<lparr>irq_first = [], irq_second = [], slept = (\<lambda>_. 7), signal_pending = False\<rparr>,
      \<lparr>irq_first = [], irq_second = [(EVENT_SG_BUF_READ, 0), (EVENT_TXN_DONE, 77)], slept = (\<lambda>_. 0),
       signal_pending = False\<rparr>,
      \<lparr>irq_first = [], irq_second = [], slept = (\<lambda>_. 0), signal_pending = False\<rparr>]"


text \<open>\<open>chnl_send\<close> rejects its bad arguments before it touches anything: a channel that does not
  exist returns 0, a buffer that wraps around the address space or is not word aligned returns
  \<open>-EINVAL\<close>, and the device is unchanged.  An empty transfer is rejected with \<open>-EINVAL\<close> as well,
  unless its buffer is NULL: the address check takes \<open>bufp - 1\<close> for an overflow, so the FPGA is
  never told about it.\<close>

theorem chnl_send_rejects:
  "(chnl < 0 \<or> int (num_chnls (sc d)) \<le> chnl \<longrightarrow>
      chnl_send env hz rounds chnl bufp len offset is_last timeout d = Some (0, d)) \<and>
   (0 \<le> chnl \<and> chnl < int (num_chnls (sc d)) \<and>
      ((len = 0 \<and> bufp \<noteq> 0) \<or> 2 ^ 64 < unat bufp + 4 * unat len \<or> bufp AND 3 \<noteq> 0) \<longrightarrow>
      chnl_send env hz rounds chnl bufp len offset is_last timeout d = Some (of_int (- EINVAL), d))"
proof -
  let ?n = "push_bit 2 (ucast len) :: u64"
  have un: "unat ?n = 4 * unat len" by (rule nbytes_unat)
  have wrap: "bufp + ?n - 1 < bufp \<longleftrightarrow> (len = 0 \<and> bufp \<noteq> 0) \<or> 2 ^ 64 < unat bufp + 4 * unat len"
  proof (cases "len = 0")
    case True
    have "unat bufp < 2 ^ 64" by (rule unat_lt64)
    moreover have "bufp - 1 < bufp \<longleftrightarrow> bufp \<noteq> 0"
    proof (cases "bufp = 0")
      case False
      then have "unat (bufp - 1) < unat bufp" by (simp add: unat_minus_one unat_gt_0)
      with False show ?thesis by (simp add: word_less_nat_alt)
    qed simp
    ultimately show ?thesis using True by simp
  next
    case False
    then have l: "0 < unat len" by (simp add: unat_gt_0)
    have l32: "unat len < 2 ^ 32" and b64: "unat bufp < 2 ^ 64" by (rule unat_lt32, rule unat_lt64)
    have "bufp + ?n - 1 = bufp + (?n - 1)" by (rule add_diff_eq [symmetric])
    moreover have "unat (?n - 1) = 4 * unat len - 1"
      using l un by (simp add: unat_minus_one unat_gt_0 [symmetric])
    moreover have "unat (bufp + (?n - 1)) = (unat bufp + unat (?n - 1)) mod 2 ^ LENGTH(64)"
      by (rule unat_word_ariths(1))
    ultimately have s: "unat (bufp + ?n - 1) = (unat bufp + (4 * unat len - 1)) mod 2 ^ 64"
      by (simp only: len_of_numeral_defs) simp
    show ?thesis
    proof (cases "unat bufp + (4 * unat len - 1) < 2 ^ 64")
      case True
      then show ?thesis using s l False by (auto simp: word_less_nat_alt)
    next
      case wr: False
      then have "(unat bufp + (4 * unat len - 1)) mod 2 ^ 64 = unat bufp + (4 * unat len - 1) - 2 ^ 64"
        using l32 b64 by (simp add: mod_if)
      then show ?thesis using s l l32 wr False by (auto simp: word_less_nat_alt)
    qed
  qed
  show ?thesis using wrap by (auto simp: chnl_send_def Let_def)
qed

theorem chnl_send_rejects_witness:
  "chnl_send generous_env 250 [] 7 0x1000 10 0 1 0 (idle_device 2) = Some (0, idle_device 2) \<and>
   chnl_send generous_env 250 [] 1 0x1000 0 0 1 0 (idle_device 2) = Some (of_int (- 22), idle_device 2)"
proof -
  have n: "num_chnls (sc (idle_device 2)) = 2" by (simp add: idle_device_def)
  show ?thesis
    using chnl_send_rejects [of 7 "idle_device 2" generous_env 250 "[]" "0x1000" 10 0 1 0]
      chnl_send_rejects [of 1 "idle_device 2" generous_env 250 "[]" "0x1000" 0 0 1 0]
    by (simp add: n)
qed

end
