(* ===== verification/Riffa_Recv.thy ===== *)
theory Riffa_Recv
  imports Riffa_Send
begin

text \<open>
  Receiving (\<open>chnl_recv\<close> of \<open>riffa_driver.c\<close>): the FPGA announces a transaction with its offset and
  length, the driver offers the user buffer one scatterlist at a time, sends what does not fit to
  the spill buffer, and returns when the last transaction is done, on a signal, a timeout or when
  no further scatterlist can be built.
\<close>

section \<open>The operation\<close>

record recv_state = xfer +
  r_udata :: u64
  r_length :: u64
  r_overflow :: u64
  r_offset :: u64
  r_last :: int
  r_recvd :: u64

definition recv_result :: "recv_state \<Rightarrow> u32" where
  "recv_result x = ucast (drop_bit 2 (r_recvd x))"

text \<open>
  How a transaction of \<open>len\<close> bytes at \<open>offset\<close> is divided between the user buffer and the spill
  buffer: first the check of the address, then the check of the capacity.
\<close>

definition clip_length :: "u64 \<Rightarrow> u64 \<Rightarrow> u64 \<Rightarrow> u64 \<Rightarrow> u64 \<times> u64" where
  "clip_length udata offset capacity len =
     (let max_ptr = udata + offset + len - 1;
          (len, overflow) = (if max_ptr < udata then (0, len) else (len, 0))
      in if offset + len > capacity
         then (if offset > capacity then (0, len)
               else (capacity - offset, len + offset - capacity))
         else (len, overflow))"

definition fill_recv :: "kenv \<Rightarrow> fpga_state \<Rightarrow> recv_state \<Rightarrow> sg_mapping option \<times> recv_state" where
  "fill_recv env s x =
     (case fill_sg_buf env s (sg_buf (x_dir x)) (r_udata x) (r_length x) (r_overflow x)
             DMA_FROM_DEVICE (x_kern x) of
        (mo, buf, k) \<Rightarrow> (mo, x\<lparr>x_dir := (x_dir x)\<lparr>sg_buf := buf\<rparr>, x_kern := k\<rparr>))"

text \<open>The registers that tell the FPGA where the scatterlist is.\<close>

definition announce_recv :: "nat \<Rightarrow> sg_mapping \<Rightarrow> recv_state \<Rightarrow> recv_state" where
  "announce_recv chnl m x =
     (let hw = buf_hw_addr (x_dir x);
          x = x_write (CHNL_REG chnl TX_SG_ADDR_LO_REG_OFF) (ucast (hw AND 0xFFFFFFFF)) x;
          x = x_write (CHNL_REG chnl TX_SG_ADDR_HI_REG_OFF) (ucast (drop_bit 32 hw AND 0xFFFFFFFF)) x
      in x_write (CHNL_REG chnl TX_SG_LEN_REG_OFF) (4 * of_nat (sm_num_sg m)) x)"

definition consume_recv :: "sg_mapping \<Rightarrow> recv_state \<Rightarrow> recv_state" where
  "consume_recv m x =
     x\<lparr>r_udata := r_udata x + sm_length m, r_length := r_length x - sm_length m,
       r_overflow := r_overflow x - sm_overflow m\<rparr>"

definition offer_recv_first :: "nat \<Rightarrow> sg_mapping \<Rightarrow> recv_state \<Rightarrow> recv_state" where
  "offer_recv_first chnl m x =
     (let x = consume_recv m x in
      announce_recv chnl m (x\<lparr>x_dir := (x_dir x)\<lparr>sg_map_1 := Some m\<rparr>\<rparr>))"

definition offer_recv_next :: "nat \<Rightarrow> sg_mapping \<Rightarrow> recv_state \<Rightarrow> recv_state" where
  "offer_recv_next chnl m x =
     (let x = consume_recv m x in
      announce_recv chnl m
        (x\<lparr>x_dir := (x_dir x)\<lparr>sg_map_0 := sg_map_1 (x_dir x), sg_map_1 := Some m\<rparr>\<rparr>))"

definition release_recv :: "kenv \<Rightarrow> recv_state \<Rightarrow> recv_state" where
  "release_recv env x =
     x\<lparr>r_recvd := (case sg_map_0 (x_dir x) of
          Some m \<Rightarrow> r_recvd x + sm_length m | None \<Rightarrow> r_recvd x),
       x_kern := free_sg_buf env (sg_map_0 (x_dir x)) (x_kern x),
       x_dir := (x_dir x)\<lparr>sg_map_0 := None\<rparr>\<rparr>"

definition recv_txn_len ::
  "kenv \<Rightarrow> fpga_state \<Rightarrow> nat \<Rightarrow> u64 \<Rightarrow> u32 \<Rightarrow> recv_state \<Rightarrow> (u32 \<times> recv_state) + recv_state" where
  "recv_txn_len env s chnl capacity msg x =
     (let (len, overflow) = clip_length (r_udata x) (r_offset x) capacity (push_bit 2 (ucast msg));
          x = x\<lparr>r_length := len, r_recvd := 0, r_overflow := overflow\<rparr>
      in if len > 0 \<or> overflow > 0
         then (let x = x\<lparr>r_udata := r_udata x + r_offset x\<rparr> in
               case fill_recv env s x of
                 (None, x) \<Rightarrow> Inl (recv_result x, x)
               | (Some m, x) \<Rightarrow>
                   (if sm_num_sg m = 0 then Inl (recv_result x, x)
                    else Inr (offer_recv_first chnl m x)))
         else Inr x)"

definition recv_sg_read ::
  "kenv \<Rightarrow> fpga_state \<Rightarrow> nat \<Rightarrow> recv_state \<Rightarrow> (u32 \<times> recv_state) + recv_state" where
  "recv_sg_read env s chnl x =
     (let x = release_recv env x
      in if r_length x > 0 \<or> r_overflow x > 0
         then (case fill_recv env s x of
                 (None, x) \<Rightarrow> Inl (recv_result x, free_maps env x)
               | (Some m, x) \<Rightarrow>
                   (if sm_num_sg m = 0 then Inl (recv_result x, free_maps env x)
                    else Inr (offer_recv_next chnl m x)))
         else Inr x)"

definition recv_txn_done :: "kenv \<Rightarrow> u32 \<Rightarrow> recv_state \<Rightarrow> (u32 \<times> recv_state) + recv_state" where
  "recv_txn_done env msg x =
     (let x = (free_maps env x)\<lparr>r_recvd := push_bit 2 (ucast msg)\<rparr>;
          x = x\<lparr>x_dir := (x_dir x)\<lparr>sg_map_0 := None, sg_map_1 := None\<rparr>\<rparr>
      in if r_last x \<noteq> 0 then Inl (recv_result x, x) else Inr x)"

definition recv_handle ::
  "kenv \<Rightarrow> fpga_state \<Rightarrow> nat \<Rightarrow> u64 \<Rightarrow> u32 \<Rightarrow> u32 \<Rightarrow> recv_state \<Rightarrow>
     (u32 \<times> recv_state) + recv_state" where
  "recv_handle env s chnl capacity msg_type msg x =
     (if msg_type = EVENT_TXN_OFFLAST
      then Inr (x\<lparr>r_offset := push_bit 2 (ucast (drop_bit 1 msg)), r_last := uint (msg AND 0x1)\<rparr>)
      else if msg_type = EVENT_TXN_LEN then recv_txn_len env s chnl capacity msg x
      else if msg_type = EVENT_SG_BUF_READ
      then (if r_last x = -1 then Inr x else recv_sg_read env s chnl x)
      else if msg_type = EVENT_TXN_DONE
      then (if r_last x = -1 then Inr x else recv_txn_done env msg x)
      else Inr x)"

definition recv_signal :: "kenv \<Rightarrow> recv_state \<Rightarrow> u32 \<times> recv_state" where
  "recv_signal env x = (of_int (- ERESTARTSYS), free_maps env x)"

definition recv_timeout :: "kenv \<Rightarrow> recv_state \<Rightarrow> u32 \<times> recv_state" where
  "recv_timeout env x = (recv_result x, free_maps env x)"

definition put_recv :: "nat \<Rightarrow> device \<Rightarrow> 'a xfer_scheme \<Rightarrow> device" where
  "put_recv c d x = (upd_recv c (\<lambda>_. x_dir x) d)\<lparr>mmio := x_mmio x, kern := x_kern x\<rparr>"

definition start_recv :: "nat \<Rightarrow> u64 \<Rightarrow> device \<Rightarrow> recv_state" where
  "start_recv c udata d =
     \<lparr>x_dir = (recv (sc d) ! c)\<lparr>sg_map_0 := None, sg_map_1 := None\<rparr>, x_kern = kern d,
      x_mmio = mmio d, r_udata = udata, r_length = 0, r_overflow = 0, r_offset = 0, r_last = -1,
      r_recvd = 0\<rparr>"

definition chnl_recv ::
  "kenv \<Rightarrow> u64 \<Rightarrow> round list \<Rightarrow> int \<Rightarrow> u64 \<Rightarrow> u32 \<Rightarrow> u64 \<Rightarrow> device \<Rightarrow> (u32 \<times> device) option" where
  "chnl_recv env hz rounds chnl bufp len timeout d =
     (let capacity = push_bit 2 (ucast len) :: u64; udata = bufp in
      if chnl \<ge> int (num_chnls (sc d)) \<or> chnl < 0 then Some (0, d)
      else if udata AND 0x3 \<noteq> 0 then Some (of_int (- EINVAL), d)
      else let c = nat chnl in
        map_option (\<lambda>(v, x). (v, put_recv c d x))
          (msg_loop (recv_handle env (sc d) c capacity) (recv_signal env) (recv_timeout env)
             (to_jiffies hz timeout) rounds (start_recv c udata d)))"

section \<open>No fault, nothing taken away\<close>

text \<open>
  \<open>recv_inv\<close>: apart from the resources of the two mappings at least \<open>h0\<close> is held, no fault has
  been added to \<open>f0\<close>, and the common buffer has room for all elements.
\<close>

definition recv_inv ::
  "kenv \<Rightarrow> fpga_state \<Rightarrow> resource multiset \<Rightarrow> fault list \<Rightarrow> recv_state \<Rightarrow> bool" where
  "recv_inv env s h0 f0 x \<longleftrightarrow>
     env_good env \<and> (\<exists>h. h0 \<subseteq># h \<and> maps_held h f0 x) \<and> sg_room (num_sg s) (sg_buf (x_dir x)) \<and>
     unat (r_length x) < 2 ^ 63"

definition keeps :: "resource multiset \<Rightarrow> fault list \<Rightarrow> 'a xfer_scheme \<Rightarrow> bool" where
  "keeps h0 f0 x \<longleftrightarrow> h0 \<subseteq># held (x_kern x) \<and> faults (x_kern x) = f0"

text \<open>One scatterlist, from a state with the maps \<open>h\<close> accounts for.\<close>

lemma fill_recv_cases:
  assumes env: "env_good env" and room: "sg_room (num_sg s) (sg_buf (x_dir x))"
    and big: "unat (r_length x) < 2 ^ 63" and f: "fill_recv env s x = (mo, y)"
  shows "x_mmio y = x_mmio x" "sg_map_0 (x_dir y) = sg_map_0 (x_dir x)"
    "sg_map_1 (x_dir y) = sg_map_1 (x_dir x)" "msgs (x_dir y) = msgs (x_dir x)"
    "r_udata y = r_udata x" "r_length y = r_length x" "r_overflow y = r_overflow x"
    "r_offset y = r_offset x" "r_last y = r_last x" "r_recvd y = r_recvd x"
    "mo = None \<Longrightarrow> takes (x_kern x) {#} (x_kern y) \<and> sg_buf (x_dir y) = sg_buf (x_dir x)"
    "mo = Some m \<Longrightarrow> takes (x_kern x) (mapping_resources m) (x_kern y) \<and> mapping_ok m \<and>
       sg_room (num_sg s) (sg_buf (x_dir y)) \<and> unat (sm_length m) \<le> unat (r_length x) \<and>
       (0 < r_length x \<longrightarrow> 0 < unat (sm_length m) \<and> 0 < sm_num_sg m)"
proof -
  obtain buf k where fs: "fill_sg_buf env s (sg_buf (x_dir x)) (r_udata x) (r_length x) (r_overflow x)
      DMA_FROM_DEVICE (x_kern x) = (mo, buf, k)" and y: "y = x\<lparr>x_dir := (x_dir x)\<lparr>sg_buf := buf\<rparr>, x_kern := k\<rparr>"
    using f by (auto simp: fill_recv_def split: prod.splits)
  have e: "kenv_ok env" "dma_ok env" using env by (simp_all add: env_good_def)
  show "x_mmio y = x_mmio x" "sg_map_0 (x_dir y) = sg_map_0 (x_dir x)"
    "sg_map_1 (x_dir y) = sg_map_1 (x_dir x)" "msgs (x_dir y) = msgs (x_dir x)"
    "r_udata y = r_udata x" "r_length y = r_length x" "r_overflow y = r_overflow x"
    "r_offset y = r_offset x" "r_last y = r_last x" "r_recvd y = r_recvd x"
    by (simp_all add: y)
  show "mo = None \<Longrightarrow> takes (x_kern x) {#} (x_kern y) \<and> sg_buf (x_dir y) = sg_buf (x_dir x)"
    using fill_None [of env s "sg_buf (x_dir x)" "r_udata x" "r_length x" "r_overflow x" DMA_FROM_DEVICE
        "x_kern x" buf k] fs by (simp add: y)
  assume "mo = Some m"
  from fill_Some [OF fs [unfolded this] e room big] room
  show "takes (x_kern x) (mapping_resources m) (x_kern y) \<and> mapping_ok m \<and>
       sg_room (num_sg s) (sg_buf (x_dir y)) \<and> unat (sm_length m) \<le> unat (r_length x) \<and>
       (0 < r_length x \<longrightarrow> 0 < unat (sm_length m) \<and> 0 < sm_num_sg m)"
    by (simp add: y sg_room_def)
qed

lemma clip_length_bound:
  assumes "clip_length u off cap len = (l, o')"
  shows "unat l \<le> max (unat len) (unat cap)"
  using assms unat_diff_le [of off cap]
  by (auto simp: clip_length_def Let_def word_less_nat_alt split: if_splits)

text \<open>What is meant for the user buffer stays inside it.\<close>

lemma clip_length_inside:
  assumes "clip_length u off cap len = (l, ov)" "unat cap < 2 ^ 63" "unat off < 2 ^ 63" "unat len < 2 ^ 63"
  shows "0 < l \<longrightarrow> unat off + unat l \<le> unat cap"
proof -
  have s: "unat (off + w) = unat off + unat w" if "unat w < 2 ^ 63" for w
    using assms(3) that by (simp add: unat_word_ariths)
  have d: "\<not> off > cap \<Longrightarrow> unat (cap - off) = unat cap - unat off"
    by (rule unat_diff_le) (simp add: word_less_nat_alt)
  show ?thesis using assms(1) s [of len] s [of 0] d assms(4)
    by (auto simp: clip_length_def Let_def word_less_nat_alt split: if_splits)
qed

lemma announce_frame:
  "x_dir (announce_recv c m x) = x_dir x" "x_kern (announce_recv c m x) = x_kern x"
  "r_udata (announce_recv c m x) = r_udata x" "r_length (announce_recv c m x) = r_length x"
  "r_overflow (announce_recv c m x) = r_overflow x" "r_last (announce_recv c m x) = r_last x"
  "r_offset (announce_recv c m x) = r_offset x" "\<exists>ws. x_mmio (announce_recv c m x) = x_mmio x @ ws"
  by (simp_all add: announce_recv_def Let_def x_write_def)

lemma release_recv_held:
  assumes "maps_held h f0 x"
  shows "maps_held h f0 (release_recv env x)" "sg_map_0 (x_dir (release_recv env x)) = None"
    "sg_map_1 (x_dir (release_recv env x)) = sg_map_1 (x_dir x)"
proof -
  have ok: "pred_option mapping_ok (sg_map_0 (x_dir x))" using assms by (simp add: maps_held_def)
  have "gives_back (x_kern x) (opt_resources (sg_map_0 (x_dir x)))
      (free_sg_buf env (sg_map_0 (x_dir x)) (x_kern x))" by (rule gives_back_free_opt [OF ok])
  then show "maps_held h f0 (release_recv env x)" using assms
    by (auto simp: release_recv_def maps_held_def gives_back_def opt_resources_def ac_simps)
qed (simp_all add: release_recv_def)

lemma offer_first_held:
  assumes h: "maps_held h f0 x" and t: "takes (x_kern x) (mapping_resources m) (x_kern y)"
    and m: "mapping_ok m" and same: "sg_map_0 (x_dir y) = sg_map_0 (x_dir x)"
  shows "maps_held (h + opt_resources (sg_map_1 (x_dir x))) f0 (offer_recv_first c m y)"
  using assms
  by (simp add: maps_held_def offer_recv_first_def announce_frame consume_recv_def Let_def takes_def
      opt_resources_def ac_simps)

lemma offer_next_held:
  assumes h: "maps_held h f0 x" and t: "takes (x_kern x) (mapping_resources m) (x_kern y)"
    and m: "mapping_ok m" and same: "sg_map_0 (x_dir x) = None" "sg_map_1 (x_dir y) = sg_map_1 (x_dir x)"
  shows "maps_held h f0 (offer_recv_next c m y)"
  using assms
  by (simp add: maps_held_def offer_recv_next_def announce_frame consume_recv_def Let_def takes_def
      opt_resources_def ac_simps)

lemma balanced_keeps: "h0 \<subseteq># h \<Longrightarrow> balanced h f0 x \<Longrightarrow> keeps h0 f0 x"
  by (simp add: balanced_def keeps_def)

lemma maps_held_keeps: "h0 \<subseteq># h \<Longrightarrow> maps_held h f0 x \<Longrightarrow> keeps h0 f0 x"
  by (simp add: maps_held_def keeps_def subset_mset.add_increasing)

lemma recv_txn_len_inv:
  assumes inv: "recv_inv env s h0 f0 x" and cap: "unat cap < 2 ^ 63"
  shows "case recv_txn_len env s c cap msg x of
      Inl (v, y) \<Rightarrow> keeps h0 f0 y | Inr y \<Rightarrow> recv_inv env s h0 f0 y"
proof -
  obtain l ov where cl: "clip_length (r_udata x) (r_offset x) cap (push_bit 2 (ucast msg)) = (l, ov)"
    by fastforce
  have l: "unat l < 2 ^ 63"
    using clip_length_bound [OF cl] cap unat_lt32 [of msg] by (simp add: nbytes_unat)
  let ?x = "x\<lparr>r_length := l, r_recvd := 0, r_overflow := ov\<rparr>"
  let ?y = "?x\<lparr>r_udata := r_udata x + r_offset x\<rparr>"
  obtain h where h: "h0 \<subseteq># h" "maps_held h f0 x" using inv by (auto simp: recv_inv_def)
  have env: "env_good env" and room: "sg_room (num_sg s) (sg_buf (x_dir x))"
    using inv by (simp_all add: recv_inv_def)
  show ?thesis
  proof (cases "l > 0 \<or> ov > 0")
    case False
    then show ?thesis using inv l by (auto simp: recv_txn_len_def cl Let_def recv_inv_def maps_held_def)
  next
    case True
    obtain mo z where f: "fill_recv env s ?y = (mo, z)" by fastforce
    have call: "recv_txn_len env s c cap msg x = (case mo of None \<Rightarrow> Inl (recv_result z, z)
        | Some m \<Rightarrow> if sm_num_sg m = 0 then Inl (recv_result z, z) else Inr (offer_recv_first c m z))"
      using True f by (simp add: recv_txn_len_def cl Let_def)
    have "sg_room (num_sg s) (sg_buf (x_dir ?y))" "unat (r_length ?y) < 2 ^ 63" using room l by simp_all
    note F = fill_recv_cases [OF env this f]
    have hy: "maps_held h f0 ?y" using h(2) by (simp add: maps_held_def)
    show ?thesis
    proof (cases mo)
      case None
      from F(11) [OF None] h show ?thesis unfolding call None
        by (simp add: keeps_def takes_def maps_held_def subset_mset.add_increasing)
    next
      case (Some m)
      note G = F(12) [OF Some]
      from offer_first_held [OF hy, of m z c] G F(2)
      have o: "maps_held (h + opt_resources (sg_map_1 (x_dir ?y))) f0 (offer_recv_first c m z)" by simp
      have "h0 \<subseteq># h + opt_resources (sg_map_1 (x_dir ?y))"
        using h(1) by (simp add: subset_mset.add_increasing2)
      with o G l F(6) env have "recv_inv env s h0 f0 (offer_recv_first c m z)"
        by (auto simp: recv_inv_def offer_recv_first_def announce_frame consume_recv_def Let_def
            unat_diff_le maps_held_def)
      moreover have "keeps h0 f0 z"
        using G h by (simp add: keeps_def takes_def maps_held_def subset_mset.add_increasing)
      ultimately show ?thesis unfolding call Some by simp
    qed
  qed
qed

lemma recv_sg_read_cases:
  assumes env: "env_good env" and held: "maps_held h f0 x"
    and room: "sg_room (num_sg s) (sg_buf (x_dir x))" and len: "unat (r_length x) < 2 ^ 63"
  shows "case recv_sg_read env s c x of
      Inl (v, y) \<Rightarrow> held (x_kern y) = h \<and> faults (x_kern y) = f0 \<or> keeps h f0 y
    | Inr y \<Rightarrow> maps_held h f0 y \<and> sg_room (num_sg s) (sg_buf (x_dir y)) \<and> unat (r_length y) < 2 ^ 63"
proof -
  let ?x = "release_recv env x"
  note R = release_recv_held [OF held, of env]
  have x: "sg_room (num_sg s) (sg_buf (x_dir ?x))" "unat (r_length ?x) < 2 ^ 63"
    using room len by (simp_all add: release_recv_def)
  show ?thesis
  proof (cases "r_length ?x > 0 \<or> r_overflow ?x > 0")
    case False
    then show ?thesis using R x by (simp add: recv_sg_read_def)
  next
    case True
    obtain mo z where f: "fill_recv env s ?x = (mo, z)" by fastforce
    have call: "recv_sg_read env s c x = (case mo of None \<Rightarrow> Inl (recv_result z, free_maps env z)
        | Some m \<Rightarrow> if sm_num_sg m = 0 then Inl (recv_result z, free_maps env z)
                   else Inr (offer_recv_next c m z))"
      using True f by (simp add: recv_sg_read_def Let_def)
    note F = fill_recv_cases [OF env x f]
    show ?thesis
    proof (cases mo)
      case None
      have "maps_held h f0 z" using F(11) [OF None] F(2,3) R(1) by (simp add: maps_held_def takes_def)
      from free_maps_balanced [OF this, of env] show ?thesis unfolding call None by (simp add: balanced_def)
    next
      case (Some m)
      note G = F(12) [OF Some]
      have nz: "maps_held (h + mapping_resources m) f0 z"
        using G F(2,3) R(1) by (simp add: maps_held_def takes_def ac_simps)
      from free_maps_balanced [OF this, of env]
      have k: "keeps h f0 (free_maps env z)" by (simp add: balanced_def keeps_def)
      have "maps_held h f0 (offer_recv_next c m z)"
        using offer_next_held [OF R(1), of m z c] G F(3) R(2) by simp
      moreover have "unat (r_length ?x - sm_length m) < 2 ^ 63" using G x(2) by (simp add: unat_diff_le)
      ultimately show ?thesis unfolding call Some using G k F(6)
        by (simp add: offer_recv_next_def announce_frame consume_recv_def Let_def)
    qed
  qed
qed

lemma recv_txn_done_held:
  assumes "maps_held h f0 x"
  shows "case recv_txn_done env msg x of
      Inl (v, y) \<Rightarrow> balanced h f0 y \<and> v = msg
    | Inr y \<Rightarrow> maps_held h f0 y \<and> sg_map_0 (x_dir y) = None \<and> sg_map_1 (x_dir y) = None \<and>
        sg_buf (x_dir y) = sg_buf (x_dir x) \<and> r_length y = r_length x \<and> msgs (x_dir y) = msgs (x_dir x)"
proof -
  have "ucast (drop_bit 2 (push_bit 2 (ucast msg) :: u64)) = msg"
    by (rule bit_word_eqI) (auto simp: bit_simps)
  then show ?thesis using free_maps_balanced [OF assms, of env]
    by (simp add: recv_txn_done_def Let_def balanced_def maps_held_def opt_resources_def recv_result_def
        free_maps_def)
qed

lemma recv_handle_cases:
  assumes inv: "recv_inv env s h0 f0 x" and cap: "unat cap < 2 ^ 63"
  shows "case recv_handle env s c cap t m x of
      Inl (v, y) \<Rightarrow> keeps h0 f0 y | Inr y \<Rightarrow> recv_inv env s h0 f0 y"
proof -
  obtain h where h: "h0 \<subseteq># h" "maps_held h f0 x" using inv by (auto simp: recv_inv_def)
  have env: "env_good env" and room: "sg_room (num_sg s) (sg_buf (x_dir x))"
    and len: "unat (r_length x) < 2 ^ 63" using inv by (simp_all add: recv_inv_def)
  have "t = EVENT_TXN_OFFLAST \<or> t = EVENT_TXN_LEN \<or> (t = EVENT_SG_BUF_READ \<and> r_last x \<noteq> -1) \<or>
      (t = EVENT_TXN_DONE \<and> r_last x \<noteq> -1) \<or> recv_handle env s c cap t m x = Inr x"
    by (simp add: recv_handle_def)
  then consider "t = EVENT_TXN_OFFLAST" | "t = EVENT_TXN_LEN" | "t = EVENT_SG_BUF_READ" "r_last x \<noteq> -1"
    | "t = EVENT_TXN_DONE" "r_last x \<noteq> -1" | "recv_handle env s c cap t m x = Inr x"
    by (elim disjE conjE) blast+
  then show ?thesis
  proof cases
    case 1
    then show ?thesis using inv by (simp add: recv_handle_def recv_inv_def maps_held_def)
  next
    case 2
    then show ?thesis using recv_txn_len_inv [OF inv cap, of c m] by (simp add: recv_handle_def)
  next
    case 3
    then have e: "recv_handle env s c cap t m x = recv_sg_read env s c x" by (simp add: recv_handle_def)
    show ?thesis
    proof (cases "recv_sg_read env s c x")
      case (Inl r)
      then show ?thesis unfolding e using recv_sg_read_cases [OF env h(2) room len, of c] h(1)
        by (cases r) (auto simp: keeps_def intro: subset_mset.order_trans)
    next
      case (Inr y)
      then show ?thesis unfolding e using recv_sg_read_cases [OF env h(2) room len, of c] h(1) env
        by (auto simp: recv_inv_def)
    qed
  next
    case 4
    then have e: "recv_handle env s c cap t m x = recv_txn_done env m x" by (simp add: recv_handle_def)
    show ?thesis
    proof (cases "recv_txn_done env m x")
      case (Inl r)
      then show ?thesis unfolding e using recv_txn_done_held [OF h(2), where env = env and msg = m] balanced_keeps [OF h(1)]
        by (cases r) auto
    next
      case (Inr y)
      then show ?thesis unfolding e using recv_txn_done_held [OF h(2), where env = env and msg = m] h(1) env room len
        by (auto simp: recv_inv_def)
    qed
  next
    case 5
    then show ?thesis using inv by simp
  qed
qed

definition recv_inv_cap ::
  "kenv \<Rightarrow> fpga_state \<Rightarrow> u64 \<Rightarrow> resource multiset \<Rightarrow> fault list \<Rightarrow> recv_state \<Rightarrow> bool" where
  "recv_inv_cap env s cap h0 f0 x \<longleftrightarrow> unat cap < 2 ^ 63 \<and> recv_inv env s h0 f0 x"

interpretation recv_loop: message_loop "recv_handle env s c cap" "recv_signal env" "recv_timeout env"
  "recv_inv_cap env s cap h0 f0" "\<lambda>v y. keeps h0 f0 y" for env s c cap h0 f0
proof (unfold_locales, goal_cases)
  case (1 x q)
  then show ?case by (simp add: recv_inv_cap_def recv_inv_def maps_held_def)
next
  case (2 x t m v y)
  then show ?case using recv_handle_cases [of env s h0 f0 x cap c t m] by (simp add: recv_inv_cap_def)
next
  case (3 x t m y)
  then show ?case using recv_handle_cases [of env s h0 f0 x cap c t m] by (simp add: recv_inv_cap_def)
next
  case (4 x v y)
  then show ?case
    by (auto simp: recv_signal_def recv_inv_cap_def recv_inv_def intro: balanced_keeps free_maps_balanced)
next
  case (5 x v y)
  then show ?case
    by (auto simp: recv_timeout_def recv_inv_cap_def recv_inv_def intro: balanced_keeps free_maps_balanced)
qed

section \<open>The whole call\<close>

definition recv_ready :: "device \<Rightarrow> bool" where
  "recv_ready d \<longleftrightarrow> length (recv (sc d)) = num_chnls (sc d) \<and>
     (\<forall>c < num_chnls (sc d). sg_room (num_sg (sc d)) (sg_buf (recv (sc d) ! c)))"

lemma put_recv_kern [simp]: "kern (put_recv c d x) = x_kern x"
  by (simp add: put_recv_def)

lemma start_recv_inv:
  assumes "recv_ready d" "c < num_chnls (sc d)" "env_good env"
  shows "recv_inv_cap env (sc d) (push_bit 2 (ucast (len :: u32))) (held (kern d)) (faults (kern d))
    (start_recv c udata d)"
proof -
  have "unat (push_bit 2 (ucast len) :: u64) < 2 ^ 63" using unat_lt32 [of len] by (simp add: nbytes_unat)
  moreover have "maps_held (held (kern d)) (faults (kern d)) (start_recv c udata d)"
    by (simp add: maps_held_def start_recv_def opt_resources_def)
  ultimately show ?thesis using assms
    by (auto simp: recv_inv_cap_def recv_inv_def start_recv_def recv_ready_def)
qed

lemma chnl_recv_keeps:
  assumes r: "chnl_recv env hz rounds chnl bufp len timeout d = Some (v, d')"
    and ready: "recv_ready d" and env: "env_good env"
  shows "held (kern d) \<subseteq># held (kern d') \<and> faults (kern d') = faults (kern d)"
proof (cases "chnl \<ge> int (num_chnls (sc d)) \<or> chnl < 0 \<or> bufp AND 3 \<noteq> 0")
  case True
  then show ?thesis using r by (auto simp: chnl_recv_def Let_def split: if_splits)
next
  case False
  let ?c = "nat chnl" and ?cap = "push_bit 2 (ucast len) :: u64"
  have c: "?c < num_chnls (sc d)" using False by auto
  obtain z where ml: "msg_loop (recv_handle env (sc d) ?c ?cap) (recv_signal env) (recv_timeout env)
      (to_jiffies hz timeout) rounds (start_recv ?c bufp d) = Some (v, z)" "d' = put_recv ?c d z"
    using r False by (auto simp: chnl_recv_def Let_def split: if_splits)
  from recv_loop.loop_post [OF start_recv_inv [OF ready c env] ml(1)] ml(2)
  show ?thesis by (simp add: keeps_def)
qed

section \<open>Progress\<close>

text \<open>
  A receive that has its offset and length: whatever is left of the user buffer does not wrap,
  and the kernel refuses nothing.  Then the next scatterlist can always be built.
\<close>

definition recv_live :: "kenv \<Rightarrow> fpga_state \<Rightarrow> resource multiset \<Rightarrow> fault list \<Rightarrow> recv_state \<Rightarrow> bool" where
  "recv_live env s h f0 x \<longleftrightarrow> env_generous env \<and> 0 < num_sg s \<and> num_sg s < 2 ^ 63 \<and>
     sg_room (num_sg s) (sg_buf (x_dir x)) \<and> unat (r_length x) < 2 ^ 63 \<and> maps_held h f0 x \<and>
     (r_length x > 0 \<longrightarrow> unat (r_udata x) + unat (r_length x) \<le> 2 ^ 64)"

lemma fill_overflow_only:
  assumes "env_generous env" "0 < num_sg s" "ovf > 0"
  shows "\<exists>m buf' k'. fill_sg_buf env s buf udata 0 ovf dir k = (Some m, buf', k') \<and> 0 < sm_num_sg m"
proof -
  obtain p k1 where km: "kmalloc env k = (Some p, k1)"
    using assms(1) by (simp add: kmalloc_def env_generous_def)
  obtain n r bk where fs: "fill_spill (spill_buf_hw_addr s) (num_sg s) ovf 0 ovf 0 (buf, k1) = (n, r, bk)"
    by (metis prod_cases3)
  have True: "(0 :: u64) = 0 \<and> ovf > 0 \<and> 0 < num_sg s" using assms by simp
  note e = fill_spill.simps [of "spill_buf_hw_addr s" "num_sg s" ovf 0 ovf 0 "(buf, k1)",
      unfolded if_P [OF True]]
  have "0 < n" using fill_spill_frame [OF fs [unfolded e]] by simp
  then show ?thesis using km fs by (cases bk) (simp add: fill_sg_buf_def Let_def)
qed

lemma fill_recv_live:
  assumes live: "recv_live env s h f0 x" and more: "r_length x > 0 \<or> r_overflow x > 0"
  obtains m y where "fill_recv env s x = (Some m, y)" "0 < sm_num_sg m"
proof -
  obtain mo y where f: "fill_recv env s x = (mo, y)" by fastforce
  obtain buf k where fs: "fill_sg_buf env s (sg_buf (x_dir x)) (r_udata x) (r_length x) (r_overflow x)
      DMA_FROM_DEVICE (x_kern x) = (mo, buf, k)"
    using f by (auto simp: fill_recv_def split: prod.splits)
  have good: "kenv_ok env" "dma_ok env" and room: "sg_room (num_sg s) (sg_buf (x_dir x))"
    and big: "unat (r_length x) < 2 ^ 63"
    using live by (simp_all add: recv_live_def env_generous_def env_good_def)
  have "\<exists>m. mo = Some m \<and> 0 < sm_num_sg m"
  proof (cases "r_length x > 0")
    case True
    have "mo \<noteq> None"
      using generous_fill [of env "r_length x" "r_udata x" s "sg_buf (x_dir x)" "r_overflow x" DMA_FROM_DEVICE
          "x_kern x"] live True fs
      by (simp add: recv_live_def)
    then obtain m where "mo = Some m" by auto
    with fill_Some(7) [OF fs [unfolded this] good room big True] show ?thesis by simp
  next
    case False
    then have z: "r_length x = 0" and o: "r_overflow x > 0" using more by (simp_all add: word_gt_0)
    show ?thesis
      using fill_overflow_only [of env s "r_overflow x" "sg_buf (x_dir x)" "r_udata x" DMA_FROM_DEVICE "x_kern x"]
        live o fs by (auto simp: recv_live_def z)
  qed
  then show thesis using that f by blast
qed

lemma consume_fits:
  fixes u l m :: u64
  assumes "unat u + unat l \<le> 2 ^ 64" "unat m \<le> unat l"
  shows "unat (u + m) + unat (l - m) \<le> 2 ^ 64"
proof -
  have "unat (u + m) \<le> unat u + unat m" by (simp add: unat_word_ariths)
  then show ?thesis using assms by (simp add: unat_diff_le)
qed

lemma recv_live_consume:
  assumes live: "recv_live env s h f0 x" and m: "unat (sm_length m) \<le> unat (r_length x)"
    and y: "maps_held h f0 y" "sg_room (num_sg s) (sg_buf (x_dir y))"
      "r_udata y = r_udata x + sm_length m" "r_length y = r_length x - sm_length m"
  shows "recv_live env s h f0 y"
proof -
  have l: "unat (r_length y) = unat (r_length x) - unat (sm_length m)" unfolding y(4) by (rule unat_diff_le [OF m])
  then have "unat (r_length y) < 2 ^ 63" using live by (auto simp: recv_live_def)
  moreover have "unat (r_udata y) + unat (r_length y) \<le> 2 ^ 64" if "r_length y > 0"
  proof -
    have "r_length x > 0" using that l by (simp add: word_less_nat_alt)
    then have "unat (r_udata x) + unat (r_length x) \<le> 2 ^ 64" using live by (simp add: recv_live_def)
    from consume_fits [OF this m] show ?thesis unfolding y(3,4) .
  qed
  ultimately show ?thesis using live y(1,2) by (simp add: recv_live_def)
qed

lemma offer_frame:
  "r_udata (offer_recv_next c m z) = r_udata z + sm_length m"
  "r_length (offer_recv_next c m z) = r_length z - sm_length m"
  "sg_buf (x_dir (offer_recv_next c m z)) = sg_buf (x_dir z)"
  "msgs (x_dir (offer_recv_next c m z)) = msgs (x_dir z)" "r_last (offer_recv_next c m z) = r_last z"
  "r_udata (offer_recv_first c m z) = r_udata z + sm_length m"
  "r_length (offer_recv_first c m z) = r_length z - sm_length m"
  "sg_buf (x_dir (offer_recv_first c m z)) = sg_buf (x_dir z)"
  "msgs (x_dir (offer_recv_first c m z)) = msgs (x_dir z)" "r_last (offer_recv_first c m z) = r_last z"
  by (simp_all add: offer_recv_next_def offer_recv_first_def announce_frame consume_recv_def Let_def)

lemma recv_read_live:
  assumes live: "recv_live env s h f0 x"
  obtains y where "recv_sg_read env s c x = Inr y" "recv_live env s h f0 y"
    "msgs (x_dir y) = msgs (x_dir x)" "r_last y = r_last x"
proof -
  let ?x = "release_recv env x"
  have held: "maps_held h f0 x" using live by (simp add: recv_live_def)
  note R = release_recv_held [OF held, of env]
  have l: "recv_live env s h f0 ?x"
    using live R by (simp add: recv_live_def) (simp add: release_recv_def)
  have mm: "msgs (x_dir ?x) = msgs (x_dir x)" "r_last ?x = r_last x" by (simp_all add: release_recv_def)
  show thesis
  proof (cases "r_length ?x > 0 \<or> r_overflow ?x > 0")
    case False
    then have "recv_sg_read env s c x = Inr ?x" by (simp add: recv_sg_read_def)
    then show thesis using that [of ?x] l mm by simp
  next
    case True
    obtain m z where f: "fill_recv env s ?x = (Some m, z)" "0 < sm_num_sg m"
      by (rule fill_recv_live [OF l True])
    have env: "env_good env" "sg_room (num_sg s) (sg_buf (x_dir ?x))" "unat (r_length ?x) < 2 ^ 63"
      using l by (simp_all add: recv_live_def env_generous_def)
    note F = fill_recv_cases [OF env f(1)]
    note G = F(12) [OF refl]
    have o: "maps_held h f0 (offer_recv_next c m z)"
      using offer_next_held [OF R(1), of m z c] G F(3) R(2) by simp
    have call: "recv_sg_read env s c x = Inr (offer_recv_next c m z)"
      using True f by (simp add: recv_sg_read_def Let_def)
    have "recv_live env s h f0 (offer_recv_next c m z)"
      by (rule recv_live_consume [OF l _ o, of m]) (use G F(5,6) in \<open>simp_all add: offer_frame\<close>)
    moreover have "msgs (x_dir (offer_recv_next c m z)) = msgs (x_dir x)" "r_last (offer_recv_next c m z) = r_last x"
      using F mm by (simp_all add: offer_frame)
    ultimately show thesis using that call by blast
  qed
qed

lemma recv_len_live:
  assumes live: "recv_live env s h f0 x" and m1: "sg_map_1 (x_dir x) = None"
    and cap: "unat cap < 2 ^ 63" and buf: "unat (r_udata x) + unat cap \<le> 2 ^ 64"
    and off: "unat (r_offset x) < 2 ^ 63"
  obtains y where "recv_txn_len env s c cap v x = Inr y" "recv_live env s h f0 y"
    "msgs (x_dir y) = msgs (x_dir x)" "r_last y = r_last x"
proof -
  obtain l ov where cl: "clip_length (r_udata x) (r_offset x) cap (push_bit 2 (ucast v)) = (l, ov)"
    by fastforce
  have l: "unat l < 2 ^ 63"
    using clip_length_bound [OF cl] cap unat_lt32 [of v] by (simp add: nbytes_unat)
  have inside: "0 < l \<longrightarrow> unat (r_offset x) + unat l \<le> unat cap"
    using clip_length_inside [OF cl cap off] by (simp add: nbytes_unat unat_lt32 [THEN order_less_le_trans])
  let ?x = "x\<lparr>r_length := l, r_recvd := 0, r_overflow := ov\<rparr>"
  let ?y = "?x\<lparr>r_udata := r_udata x + r_offset x\<rparr>"
  have ly: "recv_live env s h f0 ?y" "recv_live env s h f0 (if l > 0 then ?y else ?x)"
  proof -
    have "unat (r_udata x + r_offset x) \<le> unat (r_udata x) + unat (r_offset x)"
      by (simp add: unat_word_ariths)
    with live l inside buf show "recv_live env s h f0 ?y" "recv_live env s h f0 (if l > 0 then ?y else ?x)"
      by (auto simp: recv_live_def maps_held_def)
  qed
  show thesis
  proof (cases "l > 0 \<or> ov > 0")
    case False
    then have "recv_txn_len env s c cap v x = Inr ?x" by (auto simp: recv_txn_len_def cl Let_def)
    moreover have "recv_live env s h f0 ?x" using False ly(2) by simp
    ultimately show thesis using that [of ?x] by simp
  next
    case True
    obtain m z where f: "fill_recv env s ?y = (Some m, z)" "0 < sm_num_sg m"
      by (rule fill_recv_live [OF ly(1)]) (use True in simp)
    have env: "env_good env" "sg_room (num_sg s) (sg_buf (x_dir ?y))" "unat (r_length ?y) < 2 ^ 63"
      using ly(1) by (simp_all add: recv_live_def env_generous_def)
    note F = fill_recv_cases [OF env f(1)]
    note G = F(12) [OF refl]
    have hy: "maps_held h f0 ?y" using ly(1) by (simp add: recv_live_def)
    have o: "maps_held h f0 (offer_recv_first c m z)"
      using offer_first_held [OF hy, of m z c] G F(2) m1 by (simp add: opt_resources_def)
    have call: "recv_txn_len env s c cap v x = Inr (offer_recv_first c m z)"
      using True f by (simp add: recv_txn_len_def cl Let_def)
    have "recv_live env s h f0 (offer_recv_first c m z)"
      by (rule recv_live_consume [OF ly(1) _ o, of m]) (use G F(5,6) in \<open>simp_all add: offer_frame\<close>)
    moreover have "msgs (x_dir (offer_recv_first c m z)) = msgs (x_dir x)" "r_last (offer_recv_first c m z) = r_last x"
      using F by (simp_all add: offer_frame)
    ultimately show thesis using that call by blast
  qed
qed

lemma recv_loop_live:
  "recv_live env s h f0 x \<Longrightarrow> r_last x = 1 \<Longrightarrow>
   streams (replicate n (EVENT_SG_BUF_READ, 0) @ [(EVENT_TXN_DONE, v)]) rs (x_dir x) \<Longrightarrow>
   \<exists>y. msg_loop (recv_handle env s c cap) (recv_signal env) (recv_timeout env) ty (rs @ rest) x = Some (v, y) \<and>
     balanced h f0 y"
proof (induction n arbitrary: x rs)
  case 0
  have "streams ((EVENT_TXN_DONE, v) # []) rs (x_dir x)" using 0(3) by simp
  then obtain q rs' where q: "msg_loop (recv_handle env s c cap) (recv_signal env) (recv_timeout env) ty (rs @ rest) x =
       (case recv_handle env s c cap EVENT_TXN_DONE v (x\<lparr>x_dir := (x_dir x)\<lparr>msgs := q\<rparr>\<rparr>) of
          Inl r \<Rightarrow> Some r
        | Inr y \<Rightarrow> msg_loop (recv_handle env s c cap) (recv_signal env) (recv_timeout env) ty (rs' @ rest) y)"
    by (rule msg_loop_streams)
  let ?x = "x\<lparr>x_dir := (x_dir x)\<lparr>msgs := q\<rparr>\<rparr>"
  have h: "maps_held h f0 ?x" using 0(1) by (simp add: recv_live_def maps_held_def)
  have "recv_handle env s c cap EVENT_TXN_DONE v ?x = recv_txn_done env v ?x"
    using 0(2) by (simp add: recv_handle_def)
  moreover obtain y where "recv_txn_done env v ?x = Inl (v, y)" "balanced h f0 y"
    using recv_txn_done_held [OF h, where env = env and msg = v] 0(2)
    by (auto simp: recv_txn_done_def Let_def free_maps_def)
  ultimately show ?case using q by auto
next
  case (Suc n)
  let ?ms = "replicate n (EVENT_SG_BUF_READ, 0) @ [(EVENT_TXN_DONE, v)]"
  have "streams ((EVENT_SG_BUF_READ, 0) # ?ms) rs (x_dir x)" using Suc.prems(3) by simp
  then obtain q rs' where qq: "streams ?ms rs' ((x_dir x)\<lparr>msgs := q\<rparr>)" and
    q: "msg_loop (recv_handle env s c cap) (recv_signal env) (recv_timeout env) ty (rs @ rest) x =
       (case recv_handle env s c cap EVENT_SG_BUF_READ 0 (x\<lparr>x_dir := (x_dir x)\<lparr>msgs := q\<rparr>\<rparr>) of
          Inl r \<Rightarrow> Some r
        | Inr y \<Rightarrow> msg_loop (recv_handle env s c cap) (recv_signal env) (recv_timeout env) ty (rs' @ rest) y)"
    by (rule msg_loop_streams)
  let ?x = "x\<lparr>x_dir := (x_dir x)\<lparr>msgs := q\<rparr>\<rparr>"
  have l: "recv_live env s h f0 ?x" using Suc.prems(1) by (simp add: recv_live_def maps_held_def)
  obtain y where y: "recv_sg_read env s c ?x = Inr y" "recv_live env s h f0 y"
    "msgs (x_dir y) = msgs (x_dir ?x)" "r_last y = r_last ?x" by (rule recv_read_live [OF l])
  have "recv_handle env s c cap EVENT_SG_BUF_READ 0 ?x = Inr y"
    using y(1) Suc.prems(2) by (simp add: recv_handle_def)
  moreover have "streams ?ms rs' (x_dir y)" "r_last y = 1" using qq y(3,4) Suc.prems(2) by (simp_all add: streams_def)
  ultimately show ?case using Suc.IH [OF y(2)] q by auto
qed

text \<open>The messages of one transaction, which the device announces as the last.\<close>

definition one_txn :: "u32 \<Rightarrow> u32 \<Rightarrow> nat \<Rightarrow> u32 \<Rightarrow> (u32 \<times> u32) list" where
  "one_txn ol l n v = (EVENT_TXN_OFFLAST, ol) # (EVENT_TXN_LEN, l) #
     replicate n (EVENT_SG_BUF_READ, 0) @ [(EVENT_TXN_DONE, v)]"

lemma chnl_recv_live:
  assumes ready: "recv_ready d" and env: "env_generous env"
    and sgs: "0 < num_sg (sc d)" "num_sg (sc d) < 2 ^ 63"
    and chnl: "c < num_chnls (sc d)" and rs: "streams (one_txn ol l n v) rs (recv (sc d) ! c)"
    and align: "bufp AND 3 = 0" and fits: "unat bufp + 4 * unat len \<le> 2 ^ 64" and ol: "ol AND 1 = 1"
  shows "\<exists>d'. chnl_recv env hz (rs @ rest) (int c) bufp len timeout d = Some (v, d') \<and>
      held (kern d') = held (kern d) \<and> faults (kern d') = faults (kern d)"
proof -
  let ?s = "sc d" and ?cap = "push_bit 2 (ucast len) :: u64"
  let ?h = "recv_handle env ?s c ?cap" and ?ty = "to_jiffies hz timeout"
  let ?ms = "replicate n (EVENT_SG_BUF_READ, 0) @ [(EVENT_TXN_DONE, v)]"
  let ?x0 = "start_recv c bufp d"
  have cap: "unat ?cap = 4 * unat len" by (rule nbytes_unat)
  have q0: "streams ((EVENT_TXN_OFFLAST, ol) # (EVENT_TXN_LEN, l) # ?ms) rs (x_dir ?x0)"
    using rs by (simp add: start_recv_def streams_def one_txn_def)
  obtain q1 rs1 where q1: "streams ((EVENT_TXN_LEN, l) # ?ms) rs1 ((x_dir ?x0)\<lparr>msgs := q1\<rparr>)"
    "msg_loop ?h (recv_signal env) (recv_timeout env) ?ty (rs @ rest) ?x0 =
       (case ?h EVENT_TXN_OFFLAST ol (?x0\<lparr>x_dir := (x_dir ?x0)\<lparr>msgs := q1\<rparr>\<rparr>) of
          Inl r \<Rightarrow> Some r
        | Inr y \<Rightarrow> msg_loop ?h (recv_signal env) (recv_timeout env) ?ty (rs1 @ rest) y)"
    by (rule msg_loop_streams [OF q0])
  let ?o = "push_bit 2 (ucast (drop_bit 1 ol)) :: u64"
  let ?x1 = "?x0\<lparr>x_dir := (x_dir ?x0)\<lparr>msgs := q1\<rparr>, r_offset := ?o, r_last := 1\<rparr>"
  have h1: "?h EVENT_TXN_OFFLAST ol (?x0\<lparr>x_dir := (x_dir ?x0)\<lparr>msgs := q1\<rparr>\<rparr>) = Inr ?x1"
    by (simp add: recv_handle_def ol)
  have q1': "streams ((EVENT_TXN_LEN, l) # ?ms) rs1 (x_dir ?x1)" using q1(1) by simp
  obtain q2 rs2 where q2: "streams ?ms rs2 ((x_dir ?x1)\<lparr>msgs := q2\<rparr>)"
    "msg_loop ?h (recv_signal env) (recv_timeout env) ?ty (rs1 @ rest) ?x1 =
       (case ?h EVENT_TXN_LEN l (?x1\<lparr>x_dir := (x_dir ?x1)\<lparr>msgs := q2\<rparr>\<rparr>) of
          Inl r \<Rightarrow> Some r
        | Inr y \<Rightarrow> msg_loop ?h (recv_signal env) (recv_timeout env) ?ty (rs2 @ rest) y)"
    by (rule msg_loop_streams [OF q1'])
  let ?x2 = "?x1\<lparr>x_dir := (x_dir ?x1)\<lparr>msgs := q2\<rparr>\<rparr>"
  have live: "recv_live env ?s (held (kern d)) (faults (kern d)) ?x2"
    using ready env sgs chnl
    by (simp add: recv_live_def recv_ready_def start_recv_def maps_held_def opt_resources_def)
  have o63: "unat (r_offset ?x2) < 2 ^ 63"
    using unat_lt32 [of "drop_bit 1 ol"] by (simp add: nbytes_unat)
  have fit: "unat (r_udata ?x2) + unat ?cap \<le> 2 ^ 64" using fits cap by (simp add: start_recv_def)
  have m1: "sg_map_1 (x_dir ?x2) = None" by (simp add: start_recv_def)
  have c63: "unat ?cap < 2 ^ 63" using cap unat_lt32 [of len] by simp
  obtain y where y: "recv_txn_len env ?s c ?cap l ?x2 = Inr y" "recv_live env ?s (held (kern d)) (faults (kern d)) y"
    "msgs (x_dir y) = msgs (x_dir ?x2)" "r_last y = r_last ?x2"
    by (rule recv_len_live [OF live m1 c63 fit o63])
  have h2: "?h EVENT_TXN_LEN l ?x2 = Inr y" using y(1) by (simp add: recv_handle_def)
  have "streams ?ms rs2 (x_dir y)" "r_last y = 1" using q2(1) y(3,4) by (simp_all add: streams_def)
  from recv_loop_live [OF y(2) this(2,1), of c ?cap ?ty rest] obtain z where
    z: "msg_loop ?h (recv_signal env) (recv_timeout env) ?ty (rs2 @ rest) y = Some (v, z)"
    "balanced (held (kern d)) (faults (kern d)) z" by blast
  have "msg_loop ?h (recv_signal env) (recv_timeout env) ?ty (rs @ rest) ?x0 = Some (v, z)"
    by (simp only: q1(2) h1 sum.case q2(2) h2 z(1))
  then show ?thesis using chnl align z(2) by (simp add: chnl_recv_def balanced_def)
qed

section \<open>Small instances\<close>

text \<open>A kernel whose page numbers are those of the addresses, and one where no DMA mapping succeeds.\<close>

definition paged_env :: kenv where
  "paged_env = generous_env\<lparr>user_pages := (\<lambda>_ u n. map (\<lambda>i. unat (drop_bit 12 u) + i) [0..<n])\<rparr>"

definition unmappable_env :: kenv where
  "unmappable_env = generous_env\<lparr>dma_map := (\<lambda>_ _. [])\<rparr>"

definition small_device :: device where
  "small_device = \<lparr>sc = small_fpga\<lparr>num_chnls := 1, recv := [(blank_chnl 5)\<lparr>sg_buf := replicate 16 0\<rparr>],
      send := [(blank_chnl 4)\<lparr>sg_buf := replicate 16 0\<rparr>]\<rparr>, mmio = [], kern = fresh_kernel\<rparr>"

lemma idle_recv_ready: "n \<le> 12 \<Longrightarrow> recv_ready (idle_device n)"
  by (simp add: recv_ready_def idle_device_def blank_chnl_def sg_room_def)

lemma idle_recv_streams:
  assumes "c < n" and "n \<le> 12" and "served 4 0 rs" and "flow rs = ms" and "length ms \<le> 100"
  shows "streams ms rs (recv (sc (idle_device n)) ! c)"
proof -
  have "queue_cap (msgs (blank_chnl 5)) = 4" "credit (msgs (blank_chnl 5)) (length ms)"
    using assms(5) by (simp_all add: blank_chnl_facts) (simp add: credit_def blank_chnl_def)
  then show ?thesis
    using idle_device_facts [of c n] blank_chnl_facts assms by (simp add: streams_def)
qed

section \<open>Properties\<close>


lemma idle_recv_run:
  "\<exists>d'. chnl_recv generous_env 250 (map deliver_round [(EVENT_TXN_OFFLAST, 1), (EVENT_TXN_LEN, 2048),
      (EVENT_SG_BUF_READ, 0), (EVENT_TXN_DONE, 2048)]) 1 0x1000 1024 0 (idle_device 2) = Some (2048, d')"
proof -
  let ?rs = "map deliver_round [(EVENT_TXN_OFFLAST, 1), (EVENT_TXN_LEN, 2048), (EVENT_SG_BUF_READ, 0), (EVENT_TXN_DONE, 2048)]"
  have "num_sg (sc (idle_device 2)) = 200" "num_chnls (sc (idle_device 2)) = 2"
    by (simp_all add: idle_device_def)
  moreover have "streams (one_txn 1 2048 1 2048) ?rs (recv (sc (idle_device 2)) ! 1)"
    by (rule idle_recv_streams) (simp_all add: served_deliver one_txn_def del: list.map)
  ultimately show ?thesis
    using chnl_recv_live [where d = "idle_device 2" and c = 1 and n = 1 and bufp = "0x1000" and len = 1024 and ol = 1
          and l = 2048 and v = 2048 and rest = "[]" and hz = 250 and timeout = 0 and rs = ?rs,
        OF idle_recv_ready generous_env_generous]
    by (auto simp del: list.map)
qed



text \<open>The announcement comes as one interrupt, while the thread goes to sleep; the end together with the last request.\<close>

definition uneven_recv :: "round list" where
  "uneven_recv =
     [\<lparr>irq_first = [], irq_second = [], slept = (\<lambda>_. 7), signal_pending = False\<rparr>,
      \<lparr>irq_first = [], irq_second = [(EVENT_TXN_OFFLAST, 5), (EVENT_TXN_LEN, 9000)], slept = (\<lambda>_. 0), signal_pending = False\<rparr>,
      \<lparr>irq_first = [], irq_second = [], slept = (\<lambda>_. 0), signal_pending = False\<rparr>,
      deliver_round (EVENT_SG_BUF_READ, 0),
      \<lparr>irq_first = [(EVENT_SG_BUF_READ, 0), (EVENT_TXN_DONE, 9000)], irq_second = [], slept = (\<lambda>_. 0), signal_pending = False\<rparr>,
      \<lparr>irq_first = [], irq_second = [], slept = (\<lambda>_. 0), signal_pending = False\<rparr>]"


text \<open>A transaction is divided without loss: of \<open>len\<close> bytes at \<open>offset\<close>, as many as the user
  buffer has room for after the offset go to the user buffer, the rest is spilled, and together
  they are the whole transaction.\<close>

theorem clip_length_splits:
  assumes "clip_length udata off cap len = (l, ov)"
    and "unat udata + unat off + unat len < 2 ^ 64" and "unat cap < 2 ^ 63"
  shows "unat l = min (unat len) (unat cap - unat off) \<and> unat l + unat ov = unat len"
proof (cases "len = 0")
  case True
  then show ?thesis using assms(1) unat_diff_le [of off cap]
    by (auto simp: clip_length_def Let_def word_less_nat_alt split: if_splits)
next
  case False
  then have pos: "0 < unat len" by (simp add: unat_gt_0)
  have "unat (udata + off + (len - 1)) = unat udata + unat off + (unat len - 1)"
    using assms(2) False pos by (simp add: unat_word_ariths unat_minus_one)
  then have nw: "\<not> udata + off + len - 1 < udata"
    by (simp add: add_diff_eq word_less_nat_alt)
  have s: "unat (off + len) = unat off + unat len" "unat (len + off) = unat len + unat off"
    using assms(2) by (simp_all add: unat_word_ariths)
  have d: "\<not> off > cap \<Longrightarrow> unat (cap - off) = unat cap - unat off"
    by (rule unat_diff_le) (simp add: word_less_nat_alt)
  show ?thesis
  proof (cases "off + len > cap")
    case True
    have "\<not> off > cap \<Longrightarrow> unat (len + off - cap) = unat len + unat off - unat cap"
      using True s by (subst unat_diff_le) (simp_all add: word_less_nat_alt)
    then show ?thesis using assms(1) nw s d True
      by (cases "off > cap") (auto simp: clip_length_def Let_def word_less_nat_alt)
  next
    case False
    then show ?thesis using assms(1) nw s by (auto simp: clip_length_def Let_def word_less_nat_alt)
  qed
qed

theorem clip_length_splits_witness:
  "unat (0x60 :: u64) = min (unat (0x1000 :: u64)) (unat (0x100 :: u64) - unat (0xA0 :: u64)) \<and>
   clip_length 0x7000 0xA0 0x100 0x1000 = (0x60, 0xFA0)"
proof -
  have "clip_length 0x7000 0xA0 0x100 0x1000 = (0x60, 0xFA0)" by (simp add: clip_length_def)
  from clip_length_splits [OF this] this show ?thesis by simp
qed


text \<open>When \<open>dma_map_sg\<close> fails, both transfers return 0 and keep the pages pinned and the blocks
  allocated: the mapping with no elements is dropped instead of freed.\<close>

theorem failed_mapping_leaks:
  "map_option (\<lambda>(v, d). (v, size (held (kern d))))
     (chnl_send unmappable_env 250 [] 0 0x1000 2048 0 1 0 small_device) = Some (0, 5) \<and>
   map_option (\<lambda>(v, d). (v, size (held (kern d))))
     (chnl_recv unmappable_env 250 (map deliver_round [(EVENT_TXN_OFFLAST, 1), (EVENT_TXN_LEN, 2048)])
        0 0x1000 2048 0 small_device) = Some (0, 5)"
  by code_simp

text \<open>A positive timeout shorter than one tick of the kernel clock becomes no waiting at all:
  with nothing in the queue at the first look, \<open>chnl_recv\<close> returns 0 words at once.\<close>

theorem short_timeout_gives_up:
  assumes "0 < timeout" and "unat timeout * unat hz < 1000"
    and "c < num_chnls (sc d)" and "bufp AND 3 = 0"
    and "queue_inv (msgs (recv (sc d) ! c))" and "pending (recv (sc d) ! c) = []"
    and "irq_first r = []" and "irq_second r = []" and "slept r 0 = 0" and "\<not> signal_pending r"
  shows "\<exists>d'. chnl_recv env hz (r # rs) (int c) bufp len timeout d = Some (0, d') \<and> mmio d' = mmio d"
proof -
  have "unat (timeout * hz) = unat timeout * unat hz" using assms(2) by (simp add: unat_word_ariths)
  then have "unat (timeout * hz div 1000) = 0" using assms(2) by (simp add: unat_div)
  then have j: "to_jiffies hz timeout = 0" using assms(1)
    by (simp add: to_jiffies_def unat_eq_zero LONG_MAX_def)
  let ?q = "msgs (recv (sc d) ! c)"
  have p: "pop_circ_queue ?q = (None, ?q)" by (rule circ_fifo.pop_empty [OF assms(5,6)])
  have w: "wait_msg (r # rs) 0 (x_dir (start_recv c bufp d)) = Some (TimedOut, x_dir (start_recv c bufp d), rs)"
    using assms(7-10) p by (simp add: start_recv_def arrive_def push_msgs_simps set_msgs_def)
  show ?thesis using assms(3,4) w
    by (simp add: chnl_recv_def j msg_loop.simps recv_timeout_def recv_result_def start_recv_def free_maps_def
        put_recv_def)
qed

theorem short_timeout_gives_up_witness:
  "\<exists>d'. chnl_recv generous_env 250
      [\<lparr>irq_first = [], irq_second = [], slept = (\<lambda>t. t), signal_pending = False\<rparr>] 0 0x1000 64 3 (idle_device 1) =
     Some (0, d') \<and> mmio d' = []"
proof -
  have n: "num_chnls (sc (idle_device 1)) = 1" "mmio (idle_device 1) = []" by (simp_all add: idle_device_def)
  show ?thesis
    using short_timeout_gives_up [of 3 250 0 "idle_device 1" "0x1000"
        "\<lparr>irq_first = [], irq_second = [], slept = (\<lambda>t. t), signal_pending = False\<rparr>" generous_env "[]" 64]
      idle_device_facts [of 0 1] blank_chnl_facts n
    by auto
qed

end
