(* ===== verification/Riffa_Ioctl.thy ===== *)
theory Riffa_Ioctl
  imports Riffa_Recv
begin

text \<open>
  The file operations of the driver (\<open>list_fpgas\<close>, \<open>reset\<close>, \<open>fpga_ioctl\<close> of \<open>riffa_driver.c\<close>) and
  the user library over them (\<open>riffa.c\<close>).  The driver's globals are the table of FPGAs in use and
  the table of pointers to their states; what the pointers refer to is kept by pointer.
\<close>

section \<open>The driver's globals\<close>

record driver =
  used_fpgas :: "bool list"
  fpgas :: "nat list"
  states :: "nat \<Rightarrow> fpga_state"
  bars :: "nat \<Rightarrow> mmio_access list"
  dkern :: kstate

text \<open>The FPGA behind a pointer, as the transfers see it, and its state written back.\<close>

definition get_device :: "nat \<Rightarrow> driver \<Rightarrow> device" where
  "get_device p g = \<lparr>sc = states g p, mmio = bars g p, kern = dkern g\<rparr>"

definition put_device :: "nat \<Rightarrow> device \<Rightarrow> driver \<Rightarrow> driver" where
  "put_device p d g =
     g\<lparr>states := (states g)(p := sc d), bars := (bars g)(p := mmio d), dkern := kern d\<rparr>"

section \<open>Listing\<close>

record fpga_info_list =
  num_fpgas :: nat
  info_id :: "int list"
  info_num_chnls :: "int list"
  info_name :: "string list"
  info_vendor_id :: "int list"
  info_device_id :: "int list"

definition list_one :: "driver \<Rightarrow> nat \<Rightarrow> fpga_info_list \<times> nat \<Rightarrow> fpga_info_list \<times> nat" where
  "list_one g i ln =
     (let (l, n) = ln in
      if used_fpgas g ! i
      then (let s = states g (fpgas g ! i) in
            (l\<lparr>info_id := (info_id l)[n := fpga_id s],
               info_num_chnls := (info_num_chnls l)[n := int (num_chnls s)],
               info_vendor_id := (info_vendor_id l)[n := int (vendor_id s)],
               info_device_id := (info_device_id l)[n := int (device_id s)],
               info_name := (info_name l)[n := fpga_name s]\<rparr>, n + 1))
      else (l, n))"

definition list_zero :: "nat \<Rightarrow> fpga_info_list \<Rightarrow> fpga_info_list" where
  "list_zero i l =
     l\<lparr>info_id := (info_id l)[i := -1], info_num_chnls := (info_num_chnls l)[i := 0],
       info_vendor_id := (info_vendor_id l)[i := 0], info_device_id := (info_device_id l)[i := 0],
       info_name := (info_name l)[i := []]\<rparr>"

definition list_fpgas :: "driver \<Rightarrow> fpga_info_list \<Rightarrow> fpga_info_list" where
  "list_fpgas g l0 =
     (let (l, n) = fold (list_one g) [0..<NUM_FPGAS] (l0, 0);
          l = fold list_zero [n..<NUM_FPGAS] l
      in l\<lparr>num_fpgas := n\<rparr>)"

section \<open>Reset\<close>

definition reset_chnl :: "nat \<Rightarrow> device \<Rightarrow> device" where
  "reset_chnl i d =
     (let d = upd_send i (\<lambda>c. c\<lparr>msgs := drain_circ_queue (msgs c)\<rparr>) d;
          d = upd_recv i (\<lambda>c. c\<lparr>msgs := drain_circ_queue (msgs c)\<rparr>) d;
          d = upd_send i wake_up d
      in upd_recv i wake_up d)"

definition set_intr_disabled :: "bool \<Rightarrow> device \<Rightarrow> device" where
  "set_intr_disabled b d = d\<lparr>sc := (sc d)\<lparr>intr_disabled := b\<rparr>\<rparr>"

definition reset_device :: "registers \<Rightarrow> device \<Rightarrow> device" where
  "reset_device rd d =
     (let d = set_intr_disabled True d;
          d = snd (read_reg rd INFO_REG_OFF d);
          d = fold reset_chnl [0..<num_chnls (sc d)] d
      in set_intr_disabled False d)"

text \<open>The index is used unchecked; \<open>None\<close> is an access outside \<open>used_fpgas\<close>.\<close>

definition reset :: "registers \<Rightarrow> int \<Rightarrow> driver \<Rightarrow> driver option" where
  "reset rd i g =
     (if i < 0 \<or> int NUM_FPGAS \<le> i then None
      else if used_fpgas g ! nat i
      then (let p = fpgas g ! nat i in Some (put_device p (reset_device rd (get_device p g)) g))
      else Some g)"

section \<open>The entry point\<close>

record fpga_chnl_io =
  io_id :: int
  io_chnl :: int
  io_len :: u32
  io_offset :: u32
  io_last :: u32
  io_timeout :: u64
  io_data :: u64

datatype ioctl_num = IOCTL_SEND | IOCTL_RECV | IOCTL_LIST | IOCTL_RESET | IOCTL_OTHER

text \<open>
  How a call ends: it returns, it still waits when the rounds are used up, or it has accessed a
  table outside its bounds.
\<close>

datatype 'a outcome = Returns 'a | Waits | Undefined

text \<open>
  The user's memory at \<open>ioctlparam\<close>: \<open>copy_from_user\<close> gives the number of bytes it could not read
  and the structure, \<open>copy_to_user\<close> the number of bytes it could not write.
\<close>

record user_memory =
  copy_from_user :: "u64 \<Rightarrow> nat \<times> fpga_chnl_io"
  copy_to_user :: "u64 \<Rightarrow> nat"
  stack_list :: fpga_info_list   \<comment> \<open>the uninitialised list on the kernel stack\<close>

text \<open>The id names an FPGA in use.\<close>

definition id_in_use :: "driver \<Rightarrow> int \<Rightarrow> bool" where
  "id_in_use g i \<longleftrightarrow> \<not> (i < 0 \<or> i \<ge> int NUM_FPGAS \<or> \<not> used_fpgas g ! nat i)"

text \<open>The \<open>unsigned int\<close> of a transfer becomes the \<open>long\<close> the system call returns.\<close>

definition to_long :: "u32 \<Rightarrow> int" where
  "to_long v = uint v"

definition transfer_result ::
  "nat \<Rightarrow> driver \<Rightarrow> (u32 \<times> device) option \<Rightarrow> (int \<times> fpga_info_list option \<times> driver) outcome" where
  "transfer_result p g r =
     (case r of None \<Rightarrow> Waits | Some (v, d) \<Rightarrow> Returns (to_long v, None, put_device p d g))"

definition fpga_ioctl ::
  "kenv \<Rightarrow> u64 \<Rightarrow> registers \<Rightarrow> user_memory \<Rightarrow> round list \<Rightarrow> ioctl_num \<Rightarrow> u64 \<Rightarrow> driver \<Rightarrow>
     (int \<times> fpga_info_list option \<times> driver) outcome" where
  "fpga_ioctl env hz rd um rounds ioctlnum ioctlparam g =
     (case ioctlnum of
        IOCTL_SEND \<Rightarrow>
          (let (rc, io) = copy_from_user um ioctlparam in
           if rc \<noteq> 0 then Returns (int rc, None, g)
           else if \<not> id_in_use g (io_id io) then Returns (0, None, g)
           else let p = fpgas g ! nat (io_id io) in
             transfer_result p g
               (chnl_send env hz rounds (io_chnl io) (io_data io) (io_len io) (io_offset io) (io_last io)
                  (io_timeout io) (get_device p g)))
      | IOCTL_RECV \<Rightarrow>
          (let (rc, io) = copy_from_user um ioctlparam in
           if rc \<noteq> 0 then Returns (int rc, None, g)
           else if \<not> id_in_use g (io_id io) then Returns (0, None, g)
           else let p = fpgas g ! nat (io_id io) in
             transfer_result p g
               (chnl_recv env hz rounds (io_chnl io) (io_data io) (io_len io) (io_timeout io)
                  (get_device p g)))
      | IOCTL_LIST \<Rightarrow>
          (let l = list_fpgas g (stack_list um); rc = copy_to_user um ioctlparam
           in Returns (int rc, if rc = 0 then Some l else None, g))
      | IOCTL_RESET \<Rightarrow>
          (case reset rd (sint (ucast ioctlparam :: u32)) g of
             None \<Rightarrow> Undefined | Some g \<Rightarrow> Returns (0, None, g))
      | IOCTL_OTHER \<Rightarrow> Returns (0, None, g))"

section \<open>The user library\<close>

record fpga_t =
  fd :: int
  dev_id :: int

text \<open>
  What a user process holds: heap blocks and open files.  \<open>malloc\<close> and \<open>open\<close> answer with a block
  number or NULL and with a file descriptor or a negative value.
\<close>

record process =
  heap :: "nat multiset"
  files :: "int multiset"

definition fpga_open :: "nat option \<Rightarrow> int \<Rightarrow> int \<Rightarrow> process \<Rightarrow> (nat \<times> fpga_t) option \<times> process" where
  "fpga_open block new_fd i p =
     (case block of
        None \<Rightarrow> (None, p)
      | Some b \<Rightarrow>
          (let p = p\<lparr>heap := add_mset b (heap p)\<rparr> in
           if new_fd < 0 then (None, p\<lparr>heap := heap p - {#b#}\<rparr>)
           else (Some (b, \<lparr>fd = new_fd, dev_id = i\<rparr>), p\<lparr>files := add_mset new_fd (files p)\<rparr>)))"

definition fpga_close :: "nat \<times> fpga_t \<Rightarrow> process \<Rightarrow> process" where
  "fpga_close f p =
     (let p = p\<lparr>files := files p - {#fd (snd f)#}\<rparr> in p\<lparr>heap := heap p - {#fst f#}\<rparr>)"

text \<open>
  \<open>ioctl\<close> of the C library: a \<open>long\<close> between -4095 and -1 is an error and becomes -1, anything
  else is truncated to an \<open>int\<close>.
\<close>

definition syscall_int :: "int \<Rightarrow> int" where
  "syscall_int r = (if -4095 \<le> r \<and> r < 0 then -1 else sint (word_of_int r :: u32))"

text \<open>The memory of a caller that keeps the request on its stack.\<close>

definition io_memory :: "fpga_chnl_io \<Rightarrow> user_memory" where
  "io_memory io = \<lparr>copy_from_user = (\<lambda>_. (0, io)), copy_to_user = (\<lambda>_. 0),
     stack_list = \<lparr>num_fpgas = 0, info_id = replicate NUM_FPGAS 0, info_num_chnls = replicate NUM_FPGAS 0,
       info_name = replicate NUM_FPGAS [], info_vendor_id = replicate NUM_FPGAS 0,
       info_device_id = replicate NUM_FPGAS 0\<rparr>\<rparr>"

fun user_result :: "(int \<times> fpga_info_list option \<times> driver) outcome \<Rightarrow> (int \<times> driver) outcome" where
  "user_result (Returns (r, l, g)) = Returns (syscall_int r, g)"
| "user_result Waits = Waits"
| "user_result Undefined = Undefined"

definition fpga_send ::
  "kenv \<Rightarrow> u64 \<Rightarrow> registers \<Rightarrow> round list \<Rightarrow> fpga_t \<Rightarrow> int \<Rightarrow> u64 \<Rightarrow> u32 \<Rightarrow> u32 \<Rightarrow> u32 \<Rightarrow> u64 \<Rightarrow> driver \<Rightarrow>
     (int \<times> driver) outcome" where
  "fpga_send env hz rd rounds fpga chnl data len destoff is_last timeout g =
     (let io = \<lparr>io_id = dev_id fpga, io_chnl = chnl, io_len = len, io_offset = destoff,
                io_last = is_last, io_timeout = timeout, io_data = data\<rparr>
      in user_result (fpga_ioctl env hz rd (io_memory io) rounds IOCTL_SEND 0 g))"

text \<open>\<open>fpga_recv\<close> leaves the offset and the last flag of its request uninitialised (\<open>junk\<close>).\<close>

definition fpga_recv ::
  "kenv \<Rightarrow> u64 \<Rightarrow> registers \<Rightarrow> round list \<Rightarrow> u32 \<times> u32 \<Rightarrow> fpga_t \<Rightarrow> int \<Rightarrow> u64 \<Rightarrow> u32 \<Rightarrow> u64 \<Rightarrow> driver \<Rightarrow>
     (int \<times> driver) outcome" where
  "fpga_recv env hz rd rounds junk fpga chnl data len timeout g =
     (let io = \<lparr>io_id = dev_id fpga, io_chnl = chnl, io_len = len, io_offset = fst junk,
                io_last = snd junk, io_timeout = timeout, io_data = data\<rparr>
      in user_result (fpga_ioctl env hz rd (io_memory io) rounds IOCTL_RECV 0 g))"

definition fpga_reset :: "kenv \<Rightarrow> u64 \<Rightarrow> registers \<Rightarrow> fpga_t \<Rightarrow> driver \<Rightarrow> (int \<times> driver) outcome" where
  "fpga_reset env hz rd fpga g =
     user_result (fpga_ioctl env hz rd (io_memory \<lparr>io_id = 0, io_chnl = 0, io_len = 0, io_offset = 0,
         io_last = 0, io_timeout = 0, io_data = 0\<rparr>) [] IOCTL_RESET (word_of_int (dev_id fpga)) g)"

definition fpga_list ::
  "kenv \<Rightarrow> u64 \<Rightarrow> registers \<Rightarrow> user_memory \<Rightarrow> int \<Rightarrow> u64 \<Rightarrow> driver \<Rightarrow> (int \<times> fpga_info_list option) outcome" where
  "fpga_list env hz rd um new_fd list g =
     (if new_fd < 0 then Returns (new_fd, None)
      else case fpga_ioctl env hz rd um [] IOCTL_LIST list g of
             Returns (r, l, g) \<Rightarrow> Returns (syscall_int r, l)
           | Waits \<Rightarrow> Waits
           | Undefined \<Rightarrow> Undefined)"

section \<open>Listing: what ends up in the arrays\<close>

definition put_range :: "nat \<Rightarrow> 'a list \<Rightarrow> 'a list \<Rightarrow> 'a list" where
  "put_range n ys xs = take n xs @ ys @ drop (n + length ys) xs"

lemma put_range_Nil: "n \<le> length xs \<Longrightarrow> put_range n [] xs = xs"
  by (simp add: put_range_def)

lemma put_range_Cons:
  assumes "n < length xs"
  shows "put_range (Suc n) ys (xs[n := y]) = put_range n (y # ys) xs"
proof -
  have "take (Suc n) (xs[n := y]) = take n xs @ [y]"
    using assms by (simp add: take_Suc_conv_app_nth)
  moreover have "drop (Suc n + length ys) (xs[n := y]) = drop (n + length (y # ys)) xs"
    using assms by (simp add: drop_update_cancel)
  ultimately show ?thesis by (simp add: put_range_def)
qed

definition arrays_of :: "nat \<Rightarrow> fpga_info_list \<Rightarrow> bool" where
  "arrays_of n l \<longleftrightarrow> length (info_id l) = n \<and> length (info_num_chnls l) = n \<and> length (info_name l) = n \<and>
     length (info_vendor_id l) = n \<and> length (info_device_id l) = n"

definition put_entries ::
  "nat \<Rightarrow> int list \<Rightarrow> int list \<Rightarrow> string list \<Rightarrow> int list \<Rightarrow> int list \<Rightarrow> fpga_info_list \<Rightarrow> fpga_info_list" where
  "put_entries n ids chnls names vids dids l =
     l\<lparr>info_id := put_range n ids (info_id l), info_num_chnls := put_range n chnls (info_num_chnls l),
       info_name := put_range n names (info_name l), info_vendor_id := put_range n vids (info_vendor_id l),
       info_device_id := put_range n dids (info_device_id l)\<rparr>"

definition put_states :: "nat \<Rightarrow> fpga_state list \<Rightarrow> fpga_info_list \<Rightarrow> fpga_info_list" where
  "put_states n ss l =
     put_entries n (map fpga_id ss) (map (\<lambda>s. int (num_chnls s)) ss) (map fpga_name ss)
       (map (\<lambda>s. int (vendor_id s)) ss) (map (\<lambda>s. int (device_id s)) ss) l"

definition states_in_use :: "driver \<Rightarrow> nat list \<Rightarrow> fpga_state list" where
  "states_in_use g is = map (\<lambda>i. states g (fpgas g ! i)) (filter (\<lambda>i. used_fpgas g ! i) is)"

lemma fold_list_one:
  "arrays_of m l \<Longrightarrow> n + length (states_in_use g is) \<le> m \<Longrightarrow>
     fold (list_one g) is (l, n) =
       (put_states n (states_in_use g is) l, n + length (states_in_use g is))"
proof (induction "is" arbitrary: l n)
  case Nil
  then show ?case
    by (simp add: states_in_use_def put_states_def put_entries_def put_range_Nil arrays_of_def)
next
  case (Cons i "is")
  show ?case
  proof (cases "used_fpgas g ! i")
    case False
    then have u: "states_in_use g (i # is) = states_in_use g is" by (simp add: states_in_use_def)
    show ?thesis using Cons False by (simp add: list_one_def u)
  next
    case True
    let ?s = "states g (fpgas g ! i)"
    let ?l = "fst (list_one g i (l, n))"
    have u: "states_in_use g (i # is) = ?s # states_in_use g is"
      using True by (simp add: states_in_use_def)
    have one: "list_one g i (l, n) = (?l, Suc n)" using True by (simp add: list_one_def Let_def)
    have a: "arrays_of m ?l" using Cons.prems(1) True by (simp add: arrays_of_def list_one_def Let_def)
    have b: "Suc n + length (states_in_use g is) \<le> m" using Cons.prems(2) by (simp add: u)
    have lt: "n < m" using Cons.prems(2) by (simp add: u)
    have "put_states (Suc n) ss ?l = put_states n (?s # ss) l" for ss
      using True lt Cons.prems(1)
      by (simp add: list_one_def Let_def put_states_def put_entries_def arrays_of_def put_range_Cons)
    with Cons.IH [OF a b] one show ?thesis by (simp add: u)
  qed
qed

lemma fold_list_zero:
  "arrays_of m l \<Longrightarrow> n + k \<le> m \<Longrightarrow>
     fold list_zero [n..<n + k] l =
       put_entries n (replicate k (-1)) (replicate k 0) (replicate k []) (replicate k 0) (replicate k 0) l"
proof (induction k arbitrary: n l)
  case 0
  then show ?case by (simp add: put_entries_def put_range_Nil arrays_of_def)
next
  case (Suc k)
  have r: "[n..<n + Suc k] = n # [Suc n..<Suc n + k]" by (simp add: upt_rec)
  have a: "arrays_of m (list_zero n l)" using Suc.prems(1) by (simp add: arrays_of_def list_zero_def)
  have lt: "n < m" using Suc.prems(2) by simp
  have "put_entries (Suc n) is cs ns vs ds (list_zero n l) =
      put_entries n (-1 # is) (0 # cs) ([] # ns) (0 # vs) (0 # ds) l" for "is" cs ns vs ds
    using lt Suc.prems(1) by (simp add: list_zero_def put_entries_def arrays_of_def put_range_Cons)
  moreover have "fold list_zero [n..<n + Suc k] l = fold list_zero [Suc n..<Suc n + k] (list_zero n l)"
    by (simp only: r fold_simps)
  moreover have "Suc n + k \<le> m" using Suc.prems(2) by simp
  note Suc.IH [OF a this]
  ultimately show ?case by (simp only: replicate_Suc)
qed

lemma put_range_whole:
  "length xs = n + k \<Longrightarrow> length ys = n \<Longrightarrow> length zs = k \<Longrightarrow>
     put_range n zs (put_range 0 ys xs) = ys @ zs"
  by (simp add: put_range_def)

section \<open>Reset: every channel\<close>

definition reset_dir :: "chnl_dir \<Rightarrow> chnl_dir" where
  "reset_dir c = wake_up (c\<lparr>msgs := drain_circ_queue (msgs c)\<rparr>)"

lemma reset_chnl_eq:
  assumes "i < length (recv (sc d))" "i < length (send (sc d))"
  shows "reset_chnl i d = d\<lparr>sc := (sc d)\<lparr>recv := (recv (sc d))[i := reset_dir (recv (sc d) ! i)],
      send := (send (sc d))[i := reset_dir (send (sc d) ! i)]\<rparr>\<rparr>"
  using assms by (simp add: reset_chnl_def Let_def upd_send_def upd_recv_def reset_dir_def)

lemma fold_reset_chnl:
  "n \<le> length (recv (sc d)) \<Longrightarrow> n \<le> length (send (sc d)) \<Longrightarrow>
     fold reset_chnl [0..<n] d =
       d\<lparr>sc := (sc d)\<lparr>recv := map reset_dir (take n (recv (sc d))) @ drop n (recv (sc d)),
                      send := map reset_dir (take n (send (sc d))) @ drop n (send (sc d))\<rparr>\<rparr>"
proof (induction n)
  case 0
  then show ?case by simp
next
  case (Suc n)
  have step: "(map reset_dir (take n xs) @ drop n xs)[n := reset_dir ((map reset_dir (take n xs) @ drop n xs) ! n)] =
      map reset_dir (take (Suc n) xs) @ drop (Suc n) xs" if "n < length xs" for xs
    using that by (simp add: nth_append list_update_append take_Suc_conv_app_nth Cons_nth_drop_Suc [symmetric])
  let ?d = "fold reset_chnl [0..<n] d"
  have "fold reset_chnl [0..<Suc n] d = reset_chnl n ?d" by simp
  also have "\<dots> = ?d\<lparr>sc := (sc ?d)\<lparr>recv := (recv (sc ?d))[n := reset_dir (recv (sc ?d) ! n)],
      send := (send (sc ?d))[n := reset_dir (send (sc ?d) ! n)]\<rparr>\<rparr>"
    by (rule reset_chnl_eq) (use Suc in simp_all)
  finally show ?case using Suc step by simp
qed

lemma reset_device_eq:
  assumes "device_ok d"
  shows "reset_device rd d =
    d\<lparr>sc := (sc d)\<lparr>intr_disabled := False, recv := map reset_dir (recv (sc d)), send := map reset_dir (send (sc d))\<rparr>,
      mmio := mmio d @ [RegRead INFO_REG_OFF]\<rparr>"
  using assms fold_reset_chnl [of "num_chnls (sc d)" "snd (read_reg rd INFO_REG_OFF (set_intr_disabled True d))"]
  by (simp add: reset_device_def Let_def set_intr_disabled_def device_ok_def read_reg_def)

section \<open>Properties\<close>

text \<open>C34: \<open>list_fpgas\<close> reports exactly the FPGAs in use, in the order of the table, each with its id,
  channels, name, vendor and device, fills every remaining entry with an id of -1 and zeros,
  whatever the arrays held before, and counts them.\<close>

theorem list_fpgas_correct:
  assumes "arrays_of NUM_FPGAS l"
  shows "let ss = states_in_use g [0..<NUM_FPGAS] in list_fpgas g l =
    \<lparr>num_fpgas = length ss,
     info_id = map fpga_id ss @ replicate (NUM_FPGAS - length ss) (-1),
     info_num_chnls = map (\<lambda>s. int (num_chnls s)) ss @ replicate (NUM_FPGAS - length ss) 0,
     info_name = map fpga_name ss @ replicate (NUM_FPGAS - length ss) [],
     info_vendor_id = map (\<lambda>s. int (vendor_id s)) ss @ replicate (NUM_FPGAS - length ss) 0,
     info_device_id = map (\<lambda>s. int (device_id s)) ss @ replicate (NUM_FPGAS - length ss) 0\<rparr>"
proof -
  define ss where "ss = states_in_use g [0..<NUM_FPGAS]"
  have le: "length ss \<le> NUM_FPGAS"
    unfolding ss_def states_in_use_def length_map
    using length_filter_le [of "\<lambda>i. used_fpgas g ! i" "[0..<NUM_FPGAS]"] by (simp only: length_upt diff_zero)
  have f1: "fold (list_one g) [0..<NUM_FPGAS] (l, 0) = (put_states 0 ss l, length ss)"
    using fold_list_one [OF assms(1), of 0 g "[0..<NUM_FPGAS]"] le by (simp only: ss_def add_0)
  obtain k where k: "length ss + k = NUM_FPGAS" using le le_iff_add by metis
  have a: "arrays_of NUM_FPGAS (put_states 0 ss l)"
    using assms(1) le by (simp add: arrays_of_def put_states_def put_entries_def put_range_def)
  have f2: "fold list_zero [length ss..<NUM_FPGAS] (put_states 0 ss l) =
      put_entries (length ss) (replicate k (-1)) (replicate k 0) (replicate k []) (replicate k 0) (replicate k 0)
        (put_states 0 ss l)"
    using fold_list_zero [OF a, of "length ss" k] k by simp
  have r: "list_fpgas g l = (fold list_zero [length ss..<NUM_FPGAS] (put_states 0 ss l))\<lparr>num_fpgas := length ss\<rparr>"
    by (simp only: list_fpgas_def f1 Let_def prod.case)
  have n: "NUM_FPGAS - length ss = k" using k by simp
  have len: "length (info_id l) = length ss + k" "length (info_num_chnls l) = length ss + k"
    "length (info_name l) = length ss + k" "length (info_vendor_id l) = length ss + k"
    "length (info_device_id l) = length ss + k"
    using assms(1) k by (simp_all add: arrays_of_def)
  show ?thesis unfolding Let_def ss_def [symmetric] r f2 n
    by (simp add: put_states_def put_entries_def put_range_whole len)
qed

definition two_fpgas :: driver where
  "two_fpgas = \<lparr>used_fpgas = [False, True, False, True, False], fpgas = [0, 7, 0, 9, 0],
     states = (\<lambda>p. (sc (idle_device 2))\<lparr>fpga_id := (if p = 7 then 1 else 3)\<rparr>), bars = (\<lambda>_. []),
     dkern = fresh_kernel\<rparr>"

theorem list_fpgas_correct_witness:
  "info_id (list_fpgas two_fpgas \<lparr>num_fpgas = 9, info_id = [4, 4, 4, 4, 4], info_num_chnls = [4, 4, 4, 4, 4],
      info_name = replicate 5 ''x'', info_vendor_id = [4, 4, 4, 4, 4], info_device_id = [4, 4, 4, 4, 4]\<rparr>) =
     [1, 3, -1, -1, -1]"
proof -
  have u: "states_in_use two_fpgas [0..<NUM_FPGAS] =
      map (\<lambda>i. (sc (idle_device 2))\<lparr>fpga_id := i\<rparr>) [1, 3]"
    by (simp add: states_in_use_def two_fpgas_def upt_rec)
  show ?thesis
    using list_fpgas_correct [of "\<lparr>num_fpgas = 9, info_id = [4, 4, 4, 4, 4], info_num_chnls = [4, 4, 4, 4, 4],
      info_name = replicate 5 ''x'', info_vendor_id = [4, 4, 4, 4, 4], info_device_id = [4, 4, 4, 4, 4]\<rparr>" two_fpgas]
    by (simp add: arrays_of_def u Let_def numeral_3_eq_3)
qed



text \<open>The negative error codes of the transfers do not survive the way out: they are returned as
  \<open>unsigned int\<close> and widened to \<open>long\<close>, so \<open>fpga_ioctl\<close> answers a misaligned buffer with the
  positive number 4294967274 instead of \<open>-EINVAL\<close>; the kernel does not see an error, and the user
  library returns -22 instead of -1 with \<open>errno\<close>.  A request that cannot be read is answered with
  the positive number of unread bytes, which reads as so many words transferred.\<close>

theorem ioctl_errors_positive:
  assumes "id_in_use g (io_id io)" and "fpgas g ! nat (io_id io) = p"
    and "0 \<le> io_chnl io" and "io_chnl io < int (num_chnls (states g p))" and "io_data io AND 3 \<noteq> 0"
    and "copy_from_user um b = (Suc n, io')"
  shows "fpga_ioctl env hz rd (io_memory io) rounds IOCTL_RECV a g =
      Returns (4294967274, None, put_device p (get_device p g) g) \<and>
    user_result (fpga_ioctl env hz rd (io_memory io) rounds IOCTL_RECV a g) =
      Returns (-22, put_device p (get_device p g) g) \<and>
    fpga_ioctl env hz rd um rounds IOCTL_RECV b g = Returns (int (Suc n), None, g)"
proof -
  have "chnl_recv env hz rounds (io_chnl io) (io_data io) (io_len io) (io_timeout io) (get_device p g) =
      Some (- 22, get_device p g)"
    using assms(3-5) by (simp add: chnl_recv_def Let_def get_device_def)
  then have r: "fpga_ioctl env hz rd (io_memory io) rounds IOCTL_RECV a g =
      Returns (4294967274, None, put_device p (get_device p g) g)"
    using assms(1,2) by (simp add: fpga_ioctl_def io_memory_def Let_def transfer_result_def to_long_def)
  show ?thesis unfolding r using assms(6) by (simp add: syscall_int_def fpga_ioctl_def)
qed

lemma two_fpgas_facts:
  "id_in_use two_fpgas 1" "fpgas two_fpgas ! Suc 0 = 7"
  "num_chnls (states two_fpgas 7) = 2" "num_sg (states two_fpgas 7) = 200"
  "held (dkern two_fpgas) = {#}" "faults (dkern two_fpgas) = []"
  by (simp_all add: id_in_use_def two_fpgas_def idle_device_def fresh_kernel_def)

theorem ioctl_errors_positive_witness:
  "\<exists>g'. fpga_ioctl generous_env 250 (\<lambda>_ _. 0) (io_memory \<lparr>io_id = 1, io_chnl = 0, io_len = 4, io_offset = 0,
      io_last = 0, io_timeout = 0, io_data = 0x1001\<rparr>) [] IOCTL_RECV 0 two_fpgas = Returns (4294967274, None, g')"
  using ioctl_errors_positive [of two_fpgas "\<lparr>io_id = 1, io_chnl = 0, io_len = 4, io_offset = 0,
      io_last = 0, io_timeout = 0, io_data = 0x1001\<rparr>" 7
      "(io_memory \<lparr>io_id = 1, io_chnl = 0, io_len = 4, io_offset = 0, io_last = 0, io_timeout = 0,
         io_data = 0x1001\<rparr>)\<lparr>copy_from_user := \<lambda>_. (Suc 0, undefined)\<rparr>" 0 0 undefined generous_env 250 "\<lambda>_ _. 0" "[]" 0]
  by (simp add: two_fpgas_facts)

text \<open>\<open>IOCTL_RESET\<close> takes its FPGA number unchecked: every number outside the table of
  \<open>NUM_FPGAS\<close> entries makes the kernel read outside \<open>used_fpgas\<close>, although sending and receiving
  answer such a number with 0.\<close>

theorem ioctl_reset_unchecked:
  assumes "sint (ucast a :: u32) < 0 \<or> int NUM_FPGAS \<le> sint (ucast a :: u32)"
    and "io_id io = sint (ucast a :: u32)"
  shows "fpga_ioctl env hz rd um rounds IOCTL_RESET a g = Undefined \<and>
    fpga_ioctl env hz rd (io_memory io) rounds IOCTL_SEND a g = Returns (0, None, g)"
  using assms by (auto simp: fpga_ioctl_def reset_def io_memory_def id_in_use_def)

theorem ioctl_reset_unchecked_witness:
  "fpga_ioctl generous_env 250 (\<lambda>_ _. 0) (io_memory \<lparr>io_id = 0, io_chnl = 0, io_len = 0, io_offset = 0,
      io_last = 0, io_timeout = 0, io_data = 0\<rparr>) [] IOCTL_RESET 5 two_fpgas = Undefined"
  using ioctl_reset_unchecked [of 5 "\<lparr>io_id = 5, io_chnl = 0, io_len = 0, io_offset = 0,
      io_last = 0, io_timeout = 0, io_data = 0\<rparr>"]
  by simp

text \<open>
  What the handler leaves in the queue of a transfer that is under way is what arrives in a round of
  the waiting thread.
\<close>

lemma handler_feeds_send:
  assumes "device_ok d" and "\<not> intr_disabled (sc d)" and "c < num_chnls (sc d)"
  shows "msgs (send (sc (fold (\<lambda>regs. intrpt_handler (\<lambda>_. regs)) intrs (put_send c d x))) ! c) =
    msgs (arrive (heard send_events c intrs) (x_dir x))"
proof -
  let ?d = "put_send c d x"
  have k: "sc ?d = (sc d)\<lparr>send := (send (sc d))[c := x_dir x]\<rparr>" by (simp add: put_send_def upd_send_def)
  have "\<not> intr_disabled (sc ?d)" "device_ok ?d" "c < num_chnls (sc ?d)" "send (sc ?d) ! c = x_dir x"
    using assms by (simp_all add: k device_ok_def)
  then show ?thesis using handler_arrives [of ?d c _ intrs] by simp
qed

text \<open>C10: From the user's call to the hardware and back: \<open>fpga_send\<close> on an FPGA in use, with an
  aligned buffer and interrupts by which the FPGA asks for any number of scatterlists and then reports
  completion, returns the number of words the FPGA reported; the kernel then holds exactly what
  it held before, and no other FPGA has been touched.  The interrupts are register files, as the
  handler reads them, in any grouping the queue has room for; whatever the state of the transfer, the
  handler leaves in its queue just the messages the waiting thread is given in the model.
\<close>

theorem fpga_send_completes:
  assumes "id_in_use g (dev_id f)" and "fpgas g ! nat (dev_id f) = p"
    and "send_ready (get_device p g)" and "env_generous env"
    and "0 < num_sg (states g p)" and "num_sg (states g p) < 2 ^ 63"
    and "c < num_chnls (states g p)" and "len \<noteq> 0" and "data AND 3 = 0"
    and "unat data + 4 * unat len \<le> 2 ^ 64" and "unat v < 2 ^ 31"
    and "device_ok (get_device p g)" and "\<not> intr_disabled (states g p)"
    and "rounds = map (round_of send_events c) visits" and "served 3 0 rounds"
    and "flow rounds = replicate n (EVENT_SG_BUF_READ, 0) @ [(EVENT_TXN_DONE, v)]"
  shows "(\<forall>(x :: send_state) intrs.
      msgs (send (sc (fold (\<lambda>regs. intrpt_handler (\<lambda>_. regs)) intrs (put_send c (get_device p g) x))) ! c) =
      msgs (arrive (heard send_events c intrs) (x_dir x))) \<and>
    (\<exists>g'. fpga_send env hz rd rounds f (int c) data len off is_last timeout g = Returns (int (unat v), g') \<and>
      held (dkern g') = held (dkern g) \<and> faults (dkern g') = faults (dkern g) \<and>
      (\<forall>q. q \<noteq> p \<longrightarrow> states g' q = states g q \<and> bars g' q = bars g q))"
proof -
  let ?d = "get_device p g"
  have sc: "sc ?d = states g p" "kern ?d = dkern g" by (simp_all add: get_device_def)
  obtain d' where r: "chnl_send env hz rounds (int c) data len off is_last timeout ?d = Some (v, d')"
    using chnl_send_live [of ?d env c len data rounds n v hz "[]" off is_last timeout] assms by (auto simp: sc)
  have good: "env_good env" using assms(4) by (simp add: env_generous_def)
  have "uint v < 2 ^ 31" using assms(11) by (metis uint_nat of_nat_less_iff of_nat_numeral of_nat_power)
  then have "sint v = uint v"
    unfolding sint_uint by (intro signed_take_bit_int_eq_self order_trans [OF _ uint_ge_0]) simp_all
  then have w: "syscall_int (to_long v) = int (unat v)"
    using assms(11) by (simp add: syscall_int_def to_long_def)
  have "fpga_send env hz rd rounds f (int c) data len off is_last timeout g =
      Returns (int (unat v), put_device p d' g)"
    using assms(1,2) r by (simp add: fpga_send_def fpga_ioctl_def io_memory_def Let_def transfer_result_def w)
  moreover have "held (kern d') = held (dkern g) \<and> faults (kern d') = faults (dkern g)"
    using chnl_send_balanced [OF r assms(3) good] by (simp add: sc)
  moreover have "msgs (send (sc (fold (\<lambda>regs. intrpt_handler (\<lambda>_. regs)) intrs (put_send c ?d x))) ! c) =
      msgs (arrive (heard send_events c intrs) (x_dir x))" for x :: send_state and intrs
    by (rule handler_feeds_send) (use assms(7,12,13) in \<open>simp_all add: sc\<close>)
  ultimately show ?thesis by (simp add: put_device_def)
qed

text \<open>
  Channel 0 sends 20 words: an interrupt that asks for more elements, a wake-up for nothing, and an
  interrupt that asks and reports the end, just before the thread would sleep.
\<close>

definition send_visits :: "visit list" where
  "send_visits =
     [\<lparr>intrs_first = [(\<lambda>_. 0)(IRQ_REG0_OFF := 0x8)], intrs_second = [], sleep = (\<lambda>t. t)\<rparr>,
      \<lparr>intrs_first = [], intrs_second = [], sleep = (\<lambda>_. 3)\<rparr>,
      \<lparr>intrs_first = [], intrs_second = [(\<lambda>_. 20)(IRQ_REG0_OFF := 0x18)], sleep = (\<lambda>t. t)\<rparr>,
      \<lparr>intrs_first = [], intrs_second = [], sleep = (\<lambda>t. t)\<rparr>]"

theorem fpga_send_completes_witness:
  "\<exists>g'. fpga_send generous_env 250 (\<lambda>_ _. 0) (map (round_of send_events 0) send_visits)
      \<lparr>fd = 3, dev_id = 1\<rparr> 0 0x5000 20 0 1 0 two_fpgas = Returns (20, g') \<and> held (dkern g') = {#}"
proof -
  let ?rs = "map (round_of send_events 0) send_visits"
  have ready: "send_ready (get_device 7 two_fpgas)"
    using idle_send_ready [of 2] by (simp add: send_ready_def get_device_def two_fpgas_def)
  have dev: "device_ok (get_device 7 two_fpgas)" "\<not> intr_disabled (states two_fpgas 7)"
    by (simp_all add: device_ok_def get_device_def two_fpgas_def idle_device_def)
  have rs: "served 3 0 ?rs" "flow ?rs = replicate 2 (EVENT_SG_BUF_READ, 0) @ [(EVENT_TXN_DONE, 20)]"
    by (simp_all add: send_visits_def round_of_def heard_def vector_events_def send_events_def CHNL_REG_def replicate_2)
  show ?thesis
    using fpga_send_completes [OF _ _ ready generous_env_generous _ _ _ _ _ _ _ dev refl rs,
        of "\<lparr>fd = 3, dev_id = 1\<rparr>" 20 "0x5000" 250 "\<lambda>_ _. 0" 0 1 0]
    by (auto simp: two_fpgas_facts)
qed

text \<open>\<open>fpga_open\<close> and \<open>fpga_close\<close> balance: an open that fails leaves the process as it was, and
  closing what was opened gives back the block and the file.\<close>

theorem open_close_roundtrip:
  "case fpga_open block new_fd i p of
     (None, p') \<Rightarrow> p' = p
   | (Some f, p') \<Rightarrow> fpga_close f p' = p \<and> 0 \<le> fd (snd f) \<and> dev_id (snd f) = i"
  by (simp add: fpga_open_def fpga_close_def Let_def split: option.split)

end
