(* ===== verification/Riffa_Probe.thy ===== *)
theory Riffa_Probe
  imports Riffa_Ioctl
begin

text \<open>
  Device and module life cycle (\<open>allocate_chnls\<close>, \<open>fpga_probe\<close>, \<open>fpga_remove\<close>, \<open>fpga_init\<close>,
  \<open>fpga_exit\<close> of \<open>riffa_driver.c\<close>).  What the PCI layer answers is a parameter; what the driver
  takes from it is tracked in the ledger of \<open>Kernel\<close>.  \<open>fpga_probe\<close> is cut into stages; a stage
  either ends the call with an error (\<open>Inl\<close>) or hands its results to the next.
\<close>

section \<open>The PCI layer\<close>

datatype cap_reg = PCI_EXP_DEVCTL | PCI_EXP_LNKCTL

datatype cfg_access = CfgRead cap_reg | CfgWrite cap_reg u32

abbreviation (input) PCI_EXP_DEVCTL_EXT_TAG :: u32 where "PCI_EXP_DEVCTL_EXT_TAG \<equiv> 0x0100"
abbreviation (input) PCI_EXP_LNKCTL_RCB :: u32 where "PCI_EXP_LNKCTL_RCB \<equiv> 0x0008"

text \<open>The answers of the PCI layer; capability accesses are answered by their number.\<close>

record pci_dev =
  enable_rc :: int
  dma_mask_rc :: int
  consistent_mask_rc :: int
  regions_rc :: int
  res_start :: u64
  res_len :: u64
  res_flags :: u64
  ioremap_ok :: bool
  msi_rc :: int
  irq_rc :: int
  dev_irq :: nat
  cap_read :: "nat \<Rightarrow> cap_reg \<Rightarrow> int \<times> u32"
  cap_write :: "nat \<Rightarrow> cap_reg \<Rightarrow> int"
  pci_name :: string
  dev_vendor :: nat
  dev_device :: nat

text \<open>The driver's globals with the device's configuration accesses and its driver data.\<close>

record machine =
  drv :: driver
  cfg :: "cfg_access list"
  drvdata :: "nat option"

definition kdo :: "(kstate \<Rightarrow> kstate) \<Rightarrow> machine \<Rightarrow> machine" where
  "kdo f m = m\<lparr>drv := (drv m)\<lparr>dkern := f (dkern (drv m))\<rparr>\<rparr>"

definition read_cap :: "pci_dev \<Rightarrow> cap_reg \<Rightarrow> machine \<Rightarrow> (int \<times> u32) \<times> machine" where
  "read_cap dev r m = (cap_read dev (length (cfg m)) r, m\<lparr>cfg := cfg m @ [CfgRead r]\<rparr>)"

definition write_cap :: "pci_dev \<Rightarrow> cap_reg \<Rightarrow> u32 \<Rightarrow> machine \<Rightarrow> int \<times> machine" where
  "write_cap dev r v m = (cap_write dev (length (cfg m)) r, m\<lparr>cfg := cfg m @ [CfgWrite r v]\<rparr>)"

text \<open>\<open>pci_alloc_consistent\<close>: a buffer, by its number, with its bus address, or NULL.\<close>

definition pci_alloc :: "kenv \<Rightarrow> kstate \<Rightarrow> (nat \<times> u64) option \<times> kstate" where
  "pci_alloc env k =
     (case dma_alloc env (tick k) of
        None \<Rightarrow> (None, advance k)
      | Some hw \<Rightarrow> (Some (tick k, hw), acquire (DmaBuf (tick k)) (advance k)))"

definition pci_free :: "nat \<Rightarrow> kstate \<Rightarrow> kstate" where
  "pci_free b k = release (DmaBuf b) k"

section \<open>Channels\<close>

text \<open>One direction of a channel: the structure, its queue and its common buffer.\<close>

definition alloc_dir :: "kenv \<Rightarrow> nat \<Rightarrow> nat \<Rightarrow> kstate \<Rightarrow> chnl_dir option \<times> kstate" where
  "alloc_dir env len bytes k =
     (case kmalloc env k of
        (None, k) \<Rightarrow> (None, k)
      | (Some p, k) \<Rightarrow>
          (case init_circ_queue env len k of
             (None, k) \<Rightarrow> (None, kfree (Some p) k)
           | (Some q, k) \<Rightarrow>
               (case pci_alloc env k of
                  (None, k) \<Rightarrow> (None, kfree (Some p) (free_circ_queue (Some q) k))
                | (Some (b, hw), k) \<Rightarrow>
                    (Some \<lparr>dir_ptr = p, wakes = 0, msgs = q, buf_addr = b,
                           sg_buf = replicate (bytes div 4) 0, buf_hw_addr = hw,
                           sg_map_0 = None, sg_map_1 = None\<rparr>, k))))"

text \<open>Undoing the receiving direction when the sending one fails.\<close>

definition drop_recv :: "chnl_dir \<Rightarrow> kstate \<Rightarrow> kstate" where
  "drop_recv r k = kfree (Some (dir_ptr r)) (free_circ_queue (Some (msgs r)) (pci_free (buf_addr r) k))"

text \<open>The loop over the channels; it stops at the first failure with the channels complete so far.\<close>

fun allocate_chnls :: "kenv \<Rightarrow> nat \<Rightarrow> nat \<Rightarrow> kstate \<Rightarrow> (chnl_dir list \<times> chnl_dir list) \<times> kstate" where
  "allocate_chnls env bytes 0 k = (([], []), k)"
| "allocate_chnls env bytes (Suc n) k =
     (case alloc_dir env 5 bytes k of
        (None, k) \<Rightarrow> (([], []), k)
      | (Some r, k) \<Rightarrow>
          (case alloc_dir env 4 bytes k of
             (None, k) \<Rightarrow> (([], []), drop_recv r k)
           | (Some s, k) \<Rightarrow>
               (let ((rs, ss), k) = allocate_chnls env bytes n k in ((r # rs, s # ss), k))))"

definition free_chnl :: "chnl_dir \<times> chnl_dir \<Rightarrow> kstate \<Rightarrow> kstate" where
  "free_chnl rs k =
     (let (r, s) = rs;
          k = pci_free (buf_addr s) k;
          k = pci_free (buf_addr r) k;
          k = free_circ_queue (Some (msgs s)) k;
          k = free_circ_queue (Some (msgs r)) k;
          k = kfree (Some (dir_ptr s)) k
      in kfree (Some (dir_ptr r)) k)"

definition free_chnls :: "chnl_dir list \<Rightarrow> chnl_dir list \<Rightarrow> kstate \<Rightarrow> kstate" where
  "free_chnls rs ss k = fold free_chnl (zip rs ss) k"

section \<open>Probing\<close>

type_synonym 'a stage = "(int \<times> machine) + ('a \<times> machine)"

text \<open>The error paths: what they give back, in their order.\<close>

definition undo_regions :: "nat \<Rightarrow> kstate \<Rightarrow> kstate" where
  "undo_regions p k = kfree (Some p) (release PciEnabled (release PciRegions k))"

definition undo_bar :: "nat \<Rightarrow> kstate \<Rightarrow> kstate" where
  "undo_bar p k = undo_regions p (release BarMapped k)"

definition undo_irq :: "nat \<Rightarrow> kstate \<Rightarrow> kstate" where
  "undo_irq p k = undo_bar p (release MsiEnabled (release IrqRequested k))"

definition restore_caps :: "pci_dev \<Rightarrow> u32 \<times> u32 \<Rightarrow> machine \<Rightarrow> machine" where
  "restore_caps dev caps m =
     (let (devctl, lnkctl) = caps
      in snd (write_cap dev PCI_EXP_DEVCTL devctl (snd (write_cap dev PCI_EXP_LNKCTL lnkctl m))))"

definition probe_enable :: "pci_dev \<Rightarrow> machine \<Rightarrow> unit stage" where
  "probe_enable dev m =
     (if enable_rc dev < 0 then Inl (- ENODEV, m)
      else let m = kdo (acquire PciEnabled) m;
               err = (if dma_mask_rc dev = 0 then consistent_mask_rc dev else dma_mask_rc dev)
           in if err \<noteq> 0 then Inl (err, kdo (release PciEnabled) m) else Inr ((), m))"

text \<open>The state as \<open>kzalloc\<close> leaves it, with the fields set at once.\<close>

definition zero_state :: "pci_dev \<Rightarrow> nat \<Rightarrow> fpga_state" where
  "zero_state dev p = \<lparr>sc_ptr = p, irq = 0, bar0_addr = 0, bar0_len = 0, bar0_flags = 0,
     intr_disabled = False, spill_buf_addr = None, spill_buf_hw_addr = 0, num_sg = 0, sg_buf_size = 0,
     fpga_id = 0, fpga_name = take 15 (pci_name dev @ ''0''), vendor_id = dev_vendor dev,
     device_id = dev_device dev, num_chnls = 0, recv_ptr = None, send_ptr = None, recv = [], send = []\<rparr>"

definition probe_sc :: "kenv \<Rightarrow> pci_dev \<Rightarrow> machine \<Rightarrow> fpga_state stage" where
  "probe_sc env dev m =
     (case kmalloc env (dkern (drv m)) of
        (None, k) \<Rightarrow> Inl (- ENOMEM, kdo (\<lambda>_. release PciEnabled k) m)
      | (Some p, k) \<Rightarrow> Inr (zero_state dev p, kdo (\<lambda>_. k) m))"

definition probe_bar :: "pci_dev \<Rightarrow> fpga_state \<Rightarrow> machine \<Rightarrow> fpga_state stage" where
  "probe_bar dev s m =
     (if regions_rc dev < 0
      then Inl (- ENODEV, kdo (\<lambda>k. kfree (Some (sc_ptr s)) (release PciEnabled k)) m)
      else let m = kdo (acquire PciRegions) m;
               s = s\<lparr>bar0_addr := res_start dev, bar0_len := res_len dev, bar0_flags := res_flags dev\<rparr>
           in if bar0_len s \<noteq> 1024 then Inl (- ENODEV, kdo (undo_regions (sc_ptr s)) m)
              else if \<not> ioremap_ok dev then Inl (- ENODEV, kdo (undo_regions (sc_ptr s)) m)
              else Inr (s, kdo (acquire BarMapped) m))"

definition probe_irq :: "pci_dev \<Rightarrow> fpga_state \<Rightarrow> machine \<Rightarrow> fpga_state stage" where
  "probe_irq dev s m =
     (if msi_rc dev \<noteq> 0 then Inl (msi_rc dev, kdo (undo_bar (sc_ptr s)) m)
      else let m = kdo (acquire MsiEnabled) m
           in if irq_rc dev \<noteq> 0
              then Inl (irq_rc dev, kdo (\<lambda>k. undo_bar (sc_ptr s) (release MsiEnabled k)) m)
              else Inr (s\<lparr>irq := dev_irq dev\<rparr>, kdo (acquire IrqRequested) m))"

text \<open>The two capability registers; the result is what they held before.\<close>

definition probe_caps :: "pci_dev \<Rightarrow> fpga_state \<Rightarrow> machine \<Rightarrow> (u32 \<times> u32) stage" where
  "probe_caps dev s m =
     (let fail = (\<lambda>err m. Inl (err, kdo (undo_irq (sc_ptr s)) m));
          ((err, devctl), m) = read_cap dev PCI_EXP_DEVCTL m
      in if err \<noteq> 0 then fail err m
         else let (err, m) = write_cap dev PCI_EXP_DEVCTL (devctl OR PCI_EXP_DEVCTL_EXT_TAG) m
      in if err \<noteq> 0 then fail err m
         else let ((err, lnkctl), m) = read_cap dev PCI_EXP_LNKCTL m
      in if err \<noteq> 0 then fail err m
         else let (err, m) = write_cap dev PCI_EXP_LNKCTL (lnkctl OR PCI_EXP_LNKCTL_RCB) m
      in if err \<noteq> 0 then fail err (snd (write_cap dev PCI_EXP_DEVCTL devctl m))
         else Inr ((devctl, lnkctl), m))"

text \<open>The error path of everything after the capabilities.\<close>

definition undo_device :: "pci_dev \<Rightarrow> u32 \<times> u32 \<Rightarrow> fpga_state \<Rightarrow> machine \<Rightarrow> machine" where
  "undo_device dev caps s m = kdo (undo_irq (sc_ptr s)) (restore_caps dev caps m)"

definition probe_info ::
  "registers \<Rightarrow> pci_dev \<Rightarrow> u32 \<times> u32 \<Rightarrow> fpga_state \<Rightarrow> machine \<Rightarrow> fpga_state stage" where
  "probe_info rd dev caps s m =
     (let p = sc_ptr s;
          reg = rd (length (bars (drv m) p)) INFO_REG_OFF;
          m = m\<lparr>drv := (drv m)\<lparr>bars := (bars (drv m))(p := bars (drv m) p @ [RegRead INFO_REG_OFF])\<rparr>\<rparr>;
          chnls = drop_bit 0 reg AND 0xF;
          width = drop_bit 19 reg AND 0xF;
          s = s\<lparr>num_chnls := unat chnls, num_sg := SG_ELEMS * unat width,
                sg_buf_size := SG_BUF_SIZE * unat width\<rparr>
      in if drop_bit 4 reg AND 0x1 \<noteq> 1 then Inl (- ENODEV, undo_device dev caps s m)
         else if drop_bit 5 reg AND 0x3F = 0 \<or> drop_bit 11 reg AND 0x3 = 0
         then Inl (- ENODEV, undo_device dev caps s m)
         else if reg AND 0xF = 0 \<or> reg AND 0xF > of_nat MAX_CHNLS
         then Inl (- ENODEV, undo_device dev caps s m)
         else if width = 0 \<or> width > of_nat MAX_BUS_WIDTH_PARAM
         then Inl (- ENODEV, undo_device dev caps s m)
         else Inr (s, m))"

definition probe_chnls ::
  "kenv \<Rightarrow> pci_dev \<Rightarrow> u32 \<times> u32 \<Rightarrow> fpga_state \<Rightarrow> machine \<Rightarrow> fpga_state stage" where
  "probe_chnls env dev caps s m =
     (let (rp, k) = kmalloc env (dkern (drv m));
          (sp, k) = kmalloc env k
      in if rp = None \<or> sp = None
         then Inl (- ENOMEM, undo_device dev caps s (kdo (\<lambda>_. kfree sp (kfree rp k)) m))
         else let ((rs, ss), k) = allocate_chnls env (sg_buf_size s) (num_chnls s) k
              in if length rs < num_chnls s
                 then Inl (- ENOMEM, undo_device dev caps s
                        (kdo (\<lambda>_. kfree sp (kfree rp (free_chnls rs ss k))) m))
                 else Inr (s\<lparr>recv_ptr := rp, send_ptr := sp, recv := rs, send := ss\<rparr>, kdo (\<lambda>_. k) m))"

text \<open>
  The spill buffer.  When it cannot be allocated the code gives everything back, the state
  included, but does not return.
\<close>

definition probe_spill ::
  "kenv \<Rightarrow> pci_dev \<Rightarrow> u32 \<times> u32 \<Rightarrow> fpga_state \<Rightarrow> machine \<Rightarrow> fpga_state \<times> machine" where
  "probe_spill env dev caps s m =
     (case pci_alloc env (dkern (drv m)) of
        (Some (b, hw), k) \<Rightarrow> (s\<lparr>spill_buf_addr := Some b, spill_buf_hw_addr := hw\<rparr>, kdo (\<lambda>_. k) m)
      | (None, k) \<Rightarrow>
          (let m = kdo (\<lambda>_. free_chnls (recv s) (send s) k) m;
               m = restore_caps dev caps m;
               m = kdo (\<lambda>k. kfree (send_ptr s) (kfree (recv_ptr s) k)) m
           in (s, kdo (undo_irq (sc_ptr s)) m)))"

definition free_spill :: "nat option \<Rightarrow> kstate \<Rightarrow> kstate" where
  "free_spill b k = (case b of None \<Rightarrow> k | Some b \<Rightarrow> pci_free b k)"

definition first_free :: "bool list \<Rightarrow> nat option" where
  "first_free used = List.find (\<lambda>i. \<not> used ! i) [0..<NUM_FPGAS]"

definition probe_save :: "pci_dev \<Rightarrow> u32 \<times> u32 \<Rightarrow> fpga_state \<Rightarrow> machine \<Rightarrow> int \<times> machine" where
  "probe_save dev caps s m =
     (let p = sc_ptr s; m = m\<lparr>drvdata := Some p\<rparr>
      in case first_free (used_fpgas (drv m)) of
           Some i \<Rightarrow>
             (0, m\<lparr>drv := (drv m)\<lparr>used_fpgas := (used_fpgas (drv m))[i := True],
                    fpgas := (fpgas (drv m))[i := p],
                    states := (states (drv m))(p := s\<lparr>fpga_id := int i\<rparr>)\<rparr>\<rparr>)
         | None \<Rightarrow>
             (let m = kdo (\<lambda>k. free_chnls (recv s) (send s) k) m;
                  m = kdo (\<lambda>k. kfree (send_ptr s) (kfree (recv_ptr s) k)) m;
                  m = kdo (free_spill (spill_buf_addr s)) m
              in (- ENOMEM, undo_device dev caps s m)))"

text \<open>Everything before the spill buffer, and the whole.\<close>

definition probe_device ::
  "kenv \<Rightarrow> registers \<Rightarrow> pci_dev \<Rightarrow> machine \<Rightarrow> ((u32 \<times> u32) \<times> fpga_state) stage" where
  "probe_device env rd dev m =
     (case probe_enable dev m of Inl e \<Rightarrow> Inl e | Inr (_, m) \<Rightarrow>
      case probe_sc env dev m of Inl e \<Rightarrow> Inl e | Inr (s, m) \<Rightarrow>
      case probe_bar dev s m of Inl e \<Rightarrow> Inl e | Inr (s, m) \<Rightarrow>
      case probe_irq dev s m of Inl e \<Rightarrow> Inl e | Inr (s, m) \<Rightarrow>
      case probe_caps dev s m of Inl e \<Rightarrow> Inl e | Inr (caps, m) \<Rightarrow>
      case probe_info rd dev caps s m of Inl e \<Rightarrow> Inl e | Inr (s, m) \<Rightarrow>
      case probe_chnls env dev caps s m of Inl e \<Rightarrow> Inl e | Inr (s, m) \<Rightarrow> Inr ((caps, s), m))"

definition fpga_probe :: "kenv \<Rightarrow> registers \<Rightarrow> pci_dev \<Rightarrow> machine \<Rightarrow> int \<times> machine" where
  "fpga_probe env rd dev m =
     (case probe_device env rd dev m of
        Inl e \<Rightarrow> e
      | Inr ((caps, s), m) \<Rightarrow>
          (let (s, m) = probe_spill env dev caps s m in probe_save dev caps s m))"

section \<open>Removing\<close>

definition fpga_remove :: "pci_dev \<Rightarrow> machine \<Rightarrow> machine" where
  "fpga_remove dev m =
     (let ((_, result), m) = read_cap dev PCI_EXP_DEVCTL m;
          m = snd (write_cap dev PCI_EXP_DEVCTL (result AND NOT PCI_EXP_DEVCTL_EXT_TAG) m);
          ((_, result), m) = read_cap dev PCI_EXP_DEVCTL m;
          m = snd (write_cap dev PCI_EXP_LNKCTL (result AND NOT PCI_EXP_LNKCTL_RCB) m);
          m = (case drvdata m of
                 None \<Rightarrow> m
               | Some p \<Rightarrow>
                   (let s = states (drv m) p;
                        m = m\<lparr>drv := (drv m)\<lparr>used_fpgas := (used_fpgas (drv m))[nat (fpga_id s) := False]\<rparr>\<rparr>;
                        m = kdo (free_chnls (recv s) (send s)) m;
                        m = kdo (\<lambda>k. kfree (send_ptr s) (kfree (recv_ptr s) k)) m;
                        m = kdo (free_spill (spill_buf_addr s)) m;
                        m = kdo (\<lambda>k. release BarMapped (release IrqRequested k)) m
                    in kdo (kfree (Some p)) m));
          m = kdo (\<lambda>k. release PciEnabled (release PciRegions (release MsiEnabled k))) m
      in m\<lparr>drvdata := None\<rparr>)"

section \<open>Loading and unloading the module\<close>

datatype registration = PciDriver | CharDev | DevClass | DevNode

text \<open>What the registrations answer; \<open>class_rc\<close> is 0 or the error \<open>class_create\<close> encodes.\<close>

record reg_answers =
  pci_register_rc :: int
  chrdev_rc :: int
  class_rc :: int

definition fpga_init ::
  "reg_answers \<Rightarrow> driver \<times> registration list \<Rightarrow> int \<times> driver \<times> registration list" where
  "fpga_init a gr =
     (let (g, regs) = gr;
          g = g\<lparr>used_fpgas := replicate NUM_FPGAS False\<rparr>
      in if pci_register_rc a \<noteq> 0 then (pci_register_rc a, g, regs)
         else let regs = regs @ [PciDriver]
      in if chrdev_rc a < 0 then (chrdev_rc a, g, regs)
         else let regs = regs @ [CharDev]
      in if class_rc a \<noteq> 0 then (class_rc a, g, regs)
         else (0, g, regs @ [DevClass, DevNode]))"

definition fpga_exit :: "registration list \<Rightarrow> registration list" where
  "fpga_exit regs = remove1 CharDev (remove1 PciDriver (remove1 DevClass (remove1 DevNode regs)))"

section \<open>The ledger of the channels\<close>

definition dir_resources :: "chnl_dir \<Rightarrow> resource multiset" where
  "dir_resources c = {#DmaBuf (buf_addr c)#} + mset (queue_blocks (msgs c)) + {#Kmem (dir_ptr c)#}"

definition chnls_resources :: "(chnl_dir \<times> chnl_dir) list \<Rightarrow> resource multiset" where
  "chnls_resources rss = sum_list (map (\<lambda>(r, s). dir_resources r + dir_resources s) rss)"

text \<open>A direction as \<open>alloc_dir\<close> makes it.\<close>

definition fresh_dir :: "nat \<Rightarrow> nat \<Rightarrow> chnl_dir \<Rightarrow> bool" where
  "fresh_dir len bytes c \<longleftrightarrow> queue_inv (msgs c) \<and> pending c = [] \<and> writeIndex (msgs c) = 0 \<and>
     unat (qlen (msgs c)) = len \<and> length (sg_buf c) = bytes div 4 \<and>
     sg_map_0 c = None \<and> sg_map_1 c = None"

lemma gives_back_queue: "gives_back k (mset (queue_blocks q)) (free_circ_queue (Some q) k)"
  unfolding free_circ_queue_eq gives_back_def
  using kernel_ledger.owned_give_list kernel_ledger.errors_give_list by blast

lemma gives_back_pci: "gives_back k {#DmaBuf b#} (pci_free b k)"
  by (simp add: pci_free_def gives_back_release)

lemma pci_alloc_cases:
  "pci_alloc env k = (None, k') \<Longrightarrow> takes k {#} k'"
  "pci_alloc env k = (Some (b, hw), k') \<Longrightarrow> takes k {#DmaBuf b#} k'"
  by (auto simp: pci_alloc_def takes_def ledger_simps split: option.splits)

lemma init_queue_takes:
  "init_circ_queue env len k = (Some q, k') \<Longrightarrow> takes k (mset (queue_blocks q)) k'"
  using init_circ_queue_ok(1,2) by (simp add: takes_def)

lemma alloc_slots_total:
  assumes "\<forall>t. kmalloc_ok env t"
  shows "\<exists>ps k'. alloc_slots env n k = (Some ps, k')"
proof (induction n arbitrary: k)
  case (Suc n)
  from Suc.IH [of "acquire (Kmem (tick k)) (advance k)"] assms show ?case by (auto simp: kmalloc_def)
qed simp

lemma init_queue_total:
  assumes "\<forall>t. kmalloc_ok env t"
  obtains q k' where "init_circ_queue env len k = (Some q, k')"
proof -
  obtain ps k2 where "alloc_slots env len (snd (kmalloc env (snd (kmalloc env k)))) = (Some ps, k2)"
    using alloc_slots_total [OF assms] by blast
  then show thesis using that assms by (simp add: init_circ_queue_def kmalloc_def)
qed

lemma undone_takes: "takes k A k' \<Longrightarrow> gives_back k' A k'' \<Longrightarrow> takes k {#} k''"
  using gives_back_restores [of k' A k'' k] by (simp add: takes_def)

lemma alloc_dir_Some:
  assumes "alloc_dir env len bytes k = (Some c, k')" "0 < len" "len < 2 ^ 32"
  shows "takes k (dir_resources c) k'" "fresh_dir len bytes c"
proof -
  obtain p k1 q k2 b hw where r: "kmalloc env k = (Some p, k1)" "init_circ_queue env len k1 = (Some q, k2)"
    "pci_alloc env k2 = (Some (b, hw), k')"
    "c = \<lparr>dir_ptr = p, wakes = 0, msgs = q, buf_addr = b, sg_buf = replicate (bytes div 4) 0,
          buf_hw_addr = hw, sg_map_0 = None, sg_map_1 = None\<rparr>"
    using assms(1) by (auto simp: alloc_dir_def split: prod.splits option.splits)
  have "takes k ({#DmaBuf b#} + (mset (queue_blocks q) + {#Kmem p#})) k'"
    by (rule takes_trans [OF takes_trans [OF kmalloc_cases(2) [OF r(1)] init_queue_takes [OF r(2)]]
        pci_alloc_cases(2) [OF r(3)]])
  then show "takes k (dir_resources c) k'" by (simp add: dir_resources_def r(4))
  show "fresh_dir len bytes c"
    using init_circ_queue_inv [OF r(2) assms(2,3)] init_circ_queue_ok(4) [OF r(2)]
    by (simp add: fresh_dir_def r(4))
qed

lemma alloc_dir_None:
  assumes "alloc_dir env len bytes k = (None, k')" "\<forall>t. kmalloc_ok env t"
  shows "takes k {#} k'"
proof -
  obtain p k1 where km: "kmalloc env k = (Some p, k1)" using assms(2) by (simp add: kmalloc_def)
  obtain q k2 where iq: "init_circ_queue env len k1 = (Some q, k2)" by (rule init_queue_total [OF assms(2)])
  obtain k3 where pa: "pci_alloc env k2 = (None, k3)" "k' = kfree (Some p) (free_circ_queue (Some q) k3)"
    using assms(1) km iq by (auto simp: alloc_dir_def split: prod.splits option.splits)
  have t: "takes k ({#} + (mset (queue_blocks q) + {#Kmem p#})) k3"
    by (rule takes_trans [OF takes_trans [OF kmalloc_cases(2) [OF km] init_queue_takes [OF iq]]
        pci_alloc_cases(1) [OF pa(1)]])
  have "gives_back k3 (mset (queue_blocks q) + {#Kmem p#}) k'"
    unfolding pa(2) by (rule gives_back_trans [OF gives_back_queue gives_back_kfree])
  with t show ?thesis using undone_takes by simp
qed

lemma drop_recv_gives_back: "gives_back k (dir_resources r) (drop_recv r k)"
  unfolding drop_recv_def dir_resources_def
  by (rule gives_back_trans [OF gives_back_trans [OF gives_back_pci gives_back_queue] gives_back_kfree])

lemma allocate_chnls_spec:
  assumes "\<forall>t. kmalloc_ok env t"
  shows "allocate_chnls env bytes n k = ((rs, ss), k') \<Longrightarrow>
    takes k (chnls_resources (zip rs ss)) k' \<and> length rs = length ss \<and> length rs \<le> n \<and>
    list_all (fresh_dir 5 bytes) rs \<and> list_all (fresh_dir 4 bytes) ss"
proof (induction n arbitrary: k rs ss k')
  case 0
  then show ?case by (simp add: chnls_resources_def takes_def)
next
  case (Suc n)
  obtain ro k1 where r: "alloc_dir env 5 bytes k = (ro, k1)" by fastforce
  show ?case
  proof (cases ro)
    case None
    then show ?thesis using Suc.prems r alloc_dir_None [OF r [unfolded None] assms]
      by (auto simp: chnls_resources_def)
  next
    case (Some r1)
    note R = alloc_dir_Some [OF r [unfolded Some]]
    obtain so k2 where s: "alloc_dir env 4 bytes k1 = (so, k2)" by fastforce
    show ?thesis
    proof (cases so)
      case None
      have "takes k ({#} + dir_resources r1) k2"
        by (rule takes_trans [OF R(1) alloc_dir_None [OF s [unfolded None] assms]]) simp_all
      then have "takes k {#} (drop_recv r1 k2)"
        using undone_takes [OF _ drop_recv_gives_back] by simp
      then show ?thesis using Suc.prems r Some s None by (auto simp: chnls_resources_def)
    next
      case (Some s1)
      note S = alloc_dir_Some [OF s [unfolded Some]]
      obtain rs' ss' where a: "allocate_chnls env bytes n k2 = ((rs', ss'), k')" "rs = r1 # rs'" "ss = s1 # ss'"
        using Suc.prems r \<open>ro = Some r1\<close> s Some by (auto split: prod.splits)
      from Suc.IH [OF a(1)] have I: "takes k2 (chnls_resources (zip rs' ss')) k'" "length rs' = length ss'"
        "length rs' \<le> n" "list_all (fresh_dir 5 bytes) rs'" "list_all (fresh_dir 4 bytes) ss'" by simp_all
      have "takes k (chnls_resources (zip rs' ss') + (dir_resources s1 + dir_resources r1)) k'"
        by (rule takes_trans [OF takes_trans [OF R(1) S(1)] I(1)]) simp_all
      then show ?thesis using I R(2) S(2) by (simp add: a(2,3) chnls_resources_def ac_simps)
    qed
  qed
qed

lemma free_chnl_gives_back: "gives_back k (dir_resources r + dir_resources s) (free_chnl (r, s) k)"
proof -
  have "gives_back k ({#DmaBuf (buf_addr s)#} + {#DmaBuf (buf_addr r)#} + mset (queue_blocks (msgs s)) +
      mset (queue_blocks (msgs r)) + {#Kmem (dir_ptr s)#} + {#Kmem (dir_ptr r)#}) (free_chnl (r, s) k)"
    unfolding free_chnl_def Let_def prod.case
    by (intro gives_back_trans [OF gives_back_trans [OF gives_back_trans [OF gives_back_trans
        [OF gives_back_trans [OF gives_back_pci gives_back_pci] gives_back_queue] gives_back_queue]
        gives_back_kfree] gives_back_kfree])
  then show ?thesis by (simp add: dir_resources_def ac_simps)
qed

lemma free_chnls_gives_back: "gives_back k (chnls_resources (zip rs ss)) (free_chnls rs ss k)"
  unfolding free_chnls_def
proof (induction "zip rs ss" arbitrary: rs ss k)
  case Nil
  then have "zip rs ss = []" by simp
  then show ?case by (simp only: chnls_resources_def) (simp add: gives_back_none)
next
  case (Cons x xs)
  obtain r s where x: "x = (r, s)" by fastforce
  obtain rs' ss' where rs: "rs = r # rs'" "ss = s # ss'" "xs = zip rs' ss'"
    using Cons.hyps(2) x by (cases rs; cases ss) auto
  have "gives_back (free_chnl (r, s) k) (chnls_resources (zip rs' ss')) (fold free_chnl (zip rs' ss') (free_chnl (r, s) k))"
    by (rule Cons.hyps(1) [OF rs(3)])
  from gives_back_trans [OF free_chnl_gives_back this]
  show ?case by (simp add: rs(1,2) chnls_resources_def)
qed

section \<open>The contract of a stage\<close>

text \<open>
  A stage is entered while the driver holds \<open>D\<close> of the device.  It either fails with an error code,
  having given back all of \<open>D\<close>, or it adds \<open>A x\<close>, where \<open>x\<close> is its result; the tables of the
  driver do not change.
\<close>

definition same_tables :: "machine \<Rightarrow> machine \<Rightarrow> bool" where
  "same_tables m m' \<longleftrightarrow> used_fpgas (drv m') = used_fpgas (drv m) \<and> fpgas (drv m') = fpgas (drv m) \<and>
     states (drv m') = states (drv m) \<and> drvdata m' = drvdata m"

definition m_takes :: "machine \<Rightarrow> resource multiset \<Rightarrow> machine \<Rightarrow> bool" where
  "m_takes m A m' \<longleftrightarrow> takes (dkern (drv m)) A (dkern (drv m')) \<and> same_tables m m'"

definition m_gives :: "machine \<Rightarrow> resource multiset \<Rightarrow> machine \<Rightarrow> bool" where
  "m_gives m A m' \<longleftrightarrow> gives_back (dkern (drv m)) A (dkern (drv m')) \<and> same_tables m m'"

definition stage_ok :: "resource multiset \<Rightarrow> ('a \<Rightarrow> resource multiset) \<Rightarrow> machine \<Rightarrow> 'a stage \<Rightarrow> bool" where
  "stage_ok D A m r \<longleftrightarrow>
     (case r of Inl (rc, m') \<Rightarrow> rc \<noteq> 0 \<and> m_gives m D m' | Inr (x, m') \<Rightarrow> m_takes m (A x) m')"

lemma kdo_simps [simp]:
  "dkern (drv (kdo f m)) = f (dkern (drv m))" "same_tables m (kdo f m')  = same_tables m m'"
  "same_tables m m" "cfg (kdo f m) = cfg m" "bars (drv (kdo f m)) = bars (drv m)"
  by (simp_all add: kdo_def same_tables_def)

lemma m_gives_kdo: "gives_back (dkern (drv m)) A (f (dkern (drv m))) \<Longrightarrow> m_gives m A (kdo f m)"
  by (simp add: m_gives_def)

lemma m_takes_kdo: "takes (dkern (drv m)) A k \<Longrightarrow> m_takes m A (kdo (\<lambda>_. k) m)"
  by (simp add: m_takes_def)

lemma m_takes_acquire: "m_takes m {#r#} (kdo (acquire r) m)"
  by (simp add: m_takes_def takes_acquire)

lemma m_takes_refl: "m_takes m {#} m"
  by (simp add: m_takes_def takes_def)

lemma m_takes_trans: "m_takes m A m' \<Longrightarrow> m_takes m' B m'' \<Longrightarrow> m_takes m (A + B) m''"
  by (simp add: m_takes_def takes_def same_tables_def ac_simps)

lemma m_gives_trans: "m_gives m A m' \<Longrightarrow> m_gives m' B m'' \<Longrightarrow> m_gives m (A + B) m''"
  using gives_back_trans [of "dkern (drv m)" A "dkern (drv m')" B "dkern (drv m'')"]
  by (simp add: m_gives_def same_tables_def)

lemma m_gives_after:
  assumes "m_takes m A m'" "m_gives m' (A + D) m''"
  shows "m_gives m D m''"
proof -
  have "D \<subseteq># held (dkern (drv m)) \<Longrightarrow> A + D \<subseteq># A + held (dkern (drv m))" by simp
  then show ?thesis using assms by (auto simp: m_takes_def m_gives_def takes_def gives_back_def same_tables_def)
qed

lemma cap_access:
  "m_takes m {#} (snd (write_cap dev r v m))" "m_takes m {#} (snd (read_cap dev r m))"
  by (simp_all add: m_takes_def takes_def write_cap_def read_cap_def same_tables_def)

lemma stage_bind:
  assumes r: "stage_ok D A m r"
    and f: "\<And>x m'. r = Inr (x, m') \<Longrightarrow> stage_ok (A x + D) B m' (f x m')"
    and C: "\<And>x m' y m''. r = Inr (x, m') \<Longrightarrow> f x m' = Inr (y, m'') \<Longrightarrow> C y = A x + B y"
  shows "stage_ok D C m (case r of Inl e \<Rightarrow> Inl e | Inr (x, m') \<Rightarrow> f x m')"
proof (cases r)
  case (Inl e)
  then show ?thesis using r by (simp add: stage_ok_def)
next
  case (Inr xm)
  obtain x m' where xm: "xm = (x, m')" by fastforce
  have t: "m_takes m (A x) m'" using r by (simp add: Inr xm stage_ok_def)
  have F: "stage_ok (A x + D) B m' (f x m')" using f Inr xm by simp
  show ?thesis
  proof (cases "f x m'")
    case (Inl e)
    then show ?thesis using F t m_gives_after
      by (auto simp: stage_ok_def Inr xm split: prod.splits)
  next
    case Inr2: (Inr y)
    then show ?thesis using F m_takes_trans [OF t] C [of x m'] Inr
      by (auto simp: stage_ok_def xm split: prod.splits)
  qed
qed

lemma stage_bind0:
  assumes "stage_ok D (\<lambda>_. {#}) m r" "\<And>x m'. r = Inr (x, m') \<Longrightarrow> stage_ok D B m' (f x m')"
  shows "stage_ok D B m (case r of Inl e \<Rightarrow> Inl e | Inr (x, m') \<Rightarrow> f x m')"
  by (rule stage_bind [OF assms(1)]) (use assms(2) in simp_all)

lemma stage_bind_const:
  assumes "stage_ok D (\<lambda>_. a) m r" "\<And>x m'. r = Inr (x, m') \<Longrightarrow> stage_ok (a + D) B m' (f x m')"
  shows "stage_ok D (\<lambda>y. a + B y) m (case r of Inl e \<Rightarrow> Inl e | Inr (x, m') \<Rightarrow> f x m')"
  by (rule stage_bind [OF assms(1)]) (use assms(2) in simp_all)

lemma stage_held: "D = D' \<Longrightarrow> stage_ok D' A m r \<Longrightarrow> stage_ok D A m r"
  by simp

section \<open>The stages\<close>

definition base_resources :: "nat \<Rightarrow> resource multiset" where
  "base_resources p = {#IrqRequested, MsiEnabled, BarMapped, PciRegions, PciEnabled, Kmem p#}"

lemma undo_gives_back:
  "gives_back k {#PciRegions, PciEnabled, Kmem p#} (undo_regions p k)"
  "gives_back k {#BarMapped, PciRegions, PciEnabled, Kmem p#} (undo_bar p k)"
  "gives_back k (base_resources p) (undo_irq p k)"
proof -
  have a: "gives_back k ({#PciRegions#} + {#PciEnabled#} + {#Kmem p#}) (undo_regions p k)" for k
    unfolding undo_regions_def
    by (rule gives_back_trans [OF gives_back_trans [OF gives_back_release gives_back_release] gives_back_kfree])
  then show A: "gives_back k {#PciRegions, PciEnabled, Kmem p#} (undo_regions p k)" for k
    by (simp add: add_mset_commute)
  have "gives_back k ({#BarMapped#} + {#PciRegions, PciEnabled, Kmem p#}) (undo_bar p k)" for k
    unfolding undo_bar_def by (rule gives_back_trans [OF gives_back_release A])
  then show B: "gives_back k {#BarMapped, PciRegions, PciEnabled, Kmem p#} (undo_bar p k)" for k
    by (simp add: add_mset_commute)
  have "gives_back k ({#IrqRequested#} + {#MsiEnabled#} + {#BarMapped, PciRegions, PciEnabled, Kmem p#}) (undo_irq p k)"
    unfolding undo_irq_def by (rule gives_back_trans [OF gives_back_trans [OF gives_back_release gives_back_release] B])
  then show "gives_back k (base_resources p) (undo_irq p k)" by (simp add: base_resources_def add_mset_commute)
qed

lemma probe_enable_ok: "stage_ok {#} (\<lambda>_. {#PciEnabled#}) m (probe_enable dev m)"
  by (auto simp: stage_ok_def probe_enable_def m_gives_def m_takes_def gives_back_def takes_def ledger_simps
      Let_def)

lemma probe_sc_ok: "stage_ok {#PciEnabled#} (\<lambda>s. {#Kmem (sc_ptr s)#}) m (probe_sc env dev m)"
  by (auto simp: stage_ok_def probe_sc_def m_gives_def m_takes_def gives_back_def takes_def ledger_simps
      zero_state_def kmalloc_def)

lemma probe_bar_ok:
  "stage_ok {#PciEnabled, Kmem (sc_ptr s)#} (\<lambda>_. {#PciRegions, BarMapped#}) m (probe_bar dev s m)"
proof -
  let ?m = "kdo (acquire PciRegions) m" and ?p = "sc_ptr s"
  have "gives_back k ({#PciEnabled#} + {#Kmem ?p#}) (kfree (Some ?p) (release PciEnabled k))" for k
    by (rule gives_back_trans [OF gives_back_release gives_back_kfree])
  then have a: "m_gives m {#PciEnabled, Kmem ?p#} (kdo (\<lambda>k. kfree (Some ?p) (release PciEnabled k)) m)"
    by (intro m_gives_kdo) (simp add: add_mset_commute)
  have "m_gives ?m ({#PciRegions#} + {#PciEnabled, Kmem ?p#}) (kdo (undo_regions ?p) ?m)"
    using undo_gives_back(1) by (intro m_gives_kdo) (simp add: add_mset_commute)
  from m_gives_after [OF m_takes_acquire this]
  have b: "m_gives m {#PciEnabled, Kmem ?p#} (kdo (undo_regions ?p) ?m)" .
  have "m_takes m ({#PciRegions#} + {#BarMapped#}) (kdo (acquire BarMapped) ?m)"
    by (rule m_takes_trans [OF m_takes_acquire m_takes_acquire])
  then have c: "m_takes m {#PciRegions, BarMapped#} (kdo (acquire BarMapped) ?m)"
    by (simp add: add_mset_commute)
  show ?thesis using a b c by (simp add: stage_ok_def probe_bar_def Let_def)
qed

lemma probe_irq_ok:
  "stage_ok {#BarMapped, PciRegions, PciEnabled, Kmem (sc_ptr s)#} (\<lambda>_. {#IrqRequested, MsiEnabled#}) m
     (probe_irq dev s m)"
proof -
  let ?m = "kdo (acquire MsiEnabled) m" and ?p = "sc_ptr s"
  have a: "m_gives m {#BarMapped, PciRegions, PciEnabled, Kmem ?p#} (kdo (undo_bar ?p) m)"
    using undo_gives_back(2) by (rule m_gives_kdo)
  have "gives_back k ({#MsiEnabled#} + {#BarMapped, PciRegions, PciEnabled, Kmem ?p#}) (undo_bar ?p (release MsiEnabled k))" for k
    by (rule gives_back_trans [OF gives_back_release undo_gives_back(2)])
  then have "m_gives ?m ({#MsiEnabled#} + {#BarMapped, PciRegions, PciEnabled, Kmem ?p#})
      (kdo (\<lambda>k. undo_bar ?p (release MsiEnabled k)) ?m)" by (rule m_gives_kdo)
  from m_gives_after [OF m_takes_acquire this]
  have b: "m_gives m {#BarMapped, PciRegions, PciEnabled, Kmem ?p#} (kdo (\<lambda>k. undo_bar ?p (release MsiEnabled k)) ?m)" .
  have "m_takes m ({#MsiEnabled#} + {#IrqRequested#}) (kdo (acquire IrqRequested) ?m)"
    by (rule m_takes_trans [OF m_takes_acquire m_takes_acquire])
  then have c: "m_takes m {#IrqRequested, MsiEnabled#} (kdo (acquire IrqRequested) ?m)"
    by (simp add: add_mset_commute)
  show ?thesis using a b c by (simp add: stage_ok_def probe_irq_def Let_def)
qed

lemma undo_irq_after:
  "m_takes m {#} m' \<Longrightarrow> m_gives m (base_resources p) (kdo (undo_irq p) m')"
  using m_gives_after [of m "{#}" m' "base_resources p"] m_gives_kdo [of m' "base_resources p" "undo_irq p", OF undo_gives_back(3)] by simp

lemma probe_caps_ok:
  "stage_ok (base_resources (sc_ptr s)) (\<lambda>_. {#}) m (probe_caps dev s m)"
proof -
  let ?r1 = "read_cap dev PCI_EXP_DEVCTL m"
  let ?w1 = "write_cap dev PCI_EXP_DEVCTL (snd (fst ?r1) OR PCI_EXP_DEVCTL_EXT_TAG) (snd ?r1)"
  let ?r2 = "read_cap dev PCI_EXP_LNKCTL (snd ?w1)"
  let ?w2 = "write_cap dev PCI_EXP_LNKCTL (snd (fst ?r2) OR PCI_EXP_LNKCTL_RCB) (snd ?r2)"
  have t1: "m_takes m {#} (snd ?r1)" by (rule cap_access)
  have t2: "m_takes m {#} (snd ?w1)" using m_takes_trans [OF t1 cap_access(1)] by simp
  have t3: "m_takes m {#} (snd ?r2)" using m_takes_trans [OF t2 cap_access(2)] by simp
  have t4: "m_takes m {#} (snd ?w2)" using m_takes_trans [OF t3 cap_access(1)] by simp
  have t5: "m_takes m {#} (snd (write_cap dev PCI_EXP_DEVCTL (snd (fst ?r1)) (snd ?w2)))"
    using m_takes_trans [OF t4 cap_access(1)] by simp
  show ?thesis using undo_irq_after [OF t1] undo_irq_after [OF t2] undo_irq_after [OF t3] undo_irq_after [OF t5] t4
    by (simp add: stage_ok_def probe_caps_def Let_def split_def)
qed

lemma restore_caps_takes: "m_takes m {#} (restore_caps dev caps m)"
  using m_takes_trans [OF cap_access(1) cap_access(1)] by (simp add: restore_caps_def split_def)

lemma undo_device_gives:
  assumes "m_takes m {#} m'"
  shows "m_gives m (base_resources (sc_ptr s)) (undo_device dev caps s m')"
  unfolding undo_device_def
  by (rule undo_irq_after) (use m_takes_trans [OF assms restore_caps_takes] in simp)

lemma probe_info_ok:
  "stage_ok (base_resources (sc_ptr s)) (\<lambda>_. {#}) m (probe_info rd dev caps s m)"
proof -
  let ?p = "sc_ptr s"
  let ?m = "m\<lparr>drv := (drv m)\<lparr>bars := (bars (drv m))(?p := bars (drv m) ?p @ [RegRead INFO_REG_OFF])\<rparr>\<rparr>"
  have t: "m_takes m {#} ?m" by (simp add: m_takes_def takes_def same_tables_def)
  have "m_gives m (base_resources ?p) (undo_device dev caps (s\<lparr>num_chnls := a, num_sg := b, sg_buf_size := c\<rparr>) ?m)"
    for a b c
    using undo_device_gives [OF t, of "s\<lparr>num_chnls := a, num_sg := b, sg_buf_size := c\<rparr>" dev caps] by simp
  then show ?thesis using t unfolding probe_info_def Let_def stage_ok_def by simp
qed

definition chnl_part :: "fpga_state \<Rightarrow> resource multiset" where
  "chnl_part s = {#Kmem (the (recv_ptr s)), Kmem (the (send_ptr s))#} + chnls_resources (zip (recv s) (send s))"

lemma probe_chnls_ok:
  assumes ok: "\<forall>t. kmalloc_ok env t"
  shows "stage_ok (base_resources (sc_ptr s)) chnl_part m (probe_chnls env dev caps s m)"
proof -
  obtain a k1 where a: "kmalloc env (dkern (drv m)) = (Some a, k1)" using ok by (simp add: kmalloc_def)
  obtain b k2 where b: "kmalloc env k1 = (Some b, k2)" using ok by (simp add: kmalloc_def)
  obtain rs ss k3 where c: "allocate_chnls env (sg_buf_size s) (num_chnls s) k2 = ((rs, ss), k3)"
    by (metis prod.collapse)
  let ?C = "chnls_resources (zip rs ss)"
  have t: "takes (dkern (drv m)) (?C + ({#Kmem b#} + {#Kmem a#})) k3"
    using takes_trans [OF takes_trans [OF kmalloc_cases(2) [OF a] kmalloc_cases(2) [OF b]]]
      allocate_chnls_spec [OF ok c] by blast
  let ?f = "kfree (Some b) (kfree (Some a) (free_chnls rs ss k3))"
  have "gives_back k3 (?C + {#Kmem a#} + {#Kmem b#}) ?f"
    by (rule gives_back_trans [OF gives_back_trans [OF free_chnls_gives_back gives_back_kfree] gives_back_kfree])
  moreover have "?C + {#Kmem a#} + {#Kmem b#} = ?C + ({#Kmem b#} + {#Kmem a#})" by (simp add: add_mset_commute)
  ultimately have "takes (dkern (drv m)) {#} ?f" using undone_takes [OF t, of ?f] by (simp only:)
  then have "m_gives m (base_resources (sc_ptr s)) (undo_device dev caps s (kdo (\<lambda>_. ?f) m))"
    by (intro undo_device_gives m_takes_kdo)
  moreover have "m_takes m (chnl_part (s\<lparr>recv_ptr := Some a, send_ptr := Some b, recv := rs, send := ss\<rparr>))
      (kdo (\<lambda>_. k3) m)"
    by (rule m_takes_kdo) (use t in \<open>simp add: chnl_part_def ac_simps add_mset_commute\<close>)
  ultimately show ?thesis by (simp add: stage_ok_def probe_chnls_def a b c)
qed

text \<open>What the stages leave alone in the state, and what the last two establish.\<close>

lemma stage_sc_ptr:
  "probe_bar dev s m = Inr (s', m') \<Longrightarrow> sc_ptr s' = sc_ptr s"
  "probe_irq dev s m = Inr (s', m') \<Longrightarrow> sc_ptr s' = sc_ptr s"
  "probe_info rd dev caps s m = Inr (s', m') \<Longrightarrow> sc_ptr s' = sc_ptr s"
  "probe_chnls env dev caps s m = Inr (s', m') \<Longrightarrow> sc_ptr s' = sc_ptr s"
  by (auto simp: probe_bar_def probe_irq_def probe_info_def probe_chnls_def Let_def
      split: if_splits prod.splits)

definition device_part :: "fpga_state \<Rightarrow> resource multiset" where
  "device_part s = base_resources (sc_ptr s) + chnl_part s"

lemma probe_device_ok:
  assumes ok: "\<forall>t. kmalloc_ok env t"
  shows "stage_ok {#} (\<lambda>(caps, s). device_part s) m (probe_device env rd dev m)"
proof -
  let ?chnls = "\<lambda>caps s m. case probe_chnls env dev caps s m of Inl e \<Rightarrow> Inl e | Inr (s, m) \<Rightarrow> Inr ((caps, s), m)"
  let ?info = "\<lambda>caps s m. case probe_info rd dev caps s m of Inl e \<Rightarrow> Inl e | Inr (s, m) \<Rightarrow> ?chnls caps s m"
  let ?caps = "\<lambda>s m. case probe_caps dev s m of Inl e \<Rightarrow> Inl e | Inr (caps, m) \<Rightarrow> ?info caps s m"
  let ?irq = "\<lambda>s m. case probe_irq dev s m of Inl e \<Rightarrow> Inl e | Inr (s, m) \<Rightarrow> ?caps s m"
  let ?bar = "\<lambda>s m. case probe_bar dev s m of Inl e \<Rightarrow> Inl e | Inr (s, m) \<Rightarrow> ?irq s m"
  let ?sc = "\<lambda>m. case probe_sc env dev m of Inl e \<Rightarrow> Inl e | Inr (s, m) \<Rightarrow> ?bar s m"
  have chnls: "stage_ok (base_resources (sc_ptr s)) (\<lambda>(caps, s). chnl_part s) m (?chnls caps s m)" for caps s m
    using probe_chnls_ok [OF ok, of s m dev caps]
    by (auto simp: stage_ok_def split: sum.splits prod.splits)
  have info: "stage_ok (base_resources (sc_ptr s)) (\<lambda>(caps, s). chnl_part s) m (?info caps s m)" for caps s m
    by (rule stage_bind0 [OF probe_info_ok], drule stage_sc_ptr(3), erule subst, rule chnls)
  have caps: "stage_ok (base_resources (sc_ptr s)) (\<lambda>(caps, s). chnl_part s) m (?caps s m)" for s m
    by (rule stage_bind0 [OF probe_caps_ok], rule info)
  have irq: "stage_ok {#BarMapped, PciRegions, PciEnabled, Kmem (sc_ptr s)#}
      (\<lambda>y. {#IrqRequested, MsiEnabled#} + (\<lambda>(caps, s). chnl_part s) y) m (?irq s m)" for s m
    by (rule stage_bind_const [OF probe_irq_ok], drule stage_sc_ptr(2), rule stage_held [OF _ caps])
       (simp add: base_resources_def)
  have bar: "stage_ok {#PciEnabled, Kmem (sc_ptr s)#}
      (\<lambda>y. {#PciRegions, BarMapped#} + ({#IrqRequested, MsiEnabled#} + (\<lambda>(caps, s). chnl_part s) y)) m (?bar s m)"
    for s m
    by (rule stage_bind_const [OF probe_bar_ok], drule stage_sc_ptr(1), rule stage_held [OF _ irq])
       (simp add: add_mset_commute)
  have keep: "?bar s m = Inr (y, m') \<Longrightarrow> sc_ptr (snd y) = sc_ptr s" for s m y m'
    by (auto split: sum.splits prod.splits dest!: stage_sc_ptr)
  have sc: "stage_ok {#PciEnabled#} (\<lambda>y. {#Kmem (sc_ptr (snd y))#} + ({#PciRegions, BarMapped#} +
      ({#IrqRequested, MsiEnabled#} + (\<lambda>(caps, s). chnl_part s) y))) m (?sc m)" for m
    by (rule stage_bind [OF probe_sc_ok], rule stage_held [OF _ bar], simp add: add_mset_commute, drule keep, simp)
  have all: "stage_ok {#} (\<lambda>y. {#PciEnabled#} + ({#Kmem (sc_ptr (snd y))#} + ({#PciRegions, BarMapped#} +
      ({#IrqRequested, MsiEnabled#} + (\<lambda>(caps, s). chnl_part s) y)))) m (probe_device env rd dev m)"
    unfolding probe_device_def
    by (rule stage_bind_const [OF probe_enable_ok], rule stage_held [OF _ sc]) simp
  have eq: "(\<lambda>y. {#PciEnabled#} + ({#Kmem (sc_ptr (snd y))#} + ({#PciRegions, BarMapped#} +
      ({#IrqRequested, MsiEnabled#} + (\<lambda>(caps, s). chnl_part s) y)))) = (\<lambda>(caps, s). device_part s)"
    by (rule ext) (auto simp: device_part_def base_resources_def add_mset_commute)
  show ?thesis using all unfolding eq .
qed

section \<open>What a probed state is like\<close>

definition probed :: "fpga_state \<Rightarrow> bool" where
  "probed s \<longleftrightarrow> 1 \<le> num_chnls s \<and> num_chnls s \<le> MAX_CHNLS \<and>
     (\<exists>w. 1 \<le> w \<and> w \<le> MAX_BUS_WIDTH_PARAM \<and> num_sg s = SG_ELEMS * w \<and>
        list_all (fresh_dir 5 (SG_BUF_SIZE * w)) (recv s) \<and> list_all (fresh_dir 4 (SG_BUF_SIZE * w)) (send s)) \<and>
     length (recv s) = num_chnls s \<and> length (send s) = num_chnls s \<and>
     recv_ptr s \<noteq> None \<and> send_ptr s \<noteq> None"

lemma probe_info_Inr:
  assumes "probe_info rd dev caps s m = Inr (s', m')"
  shows "1 \<le> num_chnls s' \<and> num_chnls s' \<le> 12 \<and>
    (\<exists>w. 1 \<le> w \<and> w \<le> 4 \<and> num_sg s' = SG_ELEMS * w \<and> sg_buf_size s' = SG_BUF_SIZE * w)"
proof -
  let ?reg = "rd (length (bars (drv m) (sc_ptr s))) INFO_REG_OFF"
  let ?c = "?reg AND 0xF" and ?w = "drop_bit 19 ?reg AND 0xF"
  have s': "num_chnls s' = unat ?c" "num_sg s' = SG_ELEMS * unat ?w" "sg_buf_size s' = SG_BUF_SIZE * unat ?w"
    and c: "?c \<noteq> 0" "\<not> ?c > 12" and w: "?w \<noteq> 0" "\<not> ?w > 4"
    using assms by (auto simp: probe_info_def Let_def split: if_splits)
  have "1 \<le> unat ?c" "1 \<le> unat ?w" using c(1) w(1) by (simp_all add: Suc_le_eq unat_gt_0)
  moreover have "unat ?c \<le> 12" "unat ?w \<le> 4" using c(2) w(2) by (simp_all add: word_less_nat_alt)
  ultimately show ?thesis unfolding s' by blast
qed

lemma probe_chnls_Inr:
  assumes "probe_chnls env dev caps s m = Inr (s', m')" "\<forall>t. kmalloc_ok env t"
  shows "num_chnls s' = num_chnls s" "num_sg s' = num_sg s"
    "length (recv s') = num_chnls s \<and> length (send s') = num_chnls s"
    "list_all (fresh_dir 5 (sg_buf_size s)) (recv s')" "list_all (fresh_dir 4 (sg_buf_size s)) (send s')"
    "recv_ptr s' \<noteq> None" "send_ptr s' \<noteq> None"
proof -
  obtain a k1 where a: "kmalloc env (dkern (drv m)) = (Some a, k1)" using assms(2) by (simp add: kmalloc_def)
  obtain b k2 where b: "kmalloc env k1 = (Some b, k2)" using assms(2) by (simp add: kmalloc_def)
  obtain rs ss k3 where c: "allocate_chnls env (sg_buf_size s) (num_chnls s) k2 = ((rs, ss), k3)"
    by (metis prod.collapse)
  from allocate_chnls_spec [OF assms(2) c] have A: "length rs = length ss" "length rs \<le> num_chnls s"
    "list_all (fresh_dir 5 (sg_buf_size s)) rs" "list_all (fresh_dir 4 (sg_buf_size s)) ss" by simp_all
  have s': "\<not> length rs < num_chnls s" "s' = s\<lparr>recv_ptr := Some a, send_ptr := Some b, recv := rs, send := ss\<rparr>"
    using assms(1) by (auto simp: probe_chnls_def a b c split: if_splits)
  show "num_chnls s' = num_chnls s" "num_sg s' = num_sg s"
    "length (recv s') = num_chnls s \<and> length (send s') = num_chnls s"
    "list_all (fresh_dir 5 (sg_buf_size s)) (recv s')" "list_all (fresh_dir 4 (sg_buf_size s)) (send s')"
    "recv_ptr s' \<noteq> None" "send_ptr s' \<noteq> None"
    using A s' by simp_all
qed

lemma probe_device_Inr:
  assumes "probe_device env rd dev m = Inr ((caps, s), m')" "\<forall>t. kmalloc_ok env t"
  shows "probed s"
proof -
  obtain s0 m0 s1 m1 where i: "probe_info rd dev caps s0 m0 = Inr (s1, m1)"
    "probe_chnls env dev caps s1 m1 = Inr (s, m')"
    using assms(1) by (auto simp: probe_device_def split: sum.splits prod.splits)
  note C = probe_chnls_Inr [OF i(2) assms(2)]
  from probe_info_Inr [OF i(1)] obtain w where "1 \<le> num_chnls s1" "num_chnls s1 \<le> 12" "1 \<le> w" "w \<le> 4"
    "num_sg s1 = SG_ELEMS * w" "sg_buf_size s1 = SG_BUF_SIZE * w" by blast
  then show ?thesis using C by (auto simp: probed_def)
qed

text \<open>
  Everything a probed FPGA holds.  The spill buffer and the table entry come last.
\<close>

definition state_resources :: "fpga_state \<Rightarrow> resource multiset" where
  "state_resources s = device_part s +
     (case spill_buf_addr s of None \<Rightarrow> {#} | Some b \<Rightarrow> {#DmaBuf b#})"

lemma free_parts_gives_back:
  assumes "recv_ptr s \<noteq> None" "send_ptr s \<noteq> None"
  shows "gives_back k (chnl_part s) (kfree (send_ptr s) (kfree (recv_ptr s) (free_chnls (recv s) (send s) k)))"
proof -
  obtain a b where ab: "recv_ptr s = Some a" "send_ptr s = Some b" using assms by auto
  have "gives_back k (chnls_resources (zip (recv s) (send s)) + {#Kmem a#} + {#Kmem b#})
      (kfree (Some b) (kfree (Some a) (free_chnls (recv s) (send s) k)))"
    by (rule gives_back_trans [OF gives_back_trans [OF free_chnls_gives_back gives_back_kfree] gives_back_kfree])
  then show ?thesis by (simp add: chnl_part_def ab add_mset_commute)
qed

lemma free_spill_gives_back:
  "gives_back k (case b of None \<Rightarrow> {#} | Some b \<Rightarrow> {#DmaBuf b#}) (free_spill b k)"
  by (cases b) (simp_all add: free_spill_def gives_back_none gives_back_pci)

text \<open>The error path of a full table.\<close>

lemma probe_save_full:
  assumes "probe_save dev caps s m = (rc, m')" "first_free (used_fpgas (drv m)) = None"
    and "recv_ptr s \<noteq> None" "send_ptr s \<noteq> None"
  shows "rc = - ENOMEM" "gives_back (dkern (drv m)) (state_resources s) (dkern (drv m'))"
    "used_fpgas (drv m') = used_fpgas (drv m)" "fpgas (drv m') = fpgas (drv m)" "states (drv m') = states (drv m)"
proof -
  let ?m0 = "m\<lparr>drvdata := Some (sc_ptr s)\<rparr>"
  let ?m1 = "kdo (\<lambda>k. free_chnls (recv s) (send s) k) ?m0"
  let ?m2 = "kdo (\<lambda>k. kfree (send_ptr s) (kfree (recv_ptr s) k)) ?m1"
  let ?m3 = "kdo (free_spill (spill_buf_addr s)) ?m2"
  have m': "rc = - ENOMEM" "m' = undo_device dev caps s ?m3"
    using assms(1,2) by (simp_all add: probe_save_def Let_def)
  have "gives_back (dkern (drv m)) (chnl_part s + (case spill_buf_addr s of None \<Rightarrow> {#} | Some b \<Rightarrow> {#DmaBuf b#}))
      (dkern (drv ?m3))"
    using gives_back_trans [OF free_parts_gives_back [OF assms(3,4)] free_spill_gives_back] by simp
  moreover have "m_gives ?m3 (base_resources (sc_ptr s)) m'"
    unfolding m'(2) by (rule undo_device_gives [OF m_takes_refl])
  ultimately have "gives_back (dkern (drv m)) (chnl_part s + (case spill_buf_addr s of None \<Rightarrow> {#} | Some b \<Rightarrow> {#DmaBuf b#}) +
      base_resources (sc_ptr s)) (dkern (drv m'))"
    using gives_back_trans by (auto simp: m_gives_def)
  then show "gives_back (dkern (drv m)) (state_resources s) (dkern (drv m'))"
    by (simp add: state_resources_def device_part_def ac_simps)
  have "same_tables ?m3 m'" using \<open>m_gives ?m3 _ m'\<close> by (simp add: m_gives_def)
  then show "used_fpgas (drv m') = used_fpgas (drv m)" "fpgas (drv m') = fpgas (drv m)"
    "states (drv m') = states (drv m)"
    by (simp_all add: same_tables_def) (simp_all add: kdo_def)
  show "rc = - ENOMEM" by (rule m')
qed

lemma first_free_Some:
  "first_free used = Some i \<Longrightarrow> i < NUM_FPGAS \<and> \<not> used ! i \<and> (\<forall>j < i. used ! j)"
  by (auto simp: first_free_def find_Some_iff simp del: upt_conv_Cons upt_Suc)

section \<open>The whole probe\<close>

text \<open>The probe with a spill buffer, seen from where it started.\<close>

lemma probe_spill_Some:
  assumes "pci_alloc env (dkern (drv m)) = (Some (b, hw), k)"
  shows "probe_spill env dev caps s m = (s\<lparr>spill_buf_addr := Some b, spill_buf_hw_addr := hw\<rparr>, kdo (\<lambda>_. k) m)"
    "m_takes m {#DmaBuf b#} (kdo (\<lambda>_. k) m)"
  using assms m_takes_kdo [OF pci_alloc_cases(2) [OF assms]] by (simp_all add: probe_spill_def)

text \<open>The kernel never refuses the small blocks, and the spill buffer can be allocated.\<close>

definition spill_available :: "kenv \<Rightarrow> registers \<Rightarrow> pci_dev \<Rightarrow> machine \<Rightarrow> bool" where
  "spill_available env rd dev m \<longleftrightarrow> (\<forall>t. kmalloc_ok env t) \<and>
     (case probe_device env rd dev m of
        Inl _ \<Rightarrow> True | Inr (_, m1) \<Rightarrow> fst (pci_alloc env (dkern (drv m1))) \<noteq> None)"

lemma probe_reaches_save:
  assumes sp: "spill_available env rd dev m" and d: "probe_device env rd dev m = Inr ((caps, s), m1)"
  obtains b hw m2 where
    "fpga_probe env rd dev m =
       probe_save dev caps (s\<lparr>spill_buf_addr := Some b, spill_buf_hw_addr := hw\<rparr>) m2"
    "m_takes m (state_resources (s\<lparr>spill_buf_addr := Some b, spill_buf_hw_addr := hw\<rparr>)) m2"
proof -
  obtain b hw k where pa: "pci_alloc env (dkern (drv m1)) = (Some (b, hw), k)"
    using sp d by (cases "pci_alloc env (dkern (drv m1))") (auto simp: spill_available_def)
  note S = probe_spill_Some [OF pa]
  have ok: "\<forall>t. kmalloc_ok env t" using sp by (simp add: spill_available_def)
  have "m_takes m (device_part s) m1" using probe_device_ok [OF ok, of m rd dev] d by (simp add: stage_ok_def)
  from m_takes_trans [OF this S(2)]
  have "m_takes m (state_resources (s\<lparr>spill_buf_addr := Some b, spill_buf_hw_addr := hw\<rparr>)) (kdo (\<lambda>_. k) m1)"
    by (simp add: state_resources_def device_part_def chnl_part_def)
  with that show thesis by (simp add: fpga_probe_def d S(1))
qed

lemma probe_error:
  assumes sp: "spill_available env rd dev m" and r: "fpga_probe env rd dev m = (rc, m')" and rc: "rc \<noteq> 0"
  shows "takes (dkern (drv m)) {#} (dkern (drv m'))"
    "used_fpgas (drv m') = used_fpgas (drv m)" "fpgas (drv m') = fpgas (drv m)"
    "states (drv m') = states (drv m)"
proof -
  have ok: "\<forall>t. kmalloc_ok env t" using sp by (simp add: spill_available_def)
  have "takes (dkern (drv m)) {#} (dkern (drv m')) \<and> used_fpgas (drv m') = used_fpgas (drv m) \<and>
      fpgas (drv m') = fpgas (drv m) \<and> states (drv m') = states (drv m)"
  proof (cases "probe_device env rd dev m")
    case (Inl e)
    then have "m_gives m {#} m'" using probe_device_ok [OF ok, of m rd dev] r
      by (simp add: stage_ok_def fpga_probe_def)
    then show ?thesis by (simp add: m_gives_def same_tables_def gives_back_def takes_def)
  next
    case (Inr y)
    obtain caps s m1 where y: "y = ((caps, s), m1)" by (metis prod.collapse)
    obtain b hw m2 where p: "fpga_probe env rd dev m =
       probe_save dev caps (s\<lparr>spill_buf_addr := Some b, spill_buf_hw_addr := hw\<rparr>) m2"
      "m_takes m (state_resources (s\<lparr>spill_buf_addr := Some b, spill_buf_hw_addr := hw\<rparr>)) m2"
      by (rule probe_reaches_save [OF sp Inr [unfolded y]])
    let ?s = "s\<lparr>spill_buf_addr := Some b, spill_buf_hw_addr := hw\<rparr>"
    have save: "probe_save dev caps ?s m2 = (rc, m')" using r p(1) by simp
    have full: "first_free (used_fpgas (drv m2)) = None"
      using save rc by (auto simp: probe_save_def Let_def split: option.splits)
    have "recv_ptr ?s \<noteq> None" "send_ptr ?s \<noteq> None"
      using probe_device_Inr [OF Inr [unfolded y] ok] by (simp_all add: probed_def)
    note F = probe_save_full [OF save full this]
    have "takes (dkern (drv m)) (state_resources ?s) (dkern (drv m2))" using p(2) by (simp add: m_takes_def)
    from undone_takes [OF this F(2)] F(3-5) p(2) show ?thesis by (simp add: m_takes_def same_tables_def)
  qed
  then show "takes (dkern (drv m)) {#} (dkern (drv m'))"
    "used_fpgas (drv m') = used_fpgas (drv m)" "fpgas (drv m') = fpgas (drv m)"
    "states (drv m') = states (drv m)" by simp_all
qed

lemma probe_ok:
  assumes sp: "spill_available env rd dev m" and r: "fpga_probe env rd dev m = (0, m')"
  obtains i s p where "first_free (used_fpgas (drv m)) = Some i" "probed s" "sc_ptr s = p"
    "takes (dkern (drv m)) (state_resources s) (dkern (drv m'))"
    "used_fpgas (drv m') = (used_fpgas (drv m))[i := True]" "fpgas (drv m') = (fpgas (drv m))[i := p]"
    "states (drv m') = (states (drv m))(p := s)" "fpga_id s = int i" "drvdata m' = Some p"
    "spill_buf_addr s \<noteq> None"
proof -
  have ok: "\<forall>t. kmalloc_ok env t" using sp by (simp add: spill_available_def)
  obtain caps s m1 where d: "probe_device env rd dev m = Inr ((caps, s), m1)"
    using r probe_device_ok [OF ok, of m rd dev]
    by (auto simp: stage_ok_def fpga_probe_def split: sum.splits prod.splits)
  obtain b hw m2 where p: "fpga_probe env rd dev m =
     probe_save dev caps (s\<lparr>spill_buf_addr := Some b, spill_buf_hw_addr := hw\<rparr>) m2"
    "m_takes m (state_resources (s\<lparr>spill_buf_addr := Some b, spill_buf_hw_addr := hw\<rparr>)) m2"
    by (rule probe_reaches_save [OF sp d])
  let ?s = "s\<lparr>spill_buf_addr := Some b, spill_buf_hw_addr := hw\<rparr>"
  have save: "probe_save dev caps ?s m2 = (0, m')" using r p(1) by simp
  have P: "probed s" by (rule probe_device_Inr [OF d ok])
  have ptrs: "recv_ptr ?s \<noteq> None" "send_ptr ?s \<noteq> None" using P by (simp_all add: probed_def)
  have "first_free (used_fpgas (drv m2)) \<noteq> None"
    using probe_save_full(1) [OF save _ ptrs] by auto
  then obtain i where i: "first_free (used_fpgas (drv m2)) = Some i" by auto
  have same: "same_tables m m2" using p(2) by (simp add: m_takes_def)
  let ?t = "?s\<lparr>fpga_id := int i\<rparr>"
  have "probed ?t" using P by (simp add: probed_def)
  moreover have "takes (dkern (drv m)) (state_resources ?t) (dkern (drv m2))"
    using p(2) by (simp add: m_takes_def state_resources_def device_part_def chnl_part_def)
  ultimately show thesis
    using that [of i ?t "sc_ptr s"] save i same
    by (auto simp: probe_save_def Let_def same_tables_def)
qed

section \<open>Removing what was probed\<close>

lemma remove_gives_back:
  assumes "drvdata m = Some p" "states (drv m) p = s" "sc_ptr s = p" "recv_ptr s \<noteq> None" "send_ptr s \<noteq> None"
  shows "gives_back (dkern (drv m)) (state_resources s) (dkern (drv (fpga_remove dev m)))"
    "used_fpgas (drv (fpga_remove dev m)) = (used_fpgas (drv m))[nat (fpga_id s) := False]"
    "drvdata (fpga_remove dev m) = None" "fpgas (drv (fpga_remove dev m)) = fpgas (drv m)"
    "states (drv (fpga_remove dev m)) = states (drv m)"
proof -
  let ?k = "dkern (drv m)"
  let ?sp = "case spill_buf_addr s of None \<Rightarrow> {#} | Some b \<Rightarrow> {#DmaBuf b#}"
  let ?k1 = "free_spill (spill_buf_addr s) (kfree (send_ptr s) (kfree (recv_ptr s) (free_chnls (recv s) (send s) ?k)))"
  let ?k2 = "kfree (Some p) (release BarMapped (release IrqRequested ?k1))"
  have a: "gives_back ?k (chnl_part s + ?sp) ?k1"
    by (rule gives_back_trans [OF free_parts_gives_back [OF assms(4,5)] free_spill_gives_back])
  have b: "gives_back ?k1 ({#IrqRequested#} + {#BarMapped#} + {#Kmem p#}) ?k2"
    by (rule gives_back_trans [OF gives_back_trans [OF gives_back_release gives_back_release] gives_back_kfree])
  have c: "gives_back ?k2 ({#MsiEnabled#} + {#PciRegions#} + {#PciEnabled#})
      (release PciEnabled (release PciRegions (release MsiEnabled ?k2)))"
    by (rule gives_back_trans [OF gives_back_trans [OF gives_back_release gives_back_release] gives_back_release])
  have k: "dkern (drv (fpga_remove dev m)) = release PciEnabled (release PciRegions (release MsiEnabled ?k2))"
    using assms(1,2) by (simp add: fpga_remove_def Let_def read_cap_def write_cap_def kdo_def split_def)
  have "chnl_part s + ?sp + ({#IrqRequested#} + {#BarMapped#} + {#Kmem p#}) +
      ({#MsiEnabled#} + {#PciRegions#} + {#PciEnabled#}) = state_resources s"
    by (simp add: state_resources_def device_part_def base_resources_def assms(3) add_mset_commute ac_simps)
  with gives_back_trans [OF gives_back_trans [OF a b] c]
  show "gives_back ?k (state_resources s) (dkern (drv (fpga_remove dev m)))" unfolding k by simp
  show "used_fpgas (drv (fpga_remove dev m)) = (used_fpgas (drv m))[nat (fpga_id s) := False]"
    "drvdata (fpga_remove dev m) = None" "fpgas (drv (fpga_remove dev m)) = fpgas (drv m)"
    "states (drv (fpga_remove dev m)) = states (drv m)"
    using assms(1,2) by (simp_all add: fpga_remove_def Let_def read_cap_def write_cap_def kdo_def split_def)
qed

section \<open>Properties\<close>

definition good_dev :: pci_dev where
  "good_dev = \<lparr>enable_rc = 0, dma_mask_rc = 0, consistent_mask_rc = 0, regions_rc = 0, res_start = 0xF0000000,
     res_len = 1024, res_flags = 0, ioremap_ok = True, msi_rc = 0, irq_rc = 0, dev_irq = 10,
     cap_read = (\<lambda>_ _. (0, 0x2810)), cap_write = (\<lambda>_ _. 0), pci_name = ''0000:01:00.0'',
     dev_vendor = 0x10EE, dev_device = 0x6018\<rparr>"

text \<open>The information register of a device with one channel, a 32-bit bus and a working link.\<close>

definition info_reg :: registers where
  "info_reg = (\<lambda>_ _. 0x80831)"

definition empty_machine :: machine where
  "empty_machine = \<lparr>drv = \<lparr>used_fpgas = replicate NUM_FPGAS False, fpgas = replicate NUM_FPGAS 0,
     states = (\<lambda>p. zero_state good_dev p), bars = (\<lambda>_. []), dkern = fresh_kernel\<rparr>, cfg = [], drvdata = None\<rparr>"

lemma spill_available_generous: "spill_available generous_env rd dev m"
  by (auto simp: spill_available_def generous_env_def pci_alloc_def split: sum.splits)

lemma empty_machine_facts:
  "used_fpgas (drv empty_machine) = [False, False, False, False, False]"
  "held (dkern (drv empty_machine)) = {#}" "faults (dkern (drv empty_machine)) = []"
  by (simp_all add: empty_machine_def fresh_kernel_def eval_nat_numeral)

text \<open>A kernel and a device that refuse nothing.\<close>

definition agreeable :: "kenv \<Rightarrow> pci_dev \<Rightarrow> bool" where
  "agreeable env dev \<longleftrightarrow> (\<forall>t. kmalloc_ok env t) \<and> (\<forall>t. dma_alloc env t \<noteq> None) \<and> 0 \<le> enable_rc dev \<and>
     dma_mask_rc dev = 0 \<and> consistent_mask_rc dev = 0 \<and> 0 \<le> regions_rc dev \<and> res_len dev = 1024 \<and>
     ioremap_ok dev \<and> msi_rc dev = 0 \<and> irq_rc dev = 0 \<and> (\<forall>n r. fst (cap_read dev n r) = 0) \<and>
     (\<forall>n r. cap_write dev n r = 0)"

text \<open>An information register the driver accepts.\<close>

definition info_ok :: "u32 \<Rightarrow> bool" where
  "info_ok reg \<longleftrightarrow> drop_bit 4 reg AND 0x1 = 1 \<and> drop_bit 5 reg AND 0x3F \<noteq> 0 \<and> drop_bit 11 reg AND 0x3 \<noteq> 0 \<and>
     reg AND 0xF \<noteq> 0 \<and> reg AND 0xF \<le> 12 \<and> drop_bit 19 reg AND 0xF \<noteq> 0 \<and> drop_bit 19 reg AND 0xF \<le> 4"

text \<open>A register that always reads the same.\<close>

definition steady :: "registers \<Rightarrow> nat \<Rightarrow> u32 \<Rightarrow> bool" where
  "steady rd off v \<longleftrightarrow> (\<forall>n. rd n off = v)"

lemma alloc_dir_total:
  assumes "\<forall>t. kmalloc_ok env t" "\<forall>t. dma_alloc env t \<noteq> None"
  obtains c k' where "alloc_dir env len bytes k = (Some c, k')"
proof -
  obtain p k1 where a: "kmalloc env k = (Some p, k1)" using assms(1) by (simp add: kmalloc_def)
  obtain q k2 where b: "init_circ_queue env len k1 = (Some q, k2)" by (rule init_queue_total [OF assms(1)])
  obtain hw where "dma_alloc env (tick k2) = Some hw" using assms(2) by auto
  with that show thesis by (simp add: alloc_dir_def a b pci_alloc_def)
qed

lemma allocate_chnls_total:
  assumes "\<forall>t. kmalloc_ok env t" "\<forall>t. dma_alloc env t \<noteq> None"
  shows "\<exists>rs ss k'. allocate_chnls env bytes n k = ((rs, ss), k') \<and> length rs = n"
proof (induction n arbitrary: k)
  case 0
  then show ?case by simp
next
  case (Suc n)
  obtain r k1 where r: "alloc_dir env 5 bytes k = (Some r, k1)" by (rule alloc_dir_total [OF assms])
  obtain s k2 where s: "alloc_dir env 4 bytes k1 = (Some s, k2)" by (rule alloc_dir_total [OF assms])
  from Suc.IH [of k2] show ?case by (auto simp: r s)
qed

lemma probe_chnls_total:
  assumes "\<forall>t. kmalloc_ok env t" "\<forall>t. dma_alloc env t \<noteq> None"
  obtains s' m' where "probe_chnls env dev caps s m = Inr (s', m')"
proof -
  obtain a k1 where a: "kmalloc env (dkern (drv m)) = (Some a, k1)" using assms(1) by (simp add: kmalloc_def)
  obtain b k2 where b: "kmalloc env k1 = (Some b, k2)" using assms(1) by (simp add: kmalloc_def)
  obtain rs ss k3 where c: "allocate_chnls env (sg_buf_size s) (num_chnls s) k2 = ((rs, ss), k3)"
    "length rs = num_chnls s" using allocate_chnls_total [OF assms] by metis
  show thesis using that by (simp add: probe_chnls_def a b c)
qed

lemma probe_info_total:
  assumes "steady rd INFO_REG_OFF reg" "info_ok reg"
  obtains s' m' where "probe_info rd dev caps s m = Inr (s', m')"
proof -
  show thesis using assms that
    by (simp add: probe_info_def Let_def info_ok_def steady_def not_less)
qed

lemma probe_device_total:
  assumes ag: "agreeable env dev" and reg: "steady rd INFO_REG_OFF reg" "info_ok reg"
  obtains caps s m' where "probe_device env rd dev m = Inr ((caps, s), m')"
proof -
  obtain m1 where 1: "probe_enable dev m = Inr ((), m1)" using ag by (simp add: probe_enable_def agreeable_def)
  obtain s2 m2 where 2: "probe_sc env dev m1 = Inr (s2, m2)"
    using ag by (simp add: probe_sc_def agreeable_def kmalloc_def)
  obtain s3 m3 where 3: "probe_bar dev s2 m2 = Inr (s3, m3)" using ag by (simp add: probe_bar_def agreeable_def Let_def)
  obtain s4 m4 where 4: "probe_irq dev s3 m3 = Inr (s4, m4)" using ag by (simp add: probe_irq_def agreeable_def Let_def)
  obtain c m5 where 5: "probe_caps dev s4 m4 = Inr (c, m5)"
    using ag by (simp add: probe_caps_def agreeable_def Let_def read_cap_def write_cap_def split_def)
  obtain s6 m6 where 6: "probe_info rd dev c s4 m5 = Inr (s6, m6)" by (rule probe_info_total [OF reg])
  obtain s7 m7 where 7: "probe_chnls env dev c s6 m6 = Inr (s7, m7)"
    by (rule probe_chnls_total) (use ag in \<open>auto simp: agreeable_def\<close>)
  show thesis using that by (simp add: probe_device_def 1 2 3 4 5 6 7)
qed

lemma probe_succeeds:
  assumes ag: "agreeable env dev" and reg: "steady rd INFO_REG_OFF reg" "info_ok reg"
    and free: "first_free (used_fpgas (drv m)) \<noteq> None"
  shows "fst (fpga_probe env rd dev m) = 0" "spill_available env rd dev m"
proof -
  obtain caps s m1 where d: "probe_device env rd dev m = Inr ((caps, s), m1)" by (rule probe_device_total [OF ag reg])
  have "dma_alloc env (tick (dkern (drv m1))) \<noteq> None" using ag unfolding agreeable_def by blast
  then obtain hw where "dma_alloc env (tick (dkern (drv m1))) = Some hw" by auto
  then obtain b k where pa: "pci_alloc env (dkern (drv m1)) = (Some (b, hw), k)" by (simp add: pci_alloc_def)
  show sp: "spill_available env rd dev m" using ag pa d by (simp add: spill_available_def agreeable_def)
  obtain b' hw' m2 where p: "fpga_probe env rd dev m =
       probe_save dev caps (s\<lparr>spill_buf_addr := Some b', spill_buf_hw_addr := hw'\<rparr>) m2"
    "m_takes m (state_resources (s\<lparr>spill_buf_addr := Some b', spill_buf_hw_addr := hw'\<rparr>)) m2"
    by (rule probe_reaches_save [OF sp d])
  have "used_fpgas (drv m2) = used_fpgas (drv m)" using p(2) by (simp add: m_takes_def same_tables_def)
  then show "fst (fpga_probe env rd dev m) = 0" using free by (auto simp: p(1) probe_save_def Let_def)
qed

lemma good_facts: "agreeable generous_env good_dev" "steady info_reg INFO_REG_OFF 0x80831" "info_ok 0x80831"
  by (simp_all add: agreeable_def generous_env_def good_dev_def info_reg_def info_ok_def steady_def)

lemma good_probe_run:
  obtains m' where "fpga_probe generous_env info_reg good_dev empty_machine = (0, m')"
proof -
  have "first_free (used_fpgas (drv empty_machine)) \<noteq> None"
    by (simp add: empty_machine_facts first_free_def upt_rec)
  from probe_succeeds(1) [OF good_facts this] that show thesis
    by (cases "fpga_probe generous_env info_reg good_dev empty_machine") auto
qed



text \<open>C12: A probe of a device that answers sanely, with a free entry in the table, succeeds, and it
  makes the FPGA ready for use: the entry is the first free one, the driver data and the table
  point to the same state, the state has between 1 and 12 channels with empty, well-formed
  queues and common buffers that hold every scatterlist, so both transfers and the interrupt
  handler find what they ask for.\<close>

theorem probe_makes_ready:
  assumes "agreeable env dev" and "steady rd INFO_REG_OFF reg" and "info_ok reg"
    and "first_free (used_fpgas (drv m)) = Some i"
  shows "\<exists>m' p. fpga_probe env rd dev m = (0, m') \<and>
    used_fpgas (drv m') = (used_fpgas (drv m))[i := True] \<and> fpgas (drv m') = (fpgas (drv m))[i := p] \<and>
    drvdata m' = Some p \<and> fpga_id (states (drv m') p) = int i \<and>
    send_ready (get_device p (drv m')) \<and> recv_ready (get_device p (drv m')) \<and>
    device_ok (get_device p (drv m')) \<and> 1 \<le> num_chnls (states (drv m') p) \<and> 0 < num_sg (states (drv m') p) \<and>
    (\<forall>c < num_chnls (states (drv m') p). pending (recv (states (drv m') p) ! c) = [] \<and>
       pending (send (states (drv m') p) ! c) = [])"
proof -
  have free: "first_free (used_fpgas (drv m)) \<noteq> None" using assms(4) by simp
  note S = probe_succeeds [OF assms(1-3) free]
  obtain m' where r: "fpga_probe env rd dev m = (0, m')"
    using S(1) by (cases "fpga_probe env rd dev m") auto
  obtain j s p where P: "first_free (used_fpgas (drv m)) = Some j" "probed s" "sc_ptr s = p"
    "takes (dkern (drv m)) (state_resources s) (dkern (drv m'))"
    "used_fpgas (drv m') = (used_fpgas (drv m))[j := True]" "fpgas (drv m') = (fpgas (drv m))[j := p]"
    "states (drv m') = (states (drv m))(p := s)" "fpga_id s = int j" "drvdata m' = Some p"
    "spill_buf_addr s \<noteq> None"
    by (rule probe_ok [OF S(2) r])
  obtain w where w: "1 \<le> w" "num_sg s = SG_ELEMS * w" "list_all (fresh_dir 5 (SG_BUF_SIZE * w)) (recv s)"
    "list_all (fresh_dir 4 (SG_BUF_SIZE * w)) (send s)" using P(2) by (auto simp: probed_def)
  have l: "length (recv s) = num_chnls s" "length (send s) = num_chnls s" "1 \<le> num_chnls s" "num_chnls s \<le> 12"
    using P(2) by (simp_all add: probed_def)
  have dirs: "fresh_dir 5 (SG_BUF_SIZE * w) (recv s ! c)" "fresh_dir 4 (SG_BUF_SIZE * w) (send s ! c)"
    if "c < num_chnls s" for c
    using w(3,4) l that by (simp_all add: list_all_length)
  have four: "unat q = 4 \<Longrightarrow> q = 4" for q :: u32 by (simp add: word_unat_eq_iff)
  have d: "sc (get_device p (drv m')) = s" by (simp add: get_device_def P(7))
  have "send_ready (get_device p (drv m'))" "recv_ready (get_device p (drv m'))" "device_ok (get_device p (drv m'))"
    unfolding send_ready_def recv_ready_def device_ok_def d
    using dirs l w(2) four by (auto simp: fresh_dir_def sg_room_def)
  moreover have "j = i" using P(1) assms(4) by simp
  ultimately show ?thesis using r P l w dirs
    by (intro exI [of _ m'] exI [of _ p]) (auto simp: fresh_dir_def)
qed

lemma empty_machine_free: "first_free (used_fpgas (drv empty_machine)) = Some 0"
  by (simp add: empty_machine_facts first_free_def upt_rec)

theorem probe_makes_ready_witness:
  "\<exists>m' p. fpga_probe generous_env info_reg good_dev empty_machine = (0, m') \<and>
     used_fpgas (drv m') = [True, False, False, False, False] \<and> send_ready (get_device p (drv m'))"
  using probe_makes_ready [OF good_facts empty_machine_free] by (auto simp: empty_machine_facts)



lemma probe_spill_None:
  assumes "pci_alloc env (dkern (drv m)) = (None, k)" "recv_ptr s \<noteq> None" "send_ptr s \<noteq> None"
  obtains m' where "probe_spill env dev caps s m = (s, m')" "m_gives m (device_part s) m'"
proof -
  let ?m0 = "kdo (\<lambda>_. free_chnls (recv s) (send s) k) m"
  let ?m1 = "restore_caps dev caps ?m0"
  let ?m2 = "kdo (\<lambda>k. kfree (send_ptr s) (kfree (recv_ptr s) k)) ?m1"
  let ?m3 = "kdo (undo_irq (sc_ptr s)) ?m2"
  obtain a b where ab: "recv_ptr s = Some a" "send_ptr s = Some b" using assms(2,3) by auto
  have t: "takes (dkern (drv m)) {#} k" by (rule pci_alloc_cases(1) [OF assms(1)])
  have "m_takes m {#} (kdo (\<lambda>_. k) m)" by (rule m_takes_kdo [OF t])
  moreover have "m_gives (kdo (\<lambda>_. k) m) (chnls_resources (zip (recv s) (send s))) ?m0"
    using free_chnls_gives_back [of k "recv s" "send s"] by (simp add: m_gives_def) (simp add: kdo_def same_tables_def)
  ultimately have a: "m_gives m (chnls_resources (zip (recv s) (send s))) ?m0" using m_gives_after by fastforce
  have b: "m_gives ?m0 {#} ?m1"
    using restore_caps_takes [of ?m0 dev caps] by (simp add: m_takes_def m_gives_def takes_def gives_back_def)
  have c: "m_gives ?m1 ({#Kmem a#} + {#Kmem b#}) ?m2"
    by (rule m_gives_kdo) (simp only: ab, rule gives_back_trans [OF gives_back_kfree gives_back_kfree])
  have d: "m_gives ?m2 (base_resources (sc_ptr s)) ?m3" by (rule m_gives_kdo) (rule undo_gives_back(3))
  have "m_gives m (device_part s) ?m3"
    using m_gives_trans [OF m_gives_trans [OF m_gives_trans [OF a b] c] d]
    by (simp add: device_part_def chnl_part_def ab add_mset_commute ac_simps)
  then show thesis using that by (simp add: probe_spill_def assms(1) Let_def)
qed

text \<open>When the spill buffer cannot be allocated the probe gives back everything, the state of the
  FPGA included, and then goes on instead of returning: it reports success, with the freed
  state entered in the table of FPGAs and in the driver data.\<close>

theorem spill_failure_continues:
  assumes "pci_alloc env (dkern (drv m)) = (None, k)" and "recv_ptr s \<noteq> None" and "send_ptr s \<noteq> None"
    and "first_free (used_fpgas (drv m)) = Some i" and "i < length (fpgas (drv m))"
    and "count (held (dkern (drv m))) (Kmem (sc_ptr s)) = 1"
  shows "let (s', m1) = probe_spill env dev caps s m; (rc, m2) = probe_save dev caps s' m1 in
    rc = 0 \<and> drvdata m2 = Some (sc_ptr s) \<and> fpgas (drv m2) ! i = sc_ptr s \<and>
    Kmem (sc_ptr s) \<notin># held (dkern (drv m2))"
proof -
  obtain m1 where p: "probe_spill env dev caps s m = (s, m1)" "m_gives m (device_part s) m1"
    by (rule probe_spill_None [OF assms(1-3)])
  have h: "held (dkern (drv m1)) = held (dkern (drv m)) - device_part s"
    and same: "same_tables m m1" using p(2) by (simp_all add: m_gives_def gives_back_def)
  have "count (device_part s) (Kmem (sc_ptr s)) \<ge> 1"
    by (simp add: device_part_def base_resources_def)
  then have "Kmem (sc_ptr s) \<notin># held (dkern (drv m1))"
    unfolding h using assms(6) by (simp add: count_eq_zero_iff [symmetric])
  then show ?thesis using p(1) same assms(4,5) by (simp add: probe_save_def Let_def same_tables_def)
qed

theorem spill_failure_continues_witness:
  "let (s', m1) = probe_spill (generous_env\<lparr>dma_alloc := (\<lambda>_. None)\<rparr>) good_dev (0, 0)
        ((zero_state good_dev 7)\<lparr>recv_ptr := Some 1, send_ptr := Some 2\<rparr>)
        (kdo (acquire (Kmem 7)) empty_machine);
       (rc, m2) = probe_save good_dev (0, 0) s' m1
   in rc = 0 \<and> fpgas (drv m2) ! 0 = 7 \<and> Kmem 7 \<notin># held (dkern (drv m2))"
proof -
  let ?env = "generous_env\<lparr>dma_alloc := (\<lambda>_. None)\<rparr>"
  let ?s = "(zero_state good_dev 7)\<lparr>recv_ptr := Some 1, send_ptr := Some 2\<rparr>"
  let ?m = "kdo (acquire (Kmem 7)) empty_machine"
  have a: "pci_alloc ?env (dkern (drv ?m)) = (None, advance (dkern (drv ?m)))" by (simp add: pci_alloc_def)
  have b: "first_free (used_fpgas (drv ?m)) = Some 0" "0 < length (fpgas (drv ?m))"
    using empty_machine_free by (simp_all add: kdo_def) (simp add: empty_machine_def)
  have p: "sc_ptr (zero_state good_dev 7) = 7" by (simp add: zero_state_def)
  have c: "count (held (dkern (drv ?m))) (Kmem (sc_ptr ?s)) = 1"
    by (simp add: p ledger_simps empty_machine_facts)
  show ?thesis
    using spill_failure_continues [OF a _ _ b(1,2) c, of good_dev "(0, 0)"] by (auto simp: p)
qed

text \<open>\<open>fpga_remove\<close> means to clear the read completion boundary bit of the link control register,
  but it reads the device control register for it: whatever the device held there is written to
  link control, and the value it had before the probe is not restored.\<close>

theorem remove_clobbers_link_control:
  "cfg (fpga_remove dev m) = cfg m @
     [CfgRead PCI_EXP_DEVCTL,
      CfgWrite PCI_EXP_DEVCTL (snd (cap_read dev (length (cfg m)) PCI_EXP_DEVCTL) AND NOT PCI_EXP_DEVCTL_EXT_TAG),
      CfgRead PCI_EXP_DEVCTL,
      CfgWrite PCI_EXP_LNKCTL
        (snd (cap_read dev (length (cfg m) + 2) PCI_EXP_DEVCTL) AND NOT PCI_EXP_LNKCTL_RCB)]"
  by (simp add: fpga_remove_def Let_def read_cap_def write_cap_def kdo_def split_def split: option.split)

text \<open>Loading and unloading the module: when every registration succeeds the table of FPGAs is
  empty, the four registrations stand, and unloading removes them all.  When the character
  device or the class is refused, the module fails to load but its PCI driver stays registered,
  with handlers that are about to be unloaded.\<close>

theorem init_exit_registrations:
  "case fpga_init a (g, []) of (rc, g', regs) \<Rightarrow>
     used_fpgas g' = replicate NUM_FPGAS False \<and>
     (rc = 0 \<longrightarrow> set regs = {PciDriver, CharDev, DevClass, DevNode} \<and> fpga_exit regs = []) \<and>
     (rc \<noteq> 0 \<and> pci_register_rc a = 0 \<longrightarrow> PciDriver \<in> set regs)"
  by (auto simp: fpga_init_def fpga_exit_def Let_def)

theorem init_exit_registrations_witness:
  "case fpga_init \<lparr>pci_register_rc = 0, chrdev_rc = -16, class_rc = 0\<rparr> (drv empty_machine, []) of
     (rc, g', regs) \<Rightarrow> rc = -16 \<and> PciDriver \<in> set regs"
  using init_exit_registrations [of "\<lparr>pci_register_rc = 0, chrdev_rc = -16, class_rc = 0\<rparr>" "drv empty_machine"]
  by (simp add: fpga_init_def Let_def)

end
