(* ===== verification/Retention_Main.thy ===== *)
theory Retention_Main
  imports Retention Riffa_Ioctl
begin

text \<open>
  The program around the retention test (\<open>printHelp\<close> and \<open>main\<close> of
  \<open>src/sw/RetentionTest/RetentionTest.cpp\<close>): its argument, the exit codes and the calls of the user
  library.  The answers of \<open>fpga_list\<close> and \<open>fpga_open\<close> are a parameter.  An operation returns \<open>None\<close>
  where the test does, or without a program name.
\<close>

section \<open>The argument\<close>

text \<open>
  \<open>stoi\<close> of the C++ library: white space, a sign, decimal digits; what follows the digits is
  ignored.  \<open>None\<close> is an exception: no digit, or a value outside of \<open>int\<close>.
\<close>

definition is_blank :: "char \<Rightarrow> bool" where
  "is_blank c \<longleftrightarrow> (of_char c :: nat) = 32 \<or> (9 \<le> (of_char c :: nat) \<and> (of_char c :: nat) \<le> 13)"

definition is_digit :: "char \<Rightarrow> bool" where
  "is_digit c \<longleftrightarrow> 48 \<le> (of_char c :: nat) \<and> (of_char c :: nat) \<le> 57"

fun read_digits :: "nat \<Rightarrow> string \<Rightarrow> nat" where
  "read_digits acc [] = acc"
| "read_digits acc (c # cs) = (if is_digit c then read_digits (10 * acc + (of_char c - 48)) cs else acc)"

definition stoi :: "string \<Rightarrow> int option" where
  "stoi s =
     (let s = dropWhile is_blank s;
          neg = (take 1 s = ''-'');
          s = (if take 1 s = ''-'' \<or> take 1 s = ''+'' then drop 1 s else s);
          v = (if neg then - int (read_digits 0 s) else int (read_digits 0 s))
      in if s = [] \<or> \<not> is_digit (hd s) \<or> v < - (2 ^ 31) \<or> 2 ^ 31 \<le> v then None else Some v)"

section \<open>The program\<close>

datatype line =
    Usage string
  | ListError
  | NumDevices nat
  | DeviceInfo nat int int string int int
  | OpenError
  | OpenDone
  | Starting int
  | TestDone

datatype app_call = ListCall | OpenCall int | ResetCall | Traffic fpga_call | CloseCall

record library =
  list_status :: int
  list_info :: fpga_info_list
  open_ok :: bool

definition printHelp :: "string list \<Rightarrow> line list" where
  "printHelp argv = [Usage (hd argv)]"

definition device_lines :: "fpga_info_list \<Rightarrow> line list" where
  "device_lines info =
     NumDevices (num_fpgas info) #
     map (\<lambda>i. DeviceInfo i (info_id info ! i) (info_num_chnls info ! i) (info_name info ! i)
                (info_vendor_id info ! i) (info_device_id info ! i)) [0..<num_fpgas info]"

definition start_host :: host where
  "start_host = \<lparr>calls = [], reports = [], recvs = 0, live = 0\<rparr>"

definition retention_main ::
  "library \<Rightarrow> (nat \<Rightarrow> u32 list) \<Rightarrow> string list \<Rightarrow> (int \<times> line list \<times> app_call list \<times> host) option" where
  "retention_main lib rx argv =
     (if argv = [] then None
      else if length argv \<noteq> 2 \<or> argv ! 1 = ''--help'' then Some (-2, printHelp argv, [], start_host)
      else case stoi (argv ! 1) of
        None \<Rightarrow> Some (-3, printHelp argv, [], start_host)
      | Some refresh_interval \<Rightarrow>
          (if refresh_interval \<le> 0 then Some (-4, printHelp argv, [], start_host)
           else if list_status lib \<noteq> 0 then Some (-1, [ListError], [ListCall], start_host)
           else let out = device_lines (list_info lib) in
                if \<not> open_ok lib then Some (-1, out @ [OpenError], [ListCall, OpenCall 0], start_host)
                else case testRetention rx (nat refresh_interval) start_host of
                       None \<Rightarrow> None
                     | Some h \<Rightarrow> Some (0, out @ [OpenDone, Starting refresh_interval, TestDone],
                         [ListCall, OpenCall 0, ResetCall] @ map Traffic (calls h) @ [CloseCall], h)))"

section \<open>Numbers as text\<close>

fun decimal :: "nat \<Rightarrow> string" where
  "decimal n = (if n < 10 then [char_of (48 + n)] else decimal (n div 10) @ [char_of (48 + n mod 10)])"

declare decimal.simps [simp del]

lemma digit_char:
  "n < 10 \<Longrightarrow> is_digit (char_of (48 + n)) \<and> of_char (char_of (48 + n) :: char) = (48 + n :: nat)" for n :: nat
  by (simp add: is_digit_def of_char_of)

lemma decimal_digits: "list_all is_digit (decimal n)"
proof (induction n rule: decimal.induct)
  case (1 n)
  then show ?case by (subst decimal.simps) (simp add: digit_char)
qed

lemma read_digits_append:
  "list_all is_digit xs \<Longrightarrow> read_digits a (xs @ ys) = read_digits (read_digits a xs) ys"
  by (induction xs arbitrary: a) auto

lemma read_decimal: "read_digits 0 (decimal n) = n"
proof (induction n rule: decimal.induct)
  case (1 n)
  show ?case
  proof (cases "n < 10")
    case True
    then show ?thesis by (subst decimal.simps) (simp add: digit_char)
  next
    case False
    then have "read_digits 0 (decimal n) = 10 * (n div 10) + n mod 10"
      using 1 digit_char [of "n mod 10"] decimal_digits [of "n div 10"]
      by (subst decimal.simps) (simp add: read_digits_append)
    then show ?thesis by simp
  qed
qed

lemma decimal_Cons: "\<exists>c cs. decimal n = c # cs"
  by (subst decimal.simps) (cases "decimal (n div 10)"; simp)

lemma digit_start: "is_digit c \<Longrightarrow> \<not> is_blank c \<and> c \<noteq> CHR ''-'' \<and> c \<noteq> CHR ''+''"
  by (auto simp: is_digit_def is_blank_def)

lemma stoi_decimal:
  assumes "n < 2 ^ 31" and "junk = [] \<or> \<not> is_digit (hd junk)"
  shows "stoi (decimal n @ junk) = Some (int n)"
proof -
  obtain c cs where d: "decimal n = c # cs" using decimal_Cons by blast
  have c: "is_digit c" using decimal_digits [of n] by (simp add: d)
  have j: "read_digits a junk = a" for a using assms(2) by (cases junk) auto
  have "read_digits 0 (c # cs @ junk) = n"
    using read_digits_append [OF decimal_digits [of n], of 0 junk] read_decimal [of n] j by (simp add: d)
  then show ?thesis
    using c digit_start [OF c] assms(1) by (simp add: stoi_def d Let_def)
qed

section \<open>Properties\<close>

text \<open>C35: Called with a positive number of milliseconds that fits into an \<open>int\<close>, on a machine whose first FPGA can be opened,
  the program opens it, resets it, runs the whole test, closes it and exits with 0.  The text behind
  the digits of the number is not looked at.
\<close>

theorem main_runs_test:
  assumes "list_status lib = 0" and "open_ok lib" and "0 < n" and "n < 2 ^ 31"
    and "junk = [] \<or> \<not> is_digit (hd junk)"
  shows "\<exists>h out. testRetention rx n start_host = Some h \<and>
    retention_main lib rx [prog, decimal n @ junk] =
      Some (0, out, [ListCall, OpenCall 0, ResetCall] @ map Traffic (calls h) @ [CloseCall], h) \<and>
    recvs h = 128 * (8 * 32768)"
proof -
  have s: "stoi (decimal n @ junk) = Some (int n)" using stoi_decimal assms(4,5) by simp
  obtain c cs where d: "decimal n = c # cs" using decimal_Cons by blast
  have "is_digit c" using decimal_digits [of n] by (simp add: d)
  then have "decimal n @ junk \<noteq> ''--help''" using digit_start [of c] by (auto simp: d)
  then show ?thesis
    using s assms(1-3) testRetention_some [OF assms(3,4) refl, of rx start_host]
    by (simp add: retention_main_def Let_def start_host_def all_rows_def)
qed

theorem main_runs_test_witness:
  "\<exists>h out. retention_main \<lparr>list_status = 0, list_info = \<lparr>num_fpgas = 0, info_id = [], info_num_chnls = [],
       info_name = [], info_vendor_id = [], info_device_id = []\<rparr>, open_ok = True\<rparr>
      (\<lambda>_. replicate 16 0xffffffff) [''test'', decimal 64 @ '' ms''] =
      Some (0, out, [ListCall, OpenCall 0, ResetCall] @ map Traffic (calls h) @ [CloseCall], h)"
  using main_runs_test [of "\<lparr>list_status = 0, list_info = \<lparr>num_fpgas = 0, info_id = [], info_num_chnls = [],
       info_name = [], info_vendor_id = [], info_device_id = []\<rparr>, open_ok = True\<rparr>" 64 "'' ms''"
      "\<lambda>_. replicate 16 0xffffffff" "''test''"]
  by (auto simp: is_digit_def)



end
