(* ===== verification/Win_Types.thy ===== *)
theory Win_Types
  imports Prelude
begin

text \<open>
  The data of the Windows driver (\<open>riffa_private.h\<close> and the head of \<open>riffa_driver.h\<close> in
  \<open>driver/windows/sys\<close>): \<open>CHNL_DIR_STATE\<close>, \<open>INTR_CHNL_DIR_DATA\<close>, \<open>DEVICE_EXTENSION\<close>.  The driver
  talks to its framework (WDF) and to the device; every such call is an entry of \<open>trace\<close>, and the
  answer of the outside is a parameter \<open>wenv\<close>, which may depend on the number of calls made before.
  Requests are numbers, as are channels; channel \<open>c\<close> sends and \<open>12 + c\<close> receives.
\<close>

section \<open>Constants\<close>

abbreviation (input) RIFFA_RX_SG_LEN_REG :: nat where "RIFFA_RX_SG_LEN_REG \<equiv> 0x0"
abbreviation (input) RIFFA_RX_SG_ADDR_LO_REG :: nat where "RIFFA_RX_SG_ADDR_LO_REG \<equiv> 0x1"
abbreviation (input) RIFFA_RX_SG_ADDR_HI_REG :: nat where "RIFFA_RX_SG_ADDR_HI_REG \<equiv> 0x2"
abbreviation (input) RIFFA_RX_LEN_REG :: nat where "RIFFA_RX_LEN_REG \<equiv> 0x3"
abbreviation (input) RIFFA_RX_OFFLAST_REG :: nat where "RIFFA_RX_OFFLAST_REG \<equiv> 0x4"
abbreviation (input) RIFFA_TX_SG_LEN_REG :: nat where "RIFFA_TX_SG_LEN_REG \<equiv> 0x5"
abbreviation (input) RIFFA_TX_SG_ADDR_LO_REG :: nat where "RIFFA_TX_SG_ADDR_LO_REG \<equiv> 0x6"
abbreviation (input) RIFFA_TX_SG_ADDR_HI_REG :: nat where "RIFFA_TX_SG_ADDR_HI_REG \<equiv> 0x7"
abbreviation (input) RIFFA_TX_LEN_REG :: nat where "RIFFA_TX_LEN_REG \<equiv> 0x8"
abbreviation (input) RIFFA_TX_OFFLAST_REG :: nat where "RIFFA_TX_OFFLAST_REG \<equiv> 0x9"
abbreviation (input) RIFFA_INFO_REG :: nat where "RIFFA_INFO_REG \<equiv> 0xA"
abbreviation (input) RIFFA_IRQ_0_REG :: nat where "RIFFA_IRQ_0_REG \<equiv> 0xB"
abbreviation (input) RIFFA_IRQ_1_REG :: nat where "RIFFA_IRQ_1_REG \<equiv> 0xC"
abbreviation (input) RIFFA_RX_TNFR_LEN_REG :: nat where "RIFFA_RX_TNFR_LEN_REG \<equiv> 0xD"
abbreviation (input) RIFFA_TX_TNFR_LEN_REG :: nat where "RIFFA_TX_TNFR_LEN_REG \<equiv> 0xE"

abbreviation (input) RIFFA_MIN_SG_BUF_SIZE :: nat where "RIFFA_MIN_SG_BUF_SIZE \<equiv> 4 * 1024"
abbreviation (input) RIFFA_SPILL_BUF_SIZE :: nat where "RIFFA_SPILL_BUF_SIZE \<equiv> 4 * 1024"
abbreviation (input) RIFFA_MIN_NUM_SG_ELEMS :: nat where "RIFFA_MIN_NUM_SG_ELEMS \<equiv> 200"
abbreviation (input) RIFFA_MAX_BUS_WIDTH_PARAM :: nat where "RIFFA_MAX_BUS_WIDTH_PARAM \<equiv> 4"
abbreviation (input) RIFFA_MAX_NUM_CHNLS :: nat where "RIFFA_MAX_NUM_CHNLS \<equiv> 12"
abbreviation (input) RIFFA_MAX_NUM_FPGAS :: nat where "RIFFA_MAX_NUM_FPGAS \<equiv> 5"

definition WIN_CHNL_REG :: "nat \<Rightarrow> nat \<Rightarrow> nat" where
  "WIN_CHNL_REG c off = push_bit 4 c + off"

text \<open>Status codes of the system; a code is an error when its top bit is set.\<close>

type_synonym ntstatus = u32

abbreviation (input) STATUS_SUCCESS :: ntstatus where "STATUS_SUCCESS \<equiv> 0"
abbreviation (input) STATUS_INVALID_PARAMETER :: ntstatus where "STATUS_INVALID_PARAMETER \<equiv> 0xC000000D"
abbreviation (input) STATUS_INVALID_DEVICE_REQUEST :: ntstatus where
  "STATUS_INVALID_DEVICE_REQUEST \<equiv> 0xC0000010"
abbreviation (input) STATUS_INSUFFICIENT_RESOURCES :: ntstatus where
  "STATUS_INSUFFICIENT_RESOURCES \<equiv> 0xC000009A"
abbreviation (input) STATUS_CANCELLED :: ntstatus where "STATUS_CANCELLED \<equiv> 0xC0000120"
abbreviation (input) STATUS_DEVICE_CONFIGURATION_ERROR :: ntstatus where
  "STATUS_DEVICE_CONFIGURATION_ERROR \<equiv> 0xC0000182"
abbreviation (input) STATUS_TRANSACTION_ABORTED :: ntstatus where
  "STATUS_TRANSACTION_ABORTED \<equiv> 0xC000020F"

definition NT_SUCCESS :: "ntstatus \<Rightarrow> bool" where
  "NT_SUCCESS s \<longleftrightarrow> \<not> bit s 31"

section \<open>State\<close>

type_synonym sg_list = "(u64 \<times> u32) list"

text \<open>
  \<open>CHNL_DIR_STATE\<close>.  \<open>SgList\<close> is \<open>None\<close> for the null pointer; \<open>CommonBuffer\<close> is the contents of
  the common buffer in words.
\<close>

record chnl_dir_state =
  Ready :: int
  InUse :: int
  ReqdDone :: int
  Length :: u64
  Offset :: u64
  Last :: u32
  Timeout :: u64
  Capacity :: u64
  Provided :: u64
  ProvidedPrev :: u64
  Confirmed :: u64
  ConfirmedPrev :: u64
  SpillAfter :: u64
  SgList :: "sg_list option"
  SgPos :: nat
  ActiveCount :: u32
  Cancel :: u32
  Request :: "nat option"
  CommonBuffer :: "u32 list"
  CommonBufferBaseLA :: u64

record intr_chnl_dir_data =
  NewTxn :: bool
  OffLast :: u32
  IntrLength :: u32
  SgRead :: bool
  Done :: bool

definition no_intr :: intr_chnl_dir_data where
  "no_intr = \<lparr>NewTxn = False, OffLast = 0, IntrLength = 0, SgRead = False, Done = False\<rparr>"

datatype wdf_dma_direction = ReadFromDevice | WriteToDevice

datatype wdf_object =
    DriverObj | DeviceObj | QueueObj | DispatchingObj | InterruptObj | DmaEnablerObj | InterfaceObj
  | CommonBufferObj nat | DmaTransactionObj | SpinLockObj | TimerObj nat

text \<open>What the driver does to the outside; the last two are accesses outside memory it owns.\<close>

datatype wevent =
    RegRd nat
  | RegWr nat u32
  | TimerStart nat u64
  | TimerStop nat
  | MarkCancelable nat
  | UnmarkCancelable nat
  | Completed nat ntstatus u64
  | RetrieveMdl "nat option"
  | DmaInitialize nat wdf_dma_direction u64 u64
  | DmaExecute nat
  | DmaBytes nat
  | DmaCompleted nat
  | DmaRelease nat
  | QueueDpc
  | WdfCreate wdf_object
  | MapIo u64 u32
  | UnmapIo u64 u32
  | NullDeref
  | BufferOverrun nat

text \<open>
  \<open>DEVICE_EXTENSION\<close>, with the channel of every request (\<open>REQUEST_EXTENSION\<close>) and the trace.
\<close>

record device_extension =
  Bar0 :: "u64 option"
  Bar0Length :: u32
  MaxNumScatterGatherElems :: nat
  NumChnls :: nat
  VendorId :: u32
  DeviceId :: u32
  Name :: string
  IntrData :: "intr_chnl_dir_data list"
  Chnl :: "chnl_dir_state list"
  SpillBufferBaseLA :: u64
  ReqChnl :: "nat \<Rightarrow> nat"
  trace :: "wevent list"

section \<open>The outside\<close>

text \<open>
  Answers of framework and device, by the number of calls made before (and, for
  \<open>WdfRequestUnmarkCancelable\<close>, by the request).  A call that starts or continues a DMA transaction
  may fail, may call \<open>RiffaEvtProgramDma\<close> with a scatter gather list before it returns, or may leave
  that for later.  A new common buffer of a size in bytes has contents and a
  logical address.
\<close>

datatype dma_execution = ExecFailed ntstatus | ExecLater | ExecNow sg_list
datatype dma_completion = TxnComplete ntstatus | TxnMore "sg_list option"

record wenv =
  reg_value :: "nat \<Rightarrow> nat \<Rightarrow> u32"
  mdl_answer :: "nat \<Rightarrow> ntstatus + (u64 \<times> u64)"
  init_answer :: "nat \<Rightarrow> ntstatus"
  exec_answer :: "nat \<Rightarrow> dma_execution"
  bytes_answer :: "nat \<Rightarrow> nat"
  completion_answer :: "nat \<Rightarrow> dma_completion"
  mark_answer :: "nat \<Rightarrow> ntstatus"
  unmark_answer :: "nat \<Rightarrow> nat \<Rightarrow> ntstatus"
  create_answer :: "nat \<Rightarrow> ntstatus"
  buffer_answer :: "nat \<Rightarrow> nat \<Rightarrow> u32 list \<times> u64"
  map_answer :: "nat \<Rightarrow> u64 option"

definition event :: "wevent \<Rightarrow> device_extension \<Rightarrow> device_extension" where
  "event e d = d\<lparr>trace := trace d @ [e]\<rparr>"

definition READ_REGISTER :: "wenv \<Rightarrow> nat \<Rightarrow> device_extension \<Rightarrow> u32 \<times> device_extension" where
  "READ_REGISTER env off d = (reg_value env (length (trace d)) off, event (RegRd off) d)"

definition WRITE_REGISTER :: "nat \<Rightarrow> u32 \<Rightarrow> device_extension \<Rightarrow> device_extension" where
  "WRITE_REGISTER off v d = event (RegWr off v) d"

definition upd_chnl ::
  "nat \<Rightarrow> (chnl_dir_state \<Rightarrow> chnl_dir_state) \<Rightarrow> device_extension \<Rightarrow> device_extension" where
  "upd_chnl c f d = d\<lparr>Chnl := (Chnl d)[c := f (Chnl d ! c)]\<rparr>"

definition upd_intr ::
  "nat \<Rightarrow> (intr_chnl_dir_data \<Rightarrow> intr_chnl_dir_data) \<Rightarrow> device_extension \<Rightarrow> device_extension" where
  "upd_intr c f d = d\<lparr>IntrData := (IntrData d)[c := f (IntrData d ! c)]\<rparr>"

section \<open>Frame rules\<close>

named_theorems win_simps \<open>fields of the device after an event or an update of a channel\<close>

lemma event_fields [win_simps]:
  "trace (event e d) = trace d @ [e]" "Chnl (event e d) = Chnl d" "IntrData (event e d) = IntrData d"
  "NumChnls (event e d) = NumChnls d" "ReqChnl (event e d) = ReqChnl d"
  "MaxNumScatterGatherElems (event e d) = MaxNumScatterGatherElems d"
  "SpillBufferBaseLA (event e d) = SpillBufferBaseLA d"
  by (simp_all add: event_def)

lemma upd_chnl_fields [win_simps]:
  "trace (upd_chnl c f d) = trace d" "Chnl (upd_chnl c f d) = (Chnl d)[c := f (Chnl d ! c)]"
  "IntrData (upd_chnl c f d) = IntrData d" "NumChnls (upd_chnl c f d) = NumChnls d"
  "ReqChnl (upd_chnl c f d) = ReqChnl d"
  "MaxNumScatterGatherElems (upd_chnl c f d) = MaxNumScatterGatherElems d"
  "SpillBufferBaseLA (upd_chnl c f d) = SpillBufferBaseLA d"
  by (simp_all add: upd_chnl_def)

lemma upd_intr_fields [win_simps]:
  "trace (upd_intr c f d) = trace d" "Chnl (upd_intr c f d) = Chnl d"
  "IntrData (upd_intr c f d) = (IntrData d)[c := f (IntrData d ! c)]" "NumChnls (upd_intr c f d) = NumChnls d"
  by (simp_all add: upd_intr_def)

lemma read_register_fields [win_simps]:
  "snd (READ_REGISTER env off d) = event (RegRd off) d"
  "fst (READ_REGISTER env off d) = reg_value env (length (trace d)) off"
  by (simp_all add: READ_REGISTER_def)

lemma upd_event: "upd_chnl c f (event e d) = event e (upd_chnl c f d)"
  by (simp add: upd_chnl_def event_def)

lemma upd_upd [win_simps]:
  "c < length (Chnl d) \<Longrightarrow> upd_chnl c g (upd_chnl c f d) = upd_chnl c (\<lambda>x. g (f x)) d"
  by (simp add: upd_chnl_def)

definition events :: "wevent list \<Rightarrow> device_extension \<Rightarrow> device_extension" where
  "events es d = d\<lparr>trace := trace d @ es\<rparr>"

lemma events_fields [win_simps]:
  "trace (events es d) = trace d @ es" "Chnl (events es d) = Chnl d" "IntrData (events es d) = IntrData d"
  "NumChnls (events es d) = NumChnls d" "ReqChnl (events es d) = ReqChnl d"
  "MaxNumScatterGatherElems (events es d) = MaxNumScatterGatherElems d"
  "SpillBufferBaseLA (events es d) = SpillBufferBaseLA d"
  by (simp_all add: events_def)

lemma events_simps [win_simps]:
  "events fs (events es d) = events (es @ fs) d" "events [] d = d" "event e (events es d) = events (es @ [e]) d"
  "events es (event e d) = events (e # es) d"
  by (simp_all add: events_def event_def)

lemma events_upd: "upd_chnl c f (events es d) = events es (upd_chnl c f d)"
  by (simp add: upd_chnl_def events_def)

end
