(* ===== verification/Win_Dma.thy ===== *)
theory Win_Dma
  imports Win_Types
begin

text \<open>
  The transfers of the Windows driver: entry and exit of a thread, completion of a request, the
  common buffer of scatter gather elements, and the functions that start, continue and end a DMA
  transaction (\<open>RiffaThreadEnter\<close> to \<open>RiffaEvtProgramDma\<close> in \<open>riffa.c\<close>).
\<close>

section \<open>Threads and requests\<close>

definition RiffaThreadEnter :: "nat \<Rightarrow> device_extension \<Rightarrow> bool \<times> device_extension" where
  "RiffaThreadEnter c d =
     (let cont = (Request (Chnl d ! c) \<noteq> None)
      in (cont, if cont then upd_chnl c (\<lambda>x. x\<lparr>ActiveCount := ActiveCount x + 1\<rparr>) d else d))"

definition UnmarkRequest :: "wenv \<Rightarrow> nat \<Rightarrow> device_extension \<Rightarrow> ntstatus \<times> device_extension" where
  "UnmarkRequest env r d = (unmark_answer env (length (trace d)) r, event (UnmarkCancelable r) d)"

definition RiffaCompleteRequest ::
  "wenv \<Rightarrow> nat \<Rightarrow> ntstatus \<Rightarrow> device_extension \<Rightarrow> device_extension" where
  "RiffaCompleteRequest env c st d =
     (case Request (Chnl d ! c) of
        None \<Rightarrow> d
      | Some r \<Rightarrow>
          (let (rc, d) = UnmarkRequest env r d
           in if rc \<noteq> STATUS_CANCELLED
              then (let d = upd_chnl c (\<lambda>x. x\<lparr>Request := None\<rparr>) d; x = Chnl d ! c
                    in event (Completed r st (drop_bit 2 (ConfirmedPrev x + Confirmed x))) d)
              else d))"

definition RiffaThreadExit :: "wenv \<Rightarrow> nat \<Rightarrow> device_extension \<Rightarrow> device_extension" where
  "RiffaThreadExit env c d0 =
     (let d = upd_chnl c (\<lambda>x. x\<lparr>ActiveCount := ActiveCount x - 1\<rparr>) d0; x = Chnl d ! c
      in if ActiveCount x = 0 \<and> Cancel x = 1 then RiffaCompleteRequest env c STATUS_CANCELLED d else d)"

section \<open>Scatter gather elements\<close>

text \<open>One element: low address, high address, length in words.\<close>

definition put_elem :: "nat \<Rightarrow> u64 \<Rightarrow> u32 \<Rightarrow> u32 list \<times> wevent list \<Rightarrow> u32 list \<times> wevent list" where
  "put_elem i addr words be =
     (if i * 4 + 2 < length (fst be)
      then ((fst be)[i * 4 + 0 := ucast addr, i * 4 + 1 := ucast (drop_bit 32 addr), i * 4 + 2 := words], snd be)
      else (fst be, snd be @ [BufferOverrun (i * 4 + 2)]))"

text \<open>
  The two loops of \<open>RiffaProgramScatterGather\<close>: the elements of the list from position \<open>pos\<close>, and
  the elements that point to the spill buffer.
\<close>

function sg_loop ::
  "nat \<Rightarrow> u64 \<Rightarrow> sg_list option \<Rightarrow> nat \<Rightarrow> nat \<Rightarrow> u64 \<Rightarrow> u32 list \<times> wevent list \<Rightarrow>
     nat \<times> nat \<times> u64 \<times> u32 list \<times> wevent list" where
  "sg_loop maxsg spillAfter sgl i pos provided be =
     (if i < maxsg \<and> provided < spillAfter
      then (case sgl of
              None \<Rightarrow> (i, pos, provided, fst be, snd be @ [NullDeref])
            | Some sgs \<Rightarrow>
                (if pos \<ge> length sgs then (i, pos, provided, be)
                 else let (addr, len) = sgs ! pos
                      in sg_loop maxsg spillAfter sgl (Suc i) (Suc pos) (provided + ucast len)
                           (put_elem i addr (drop_bit 2 len) be)))
      else (i, pos, provided, be))"
  by pat_completeness auto
termination by (relation "measure (\<lambda>(m, s, l, i, p, v, b). m - i)") auto

function spill_loop ::
  "nat \<Rightarrow> u64 \<Rightarrow> u64 \<Rightarrow> nat \<Rightarrow> u64 \<Rightarrow> u32 list \<times> wevent list \<Rightarrow> nat \<times> u64 \<times> u32 list \<times> wevent list" where
  "spill_loop maxsg len spillLA i provided be =
     (if i < maxsg \<and> provided < len
      then spill_loop maxsg len spillLA (Suc i) (provided + of_nat RIFFA_SPILL_BUF_SIZE)
             (put_elem i spillLA (drop_bit 2 (of_nat RIFFA_SPILL_BUF_SIZE)) be)
      else (i, provided, be))"
  by pat_completeness auto
termination by (relation "measure (\<lambda>(m, l, s, i, v, b). m - i)") auto

declare sg_loop.simps [simp del] spill_loop.simps [simp del]

definition fill_elems ::
  "nat \<Rightarrow> u64 \<Rightarrow> chnl_dir_state \<Rightarrow> nat \<times> nat \<times> u64 \<times> u32 list \<times> wevent list" where
  "fill_elems maxsg spillLA x =
     (let (i, pos, provided, be) =
            sg_loop maxsg (SpillAfter x) (SgList x) 0 (SgPos x) (Provided x) (CommonBuffer x, []);
          (i, provided, be) =
            (if provided \<ge> SpillAfter x then spill_loop maxsg (Length x) spillLA i provided be
             else (i, provided, be))
      in (i, pos, provided, be))"

text \<open>Telling the device: new elements, or that no more will come before it is done.\<close>

definition announce_elems :: "nat \<Rightarrow> nat \<Rightarrow> device_extension \<Rightarrow> device_extension" where
  "announce_elems c i d =
     (let bufAddr = CommonBufferBaseLA (Chnl d ! c) in
      if c < RIFFA_MAX_NUM_CHNLS
      then WRITE_REGISTER (WIN_CHNL_REG c RIFFA_RX_SG_LEN_REG) (of_nat (i * 4))
             (WRITE_REGISTER (WIN_CHNL_REG c RIFFA_RX_SG_ADDR_HI_REG) (ucast (drop_bit 32 bufAddr))
               (WRITE_REGISTER (WIN_CHNL_REG c RIFFA_RX_SG_ADDR_LO_REG) (ucast bufAddr) d))
      else let c = c - RIFFA_MAX_NUM_CHNLS in
           WRITE_REGISTER (WIN_CHNL_REG c RIFFA_TX_SG_LEN_REG) (of_nat (i * 4))
             (WRITE_REGISTER (WIN_CHNL_REG c RIFFA_TX_SG_ADDR_HI_REG) (ucast (drop_bit 32 bufAddr))
               (WRITE_REGISTER (WIN_CHNL_REG c RIFFA_TX_SG_ADDR_LO_REG) (ucast bufAddr) d)))"

definition announce_split :: "wenv \<Rightarrow> nat \<Rightarrow> u64 \<Rightarrow> device_extension \<Rightarrow> device_extension" where
  "announce_split env c provided d =
     (let d = upd_chnl c (\<lambda>x. x\<lparr>ReqdDone := 1\<rparr>) d
      in if c < RIFFA_MAX_NUM_CHNLS
         then WRITE_REGISTER (WIN_CHNL_REG c RIFFA_RX_LEN_REG) (ucast (drop_bit 2 provided)) d
         else snd (READ_REGISTER env (WIN_CHNL_REG (c - RIFFA_MAX_NUM_CHNLS) RIFFA_TX_LEN_REG) d))"

definition stop_timer :: "nat \<Rightarrow> device_extension \<Rightarrow> device_extension" where
  "stop_timer c d = event (TimerStop c) d"

definition start_timer :: "nat \<Rightarrow> device_extension \<Rightarrow> device_extension" where
  "start_timer c d =
     (if Timeout (Chnl d ! c) > 0 then event (TimerStart c (Timeout (Chnl d ! c))) d else d)"

definition RiffaProgramScatterGather :: "wenv \<Rightarrow> nat \<Rightarrow> device_extension \<Rightarrow> device_extension" where
  "RiffaProgramScatterGather env c d0 =
     (let (cont, d) = RiffaThreadEnter c (stop_timer c d0) in
      if \<not> cont then d
      else let x = Chnl d ! c;
               (i, pos, provided, buf, es) =
                 fill_elems (MaxNumScatterGatherElems d) (SpillBufferBaseLA d) x;
               d = upd_chnl c (\<lambda>x. x\<lparr>CommonBuffer := buf,
                     Confirmed := Confirmed x + ProvidedPrev x,
                     ProvidedPrev := provided - Provided x,
                     Provided := provided, SgPos := pos\<rparr>) (events es d);
               d = (if i > 0 then announce_elems c i d
                    else if provided < Length x then announce_split env c provided d
                    else d);
               d = RiffaThreadExit env c d
           in start_timer c d)"

section \<open>Transactions\<close>

definition RiffaProgramSend :: "nat \<Rightarrow> u32 \<Rightarrow> u32 \<Rightarrow> u32 \<Rightarrow> device_extension \<Rightarrow> device_extension" where
  "RiffaProgramSend c len off lst d =
     (let offlast = push_bit 1 off OR (lst AND 0x1);
          c = (if c \<ge> RIFFA_MAX_NUM_CHNLS then c - RIFFA_MAX_NUM_CHNLS else c)
      in WRITE_REGISTER (WIN_CHNL_REG c RIFFA_RX_LEN_REG) len
           (WRITE_REGISTER (WIN_CHNL_REG c RIFFA_RX_OFFLAST_REG) offlast d))"

definition RiffaEvtProgramDma ::
  "wenv \<Rightarrow> nat \<Rightarrow> wdf_dma_direction \<Rightarrow> sg_list \<Rightarrow> device_extension \<Rightarrow> device_extension" where
  "RiffaEvtProgramDma env c dir sgs d =
     (let d = upd_chnl c (\<lambda>x. x\<lparr>SgList := Some sgs, SgPos := 0\<rparr>) d;
          d = (if dir = WriteToDevice
               then (let n = bytes_answer env (length (trace d)); d = event (DmaBytes c) d; x = Chnl d ! c
                     in if n = 0
                        then RiffaProgramSend c (ucast (drop_bit 2 (Length x))) (ucast (drop_bit 2 (Offset x)))
                               (Last x) d
                        else d)
               else d)
      in RiffaProgramScatterGather env c d)"

definition RiffaStartDmaTransaction ::
  "wenv \<Rightarrow> nat \<Rightarrow> u64 \<Rightarrow> u64 \<Rightarrow> wdf_dma_direction \<Rightarrow> device_extension \<Rightarrow> ntstatus \<times> device_extension" where
  "RiffaStartDmaTransaction env c len off dir d0 =
     (let d = event (RetrieveMdl (Request (Chnl d0 ! c))) d0 in
      case mdl_answer env (length (trace d0)) of
        Inl st \<Rightarrow> (st, d)
      | Inr (vaddr, mdlCount) \<Rightarrow>
          (let vaddr = vaddr + 4 * off;
               len = (if len < mdlCount then len else mdlCount) - off;
               st = init_answer env (length (trace d));
               d = event (DmaInitialize c dir vaddr len) d
           in if \<not> NT_SUCCESS st then (st, d)
              else let ex = exec_answer env (length (trace d)); d = event (DmaExecute c) d
                   in case ex of
                        ExecFailed st \<Rightarrow> (st, event (DmaRelease c) d)
                      | ExecLater \<Rightarrow> (STATUS_SUCCESS, d)
                      | ExecNow sgs \<Rightarrow> (STATUS_SUCCESS, RiffaEvtProgramDma env c dir sgs d)))"

text \<open>
  The part shared by \<open>RiffaIoctlRecv\<close> and \<open>RiffaStartRecvTransaction\<close>: whether there is data, and
  what fits into the buffer of the user.
\<close>

datatype recv_start = RecvDma u64 | RecvSpill | RecvEmpty | RecvInvalid

definition recv_plan :: "chnl_dir_state \<Rightarrow> recv_start" where
  "recv_plan x =
     (if Length x \<noteq> 0
      then (if Capacity x > Offset x
            then RecvDma ((if Capacity x < Length x then Capacity x else Length x) + Offset x)
            else RecvSpill)
      else if Last x \<noteq> 0 then RecvEmpty else RecvInvalid)"

definition RiffaStartRecvTransaction :: "wenv \<Rightarrow> nat \<Rightarrow> device_extension \<Rightarrow> device_extension" where
  "RiffaStartRecvTransaction env c d0 =
     (let (cont, d) = RiffaThreadEnter c (stop_timer c d0) in
      if \<not> cont then d
      else let d =
             (case recv_plan (Chnl d ! c) of
                RecvDma len \<Rightarrow>
                  (let d = upd_chnl c (\<lambda>x. x\<lparr>SpillAfter := Capacity x - Offset x\<rparr>) d;
                       (st, d) = RiffaStartDmaTransaction env c len (Offset (Chnl d ! c)) ReadFromDevice d
                   in if \<not> NT_SUCCESS st then RiffaCompleteRequest env c st d else d)
              | RecvSpill \<Rightarrow>
                  RiffaProgramScatterGather env c (upd_chnl c (\<lambda>x. x\<lparr>SpillAfter := 0\<rparr>) d)
              | RecvEmpty \<Rightarrow> RiffaCompleteRequest env c STATUS_SUCCESS d
              | RecvInvalid \<Rightarrow> RiffaCompleteRequest env c STATUS_CANCELLED d)
           in RiffaThreadExit env c d)"

definition RiffaTransactionComplete ::
  "wenv \<Rightarrow> nat \<Rightarrow> u32 \<Rightarrow> ntstatus \<Rightarrow> device_extension \<Rightarrow> device_extension" where
  "RiffaTransactionComplete env c transferred st d0 =
     (let (cont, d) = RiffaThreadEnter c (stop_timer c d0) in
      if \<not> cont then d
      else let d = event (DmaRelease c) d;
               bytes = push_bit 2 (ucast transferred) :: u64;
               d = (if c < RIFFA_MAX_NUM_CHNLS \<or> Last (Chnl d ! c) \<noteq> 0 \<or> \<not> NT_SUCCESS st
                    then RiffaCompleteRequest env c st (upd_chnl c (\<lambda>x. x\<lparr>Confirmed := bytes, InUse := 0\<rparr>) d)
                    else let d = upd_chnl c (\<lambda>x. x\<lparr>ConfirmedPrev := ConfirmedPrev x + bytes, Confirmed := 0,
                                   ProvidedPrev := 0, Provided := 0\<rparr>) d;
                             old = Ready (Chnl d ! c);
                             d = upd_chnl c (\<lambda>x. x\<lparr>Ready := 1\<rparr>) d
                         in if old \<noteq> 0
                            then RiffaStartRecvTransaction env c (upd_chnl c (\<lambda>x. x\<lparr>Ready := 0\<rparr>) d)
                            else d)
           in RiffaThreadExit env c d)"

section \<open>What a channel still has to hand over\<close>

text \<open>
  The elements the device is still to be given: those of the list until the amount that fits is
  reached, then as many pieces of the spill buffer as cover the rest of the transfer.
\<close>

definition spill_count :: "nat \<Rightarrow> nat" where
  "spill_count n = (n + 4095) div 4096"

fun plan :: "nat \<Rightarrow> nat \<Rightarrow> u64 \<Rightarrow> nat \<Rightarrow> sg_list \<Rightarrow> sg_list" where
  "plan limit amount la prov [] =
     (if limit \<le> prov then replicate (spill_count (amount - prov)) (la, 4096) else [])"
| "plan limit amount la prov (e # es) =
     (if prov < limit then e # plan limit amount la (prov + unat (snd e)) es
      else replicate (spill_count (amount - prov)) (la, 4096))"

definition elem_words :: "u64 \<times> u32 \<Rightarrow> u32 \<times> u32 \<times> u32" where
  "elem_words e = (ucast (fst e), ucast (drop_bit 32 (fst e)), drop_bit 2 (snd e))"

definition buf_elems :: "nat \<Rightarrow> u32 list \<Rightarrow> (u32 \<times> u32 \<times> u32) list" where
  "buf_elems n buf = map (\<lambda>i. (buf ! (i * 4 + 0), buf ! (i * 4 + 1), buf ! (i * 4 + 2))) [0..<n]"

definition sg_total :: "sg_list \<Rightarrow> nat" where
  "sg_total es = sum_list (map (\<lambda>e. unat (snd e)) es)"

lemma sg_total_simps [simp]:
  "sg_total [] = 0" "sg_total (e # es) = unat (snd e) + sg_total es" "sg_total (xs @ ys) = sg_total xs + sg_total ys"
  "sg_total (replicate n e) = n * unat (snd e)"
  by (simp_all add: sg_total_def sum_list_replicate)

lemma plan_past_limit:
  "limit \<le> prov \<Longrightarrow> plan limit amount la prov es = replicate (spill_count (amount - prov)) (la, 4096)"
  by (cases es) simp_all

lemma put_elem_in_range:
  assumes "i < m" "4 * m \<le> length buf"
  shows "put_elem i a w (buf, es) =
    (buf[i * 4 + 0 := ucast a, i * 4 + 1 := ucast (drop_bit 32 a), i * 4 + 2 := w], es)"
  using assms by (simp add: put_elem_def)

lemma buf_elems_put:
  assumes "i < m" "4 * m \<le> length buf"
  shows "buf_elems (Suc i) (fst (put_elem i a (drop_bit 2 l) (buf, es))) = buf_elems i buf @ [elem_words (a, l)]"
proof -
  have "buf_elems i (fst (put_elem i a (drop_bit 2 l) (buf, es))) = buf_elems i buf"
    unfolding put_elem_in_range [OF assms] buf_elems_def by (rule map_cong) auto
  then show ?thesis
    unfolding put_elem_in_range [OF assms] using assms
    by (simp add: buf_elems_def elem_words_def)
qed

lemma put_elem_frame:
  "length (fst (put_elem i a w be)) = length (fst be)"
  "i < m \<Longrightarrow> 4 * m \<le> length (fst be) \<Longrightarrow> snd (put_elem i a w be) = snd be"
  by (simp_all add: put_elem_def)

lemma unat_add64: "unat (a :: u64) + n < 2 ^ 64 \<Longrightarrow> n = unat b \<Longrightarrow> unat (a + b) = unat a + n"
  by (simp add: unat_word_ariths)

lemma unat_ucast_up: "unat (ucast (w :: u32) :: u64) = unat w"
  by (simp add: unsigned_ucast_eq take_bit_nat_eq_self unsigned_less [of w, THEN order_less_trans])

lemma sg_loop_spec:
  assumes "i \<le> m" and "4 * m \<le> length buf" and big: "unat sa + 2 ^ 32 \<le> 2 ^ 64"
  shows "\<exists>k prov' buf'. sg_loop m sa (Some sgs) i pos prov (buf, ev) = (i + k, pos + k, prov', buf', ev) \<and>
    i + k \<le> m \<and> pos + k \<le> max pos (length sgs) \<and> length buf' = length buf \<and>
    buf_elems (i + k) buf' = buf_elems i buf @ map elem_words (take k (drop pos sgs)) \<and>
    unat prov' = unat prov + sg_total (take k (drop pos sgs)) \<and>
    plan (unat sa) amount la (unat prov) (drop pos sgs) =
      take k (drop pos sgs) @ plan (unat sa) amount la (unat prov') (drop (pos + k) sgs) \<and>
    (i + k = m \<or> unat sa \<le> unat prov' \<or> length sgs \<le> pos + k)"
  using assms(1,2)
proof (induction "m - i" arbitrary: i pos prov buf)
  case 0
  then have "i = m" by simp
  then show ?case
    by (intro exI [of _ "0 :: nat"] exI [of _ prov] exI [of _ buf]) (simp add: sg_loop.simps [of m])
next
  case (Suc n)
  then have im: "i < m" by simp
  show ?case
  proof (cases "prov < sa \<and> pos < length sgs")
    case False
    then show ?thesis
      by (intro exI [of _ "0 :: nat"] exI [of _ prov] exI [of _ buf])
        (use Suc.prems(1) in \<open>auto simp: sg_loop.simps [of m sa _ i] word_less_nat_alt\<close>)
  next
    case True
    obtain a l where e: "sgs ! pos = (a, l)" by (cases "sgs ! pos") auto
    have dr: "drop pos sgs = (a, l) # drop (Suc pos) sgs" using True e by (metis Cons_nth_drop_Suc)
    have room: "unat prov + unat l < 2 ^ 64"
      using True big unat_lt32 [of l] by (simp add: word_less_nat_alt)
    have pv: "unat (prov + ucast l) = unat prov + unat l"
      using unat_add64 [OF room] by (simp add: unat_ucast_up)
    let ?b = "fst (put_elem i a (drop_bit 2 l) (buf, ev))"
    have pe: "put_elem i a (drop_bit 2 l) (buf, ev) = (?b, ev)"
      using put_elem_frame(2) [OF im, of "(buf, ev)"] Suc.prems(2) by (simp add: prod_eq_iff)
    have lb: "length ?b = length buf" by (simp add: put_elem_frame)
    have "\<exists>k prov' buf'. sg_loop m sa (Some sgs) (Suc i) (Suc pos) (prov + ucast l) (?b, ev) =
        (Suc i + k, Suc pos + k, prov', buf', ev) \<and>
      Suc i + k \<le> m \<and> Suc pos + k \<le> max (Suc pos) (length sgs) \<and> length buf' = length ?b \<and>
      buf_elems (Suc i + k) buf' = buf_elems (Suc i) ?b @ map elem_words (take k (drop (Suc pos) sgs)) \<and>
      unat prov' = unat (prov + ucast l) + sg_total (take k (drop (Suc pos) sgs)) \<and>
      plan (unat sa) amount la (unat (prov + ucast l)) (drop (Suc pos) sgs) =
        take k (drop (Suc pos) sgs) @ plan (unat sa) amount la (unat prov') (drop (Suc pos + k) sgs) \<and>
      (Suc i + k = m \<or> unat sa \<le> unat prov' \<or> length sgs \<le> Suc pos + k)"
      by (rule Suc.hyps(1)) (use Suc.hyps(2) Suc.prems pv dr im lb in simp_all)
    then obtain k prov' buf' where K:
      "sg_loop m sa (Some sgs) (Suc i) (Suc pos) (prov + ucast l) (?b, ev) = (Suc i + k, Suc pos + k, prov', buf', ev)"
      "Suc i + k \<le> m" "Suc pos + k \<le> max (Suc pos) (length sgs)" "length buf' = length ?b"
      "buf_elems (Suc i + k) buf' = buf_elems (Suc i) ?b @ map elem_words (take k (drop (Suc pos) sgs))"
      "unat prov' = unat (prov + ucast l) + sg_total (take k (drop (Suc pos) sgs))"
      "plan (unat sa) amount la (unat (prov + ucast l)) (drop (Suc pos) sgs) =
        take k (drop (Suc pos) sgs) @ plan (unat sa) amount la (unat prov') (drop (Suc pos + k) sgs)"
      "Suc i + k = m \<or> unat sa \<le> unat prov' \<or> length sgs \<le> Suc pos + k"
      by blast
    have step: "sg_loop m sa (Some sgs) i pos prov (buf, ev) = (i + Suc k, pos + Suc k, prov', buf', ev)"
      using True im e pe K(1) by (simp add: sg_loop.simps [of m sa _ i])
    show ?thesis
    proof (rule exI [of _ "Suc k"], rule exI [of _ prov'], rule exI [of _ buf'], intro conjI)
      show "buf_elems (i + Suc k) buf' = buf_elems i buf @ map elem_words (take (Suc k) (drop pos sgs))"
        using K(5) buf_elems_put [OF im Suc.prems(2), of a l ev] by (simp add: dr)
      show "plan (unat sa) amount la (unat prov) (drop pos sgs) =
          take (Suc k) (drop pos sgs) @ plan (unat sa) amount la (unat prov') (drop (pos + Suc k) sgs)"
        using True K(7) by (simp add: dr pv word_less_nat_alt)
      show "unat prov' = unat prov + sg_total (take (Suc k) (drop pos sgs))" using K(6) by (simp add: dr pv)
      show "pos + Suc k \<le> max pos (length sgs)" using K(3) True by simp
    qed (use K(2,4,8) step lb in simp_all)
  qed
qed

lemma spill_count_step:
  assumes "0 < n"
  shows "spill_count n = Suc (spill_count (n - 4096))"
proof (cases "n \<le> 4096")
  case True
  have "(n + 4095) div 4096 = 1" by (rule div_nat_eqI) (use assms True in simp_all)
  then show ?thesis using True by (simp add: spill_count_def)
next
  case False
  then have "n + 4095 = (n - 4096 + 4095) + 4096" by simp
  then show ?thesis unfolding spill_count_def by (metis add_Suc_right div_add_self2 plus_1_eq_Suc add.commute zero_neq_numeral)
qed

lemma spill_loop_spec:
  assumes "i \<le> m" and "4 * m \<le> length buf" and big: "unat len + 4096 \<le> 2 ^ 64"
  shows "\<exists>k prov' buf'. spill_loop m len la i prov (buf, ev) = (i + k, prov', buf', ev) \<and>
    i + k \<le> m \<and> length buf' = length buf \<and>
    buf_elems (i + k) buf' = buf_elems i buf @ map elem_words (replicate k (la, 4096)) \<and>
    unat prov' = unat prov + 4096 * k \<and>
    spill_count (unat len - unat prov) = k + spill_count (unat len - unat prov') \<and>
    (i + k = m \<or> unat len \<le> unat prov')"
  using assms
proof (induction "m - i" arbitrary: i prov buf)
  case 0
  then have "i = m" by simp
  then show ?case
    by (intro exI [of _ "0 :: nat"] exI [of _ prov] exI [of _ buf]) (simp add: spill_loop.simps [of m])
next
  case (Suc n)
  then have im: "i < m" by simp
  show ?case
  proof (cases "prov < len")
    case False
    then show ?thesis
      by (intro exI [of _ "0 :: nat"] exI [of _ prov] exI [of _ buf])
        (use Suc.prems(1) in \<open>simp add: spill_loop.simps [of m len] word_less_nat_alt not_less\<close>)
  next
    case True
    have room: "unat prov + 4096 < 2 ^ 64" using True big by (simp add: word_less_nat_alt)
    have pv: "unat (prov + 4096) = unat prov + 4096"
      using unat_add64 [OF room, of 4096] by simp
    let ?b = "fst (put_elem i la (drop_bit 2 (4096 :: u32)) (buf, ev))"
    have pe: "put_elem i la (drop_bit 2 (4096 :: u32)) (buf, ev) = (?b, ev)"
      using put_elem_frame(2) [OF im, of "(buf, ev)"] Suc.prems(2) by (simp add: prod_eq_iff)
    have lb: "length ?b = length buf" by (simp add: put_elem_frame)
    have "\<exists>k prov' buf'. spill_loop m len la (Suc i) (prov + 4096) (?b, ev) = (Suc i + k, prov', buf', ev) \<and>
      Suc i + k \<le> m \<and> length buf' = length ?b \<and>
      buf_elems (Suc i + k) buf' = buf_elems (Suc i) ?b @ map elem_words (replicate k (la, 4096)) \<and>
      unat prov' = unat (prov + 4096) + 4096 * k \<and>
      spill_count (unat len - unat (prov + 4096)) = k + spill_count (unat len - unat prov') \<and>
      (Suc i + k = m \<or> unat len \<le> unat prov')"
      by (rule Suc.hyps(1)) (use Suc.hyps(2) Suc.prems pv im lb in simp_all)
    then obtain k prov' buf' where K:
      "spill_loop m len la (Suc i) (prov + 4096) (?b, ev) = (Suc i + k, prov', buf', ev)"
      "Suc i + k \<le> m" "length buf' = length ?b"
      "buf_elems (Suc i + k) buf' = buf_elems (Suc i) ?b @ map elem_words (replicate k (la, 4096))"
      "unat prov' = unat (prov + 4096) + 4096 * k"
      "spill_count (unat len - unat (prov + 4096)) = k + spill_count (unat len - unat prov')"
      "Suc i + k = m \<or> unat len \<le> unat prov'"
      by blast
    have sc: "spill_count (unat len - unat prov) = Suc (spill_count (unat len - unat (prov + 4096)))"
      using True spill_count_step [of "unat len - unat prov"] by (simp add: pv word_less_nat_alt)
    have step: "spill_loop m len la i prov (buf, ev) = (i + Suc k, prov', buf', ev)"
      using True im pe K(1) by (simp add: spill_loop.simps [of m len _ i])
    show ?thesis
    proof (rule exI [of _ "Suc k"], rule exI [of _ prov'], rule exI [of _ buf'], intro conjI)
      show "buf_elems (i + Suc k) buf' = buf_elems i buf @ map elem_words (replicate (Suc k) (la, 4096))"
        using K(4) buf_elems_put [OF im Suc.prems(2), of la 4096 ev] by simp
    qed (use K(2,3,5-7) step sc pv lb in simp_all)
  qed
qed

definition sgs_left :: "chnl_dir_state \<Rightarrow> sg_list" where
  "sgs_left x = (case SgList x of None \<Rightarrow> [] | Some sgs \<Rightarrow> drop (SgPos x) sgs)"

definition todo :: "u64 \<Rightarrow> chnl_dir_state \<Rightarrow> sg_list" where
  "todo la x = plan (unat (SpillAfter x)) (unat (Length x)) la (unat (Provided x)) (sgs_left x)"

text \<open>
  What the two loops rely on: room for \<open>m\<close> elements in the common buffer, amounts that cannot wrap
  around, and a list wherever data goes to the buffer of the user.
\<close>

definition fill_ok :: "nat \<Rightarrow> chnl_dir_state \<Rightarrow> bool" where
  "fill_ok m x \<longleftrightarrow> 4 * m \<le> length (CommonBuffer x) \<and>
     unat (SpillAfter x) + 2 ^ 32 \<le> 2 ^ 64 \<and> unat (Length x) + 4096 \<le> 2 ^ 64 \<and>
     (SgList x = None \<longrightarrow> SpillAfter x \<le> Provided x)"

definition filled ::
  "nat \<Rightarrow> nat \<Rightarrow> u64 \<Rightarrow> u32 list \<Rightarrow> chnl_dir_state \<Rightarrow> chnl_dir_state" where
  "filled n pos prov buf x =
     x\<lparr>CommonBuffer := buf, Confirmed := Confirmed x + ProvidedPrev x, ProvidedPrev := prov - Provided x,
       Provided := prov, SgPos := pos,
       ReqdDone := (if n = 0 \<and> prov < Length x then 1 else ReqdDone x)\<rparr>"

lemma sgs_left_split:
  "fill_ok m x \<Longrightarrow> \<exists>k pos' prov' buf'.
     sg_loop m (SpillAfter x) (SgList x) 0 (SgPos x) (Provided x) (CommonBuffer x, []) = (k, pos', prov', buf', []) \<and>
     k \<le> m \<and> length buf' = length (CommonBuffer x) \<and>
     buf_elems k buf' = map elem_words (take k (sgs_left x)) \<and>
     unat prov' = unat (Provided x) + sg_total (take k (sgs_left x)) \<and>
     todo la x = take k (sgs_left x) @
       plan (unat (SpillAfter x)) (unat (Length x)) la (unat prov') (sgs_left (x\<lparr>SgPos := pos'\<rparr>)) \<and>
     k \<le> length (sgs_left x) \<and>
     (k = m \<or> SpillAfter x \<le> prov' \<or> sgs_left (x\<lparr>SgPos := pos'\<rparr>) = [])"
proof (cases "SgList x")
  case None
  assume "fill_ok m x"
  then have "SpillAfter x \<le> Provided x" using None by (simp add: fill_ok_def)
  then show ?thesis using None
    by (intro exI [of _ "0 :: nat"] exI [of _ "SgPos x"] exI [of _ "Provided x"] exI [of _ "CommonBuffer x"])
      (auto simp: sg_loop.simps [of m] sgs_left_def todo_def buf_elems_def)
next
  case (Some sgs)
  assume ok: "fill_ok m x"
  have l: "sgs_left x = drop (SgPos x) sgs" by (simp add: sgs_left_def Some)
  have "4 * m \<le> length (CommonBuffer x)" "unat (SpillAfter x) + 2 ^ 32 \<le> 2 ^ 64"
    using ok by (auto simp: fill_ok_def)
  from sg_loop_spec [OF le0 this, where pos = "SgPos x" and sgs = sgs and prov = "Provided x" and ev = "[]"
      and amount = "unat (Length x)" and la = la] obtain k prov' buf' where K:
    "sg_loop m (SpillAfter x) (Some sgs) 0 (SgPos x) (Provided x) (CommonBuffer x, []) =
       (k, SgPos x + k, prov', buf', [])"
    "k \<le> m" "SgPos x + k \<le> max (SgPos x) (length sgs)" "length buf' = length (CommonBuffer x)"
    "buf_elems k buf' = buf_elems 0 (CommonBuffer x) @ map elem_words (take k (drop (SgPos x) sgs))"
    "unat prov' = unat (Provided x) + sg_total (take k (drop (SgPos x) sgs))"
    "plan (unat (SpillAfter x)) (unat (Length x)) la (unat (Provided x)) (drop (SgPos x) sgs) =
       take k (drop (SgPos x) sgs) @
       plan (unat (SpillAfter x)) (unat (Length x)) la (unat prov') (drop (SgPos x + k) sgs)"
    "k = m \<or> unat (SpillAfter x) \<le> unat prov' \<or> length sgs \<le> SgPos x + k"
    by auto
  show ?thesis
    by (rule exI [of _ k], rule exI [of _ "SgPos x + k"], rule exI [of _ prov'], rule exI [of _ buf'])
      (use K in \<open>auto simp: sgs_left_def Some todo_def buf_elems_def word_le_nat_alt le_max_iff_disj\<close>)
qed

lemma fill_elems_spec:
  assumes ok: "fill_ok m x" and n_def: "n = min m (length (todo la x))"
  shows "\<exists>pos' prov' buf'. fill_elems m la x = (n, pos', prov', buf', []) \<and>
    length buf' = length (CommonBuffer x) \<and> buf_elems n buf' = map elem_words (take n (todo la x)) \<and>
    unat prov' = unat (Provided x) + sg_total (take n (todo la x)) \<and>
    todo la (filled n pos' prov' buf' x) = drop n (todo la x)"
proof -
  obtain k pos' prov' buf' where K:
    "sg_loop m (SpillAfter x) (SgList x) 0 (SgPos x) (Provided x) (CommonBuffer x, []) = (k, pos', prov', buf', [])"
    "k \<le> m" "length buf' = length (CommonBuffer x)" "buf_elems k buf' = map elem_words (take k (sgs_left x))"
    "unat prov' = unat (Provided x) + sg_total (take k (sgs_left x))"
    "todo la x = take k (sgs_left x) @
       plan (unat (SpillAfter x)) (unat (Length x)) la (unat prov') (sgs_left (x\<lparr>SgPos := pos'\<rparr>))"
    "k \<le> length (sgs_left x)" "k = m \<or> SpillAfter x \<le> prov' \<or> sgs_left (x\<lparr>SgPos := pos'\<rparr>) = []"
    using sgs_left_split [OF ok] by blast
  have todo_f: "todo la (filled n p v b x) =
      plan (unat (SpillAfter x)) (unat (Length x)) la (unat v) (sgs_left (x\<lparr>SgPos := p\<rparr>))" for n p v b
    by (cases "SgList x") (simp_all add: todo_def filled_def sgs_left_def)
  show ?thesis
  proof (cases "SpillAfter x \<le> prov'")
    case False
    have "length (todo la x) \<ge> k" using K(6,7) by simp
    moreover have "k = m \<or> length (todo la x) = k"
      using K(6,7,8) False by (auto simp: word_le_nat_alt)
    ultimately have n: "n = k" using K(2) by (auto simp: n_def)
    show ?thesis
      by (rule exI [of _ pos'], rule exI [of _ prov'], rule exI [of _ buf'])
        (use K(1,3-7) False in \<open>simp add: fill_elems_def n todo_f\<close>)
  next
    case True
    have rm: "unat (Length x) + 4096 \<le> 2 ^ 64" using ok by (simp add: fill_ok_def)
    have bl: "4 * m \<le> length buf'" using ok K(3) by (simp add: fill_ok_def)
    obtain j prov'' buf'' where J:
      "spill_loop m (Length x) la k prov' (buf', []) = (k + j, prov'', buf'', [])"
      "k + j \<le> m" "length buf'' = length buf'"
      "buf_elems (k + j) buf'' = buf_elems k buf' @ map elem_words (replicate j (la, 4096))"
      "unat prov'' = unat prov' + 4096 * j"
      "spill_count (unat (Length x) - unat prov') = j + spill_count (unat (Length x) - unat prov'')"
      "k + j = m \<or> unat (Length x) \<le> unat prov''"
      using spill_loop_spec [OF K(2) bl rm, where prov = prov' and la = la and ev = "[]"] by blast
    have past: "unat (SpillAfter x) \<le> unat prov'" using True by (simp add: word_le_nat_alt)
    have td: "todo la x = take k (sgs_left x) @ replicate j (la, 4096) @
        replicate (spill_count (unat (Length x) - unat prov'')) (la, 4096)"
      using K(6) J(6) by (simp add: plan_past_limit [OF past] replicate_add)
    have len: "length (todo la x) = k + j + spill_count (unat (Length x) - unat prov'')"
      using K(7) by (simp add: td)
    have n: "n = k + j" using J(2,7) by (auto simp: n_def len spill_count_def)
    have tn: "take n (todo la x) = take k (sgs_left x) @ replicate j (la, 4096)"
      and dn: "drop n (todo la x) = replicate (spill_count (unat (Length x) - unat prov'')) (la, 4096)"
      using K(7) by (simp_all add: td n)
    have past'': "unat (SpillAfter x) \<le> unat prov''" using past J(5) by simp
    show ?thesis
    proof (rule exI [of _ pos'], rule exI [of _ prov''], rule exI [of _ buf''], intro conjI)
      show "fill_elems m la x = (n, pos', prov'', buf'', [])"
        using K(1) J(1) True by (simp add: fill_elems_def n)
      show "buf_elems n buf'' = map elem_words (take n (todo la x))"
        using J(4) K(4) by (simp only: n [symmetric] tn map_append)
      show "unat prov'' = unat (Provided x) + sg_total (take n (todo la x))"
        unfolding tn using J(5) K(5) by simp
      show "todo la (filled n pos' prov'' buf'' x) = drop n (todo la x)"
        unfolding dn todo_f by (rule plan_past_limit [OF past''])
    qed (use J(3) K(3) in simp)
  qed
qed

section \<open>The effect of one call\<close>

definition announce_log :: "nat \<Rightarrow> chnl_dir_state \<Rightarrow> nat \<Rightarrow> u64 \<Rightarrow> wevent list" where
  "announce_log c x n prov =
     (if n > 0
      then if c < RIFFA_MAX_NUM_CHNLS
           then [RegWr (WIN_CHNL_REG c RIFFA_RX_SG_ADDR_LO_REG) (ucast (CommonBufferBaseLA x)),
                 RegWr (WIN_CHNL_REG c RIFFA_RX_SG_ADDR_HI_REG) (ucast (drop_bit 32 (CommonBufferBaseLA x))),
                 RegWr (WIN_CHNL_REG c RIFFA_RX_SG_LEN_REG) (of_nat (n * 4))]
           else [RegWr (WIN_CHNL_REG (c - RIFFA_MAX_NUM_CHNLS) RIFFA_TX_SG_ADDR_LO_REG) (ucast (CommonBufferBaseLA x)),
                 RegWr (WIN_CHNL_REG (c - RIFFA_MAX_NUM_CHNLS) RIFFA_TX_SG_ADDR_HI_REG)
                   (ucast (drop_bit 32 (CommonBufferBaseLA x))),
                 RegWr (WIN_CHNL_REG (c - RIFFA_MAX_NUM_CHNLS) RIFFA_TX_SG_LEN_REG) (of_nat (n * 4))]
      else if prov < Length x
      then if c < RIFFA_MAX_NUM_CHNLS then [RegWr (WIN_CHNL_REG c RIFFA_RX_LEN_REG) (ucast (drop_bit 2 prov))]
           else [RegRd (WIN_CHNL_REG (c - RIFFA_MAX_NUM_CHNLS) RIFFA_TX_LEN_REG)]
      else [])"

definition timer_log :: "nat \<Rightarrow> chnl_dir_state \<Rightarrow> wevent list" where
  "timer_log c x = (if Timeout x > 0 then [TimerStart c (Timeout x)] else [])"

lemma upd_chnl_cong:
  "f (Chnl d ! c) = g (Chnl d ! c) \<Longrightarrow> upd_chnl c f d = upd_chnl c g d"
  by (simp add: upd_chnl_def)

lemma upd_chnl_id: "f (Chnl d ! c) = Chnl d ! c \<Longrightarrow> upd_chnl c f d = d"
  by (simp add: upd_chnl_def)

lemma event_events: "event e d = events [e] d"
  by (simp add: event_def events_def)

lemma announce_elems_log:
  "0 < n \<Longrightarrow> announce_elems c n d = events (announce_log c (Chnl d ! c) n prov) d"
  by (simp add: announce_elems_def announce_log_def WRITE_REGISTER_def event_events events_simps Let_def)

lemma program_sg_active:
  assumes c: "c < length (Chnl d)" and rq: "Request (Chnl d ! c) = Some r"
    and nc: "\<not> (ActiveCount (Chnl d ! c) = 0 \<and> Cancel (Chnl d ! c) = 1)"
    and f: "fill_elems (MaxNumScatterGatherElems d) (SpillBufferBaseLA d) (Chnl d ! c) = (n, pos, prov, buf, [])"
  shows "RiffaProgramScatterGather env c d =
    events (TimerStop c # announce_log c (Chnl d ! c) n prov @ timer_log c (Chnl d ! c))
      (upd_chnl c (filled n pos prov buf) d)"
proof -
  let ?x = "Chnl d ! c"
  let ?in = "\<lambda>x. x\<lparr>ActiveCount := ActiveCount x + 1\<rparr>"
  have fe: "fill_elems m la (y\<lparr>ActiveCount := a\<rparr>) = fill_elems m la y" for m la y a
    by (simp add: fill_elems_def cong: if_cong)
  define d1 where "d1 = upd_chnl c ?in (events [TimerStop c] d)"
  have e1: "RiffaThreadEnter c (stop_timer c d) = (True, d1)"
    using rq by (simp add: RiffaThreadEnter_def stop_timer_def event_events d1_def win_simps)
  have x1: "Chnl d1 ! c = ?in ?x" using c by (simp add: d1_def win_simps)
  define upd where "upd = (\<lambda>x :: chnl_dir_state. x\<lparr>CommonBuffer := buf, Confirmed := Confirmed x + ProvidedPrev x,
      ProvidedPrev := prov - Provided x, Provided := prov, SgPos := pos\<rparr>)"
  define d2 where "d2 = upd_chnl c upd d1"
  have x2: "Chnl d2 ! c = upd (?in ?x)" using c x1 by (simp add: d2_def d1_def win_simps)
  define d3 where "d3 = (if n > 0 then announce_elems c n d2
      else if prov < Length (?in ?x) then announce_split env c prov d2 else d2)"
  have d3: "d3 = events (announce_log c ?x n prov)
      (upd_chnl c (\<lambda>x. x\<lparr>ReqdDone := (if n = 0 \<and> prov < Length x then 1 else ReqdDone x)\<rparr>) d2)"
  proof (cases "n > 0")
    case True
    have "announce_log c (Chnl d2 ! c) n prov = announce_log c ?x n prov"
      unfolding x2 by (simp add: announce_log_def upd_def)
    then show ?thesis
      using True announce_elems_log [OF True, of c d2 prov] by (simp add: d3_def upd_chnl_id)
  next
    case False
    have len: "Length (Chnl d2 ! c) = Length ?x" unfolding x2 by (simp add: upd_def)
    show ?thesis
      using False len by (cases "prov < Length ?x")
        (auto simp: d3_def announce_split_def WRITE_REGISTER_def event_events events_upd Let_def
          win_simps announce_log_def events_simps upd_chnl_id intro!: upd_chnl_cong arg_cong [where f = "events _"])
  qed
  have cc: "c < length (Chnl d2)" using c by (simp add: d2_def d1_def win_simps)
  have ex: "RiffaThreadExit env c d3 = upd_chnl c (\<lambda>x. x\<lparr>ActiveCount := ActiveCount x - 1\<rparr>) d3"
    using nc cc x2 by (auto simp: RiffaThreadExit_def d3 win_simps upd_def Let_def)
  have "RiffaProgramScatterGather env c d = start_timer c (RiffaThreadExit env c d3)"
    unfolding RiffaProgramScatterGather_def e1
    using f x1 fe by (simp add: d1_def win_simps d2_def d3_def upd_def events_simps)
  also have "\<dots> = events (TimerStop c # announce_log c ?x n prov @ timer_log c ?x) (upd_chnl c (filled n pos prov buf) d)"
    unfolding ex using c
    by (simp add: d3 d2_def d1_def upd_def start_timer_def timer_log_def event_events win_simps events_upd
        filled_def [abs_def] comp_def cong: if_cong)
  finally show ?thesis .
qed

text \<open>
  What the device sees of a call: as many elements of the common buffer as the length register was
  told, if it was written.  \<open>handed\<close> collects that over \<open>k\<close> calls.
\<close>

definition sg_len_reg :: "nat \<Rightarrow> nat" where
  "sg_len_reg c =
     (if c < RIFFA_MAX_NUM_CHNLS then WIN_CHNL_REG c RIFFA_RX_SG_LEN_REG
      else WIN_CHNL_REG (c - RIFFA_MAX_NUM_CHNLS) RIFFA_TX_SG_LEN_REG)"

fun len_writes :: "nat \<Rightarrow> wevent list \<Rightarrow> u32 list" where
  "len_writes r [] = []"
| "len_writes r (RegWr r' v # es) = (if r' = r then v # len_writes r es else len_writes r es)"
| "len_writes r (e # es) = len_writes r es"

definition device_view :: "nat \<Rightarrow> device_extension \<Rightarrow> device_extension \<Rightarrow> (u32 \<times> u32 \<times> u32) list" where
  "device_view c d d' =
     concat (map (\<lambda>v. buf_elems (unat v div 4) (CommonBuffer (Chnl d' ! c)))
       (len_writes (sg_len_reg c) (drop (length (trace d)) (trace d'))))"

fun handed :: "wenv \<Rightarrow> nat \<Rightarrow> nat \<Rightarrow> device_extension \<Rightarrow> (u32 \<times> u32 \<times> u32) list" where
  "handed env c 0 d = []"
| "handed env c (Suc k) d =
     (let d' = RiffaProgramScatterGather env c d in device_view c d d' @ handed env c k d')"

lemma chnl_reg_neq: "WIN_CHNL_REG a i = WIN_CHNL_REG b j \<longleftrightarrow> a = b \<and> i = j" if "i < 16" "j < 16"
  using that by (auto simp: WIN_CHNL_REG_def push_bit_eq_mult) presburger+

lemma len_writes_log:
  "len_writes (sg_len_reg c) (announce_log c x n prov @ timer_log c x) =
     (if n > 0 then [of_nat (n * 4)] else [])"
  by (auto simp: sg_len_reg_def announce_log_def timer_log_def chnl_reg_neq)

lemma program_sg_fill:
  assumes c: "c < length (Chnl d)" and rq: "Request (Chnl d ! c) = Some r"
    and nc: "\<not> (ActiveCount (Chnl d ! c) = 0 \<and> Cancel (Chnl d ! c) = 1)"
    and ok: "fill_ok (MaxNumScatterGatherElems d) (Chnl d ! c)"
    and n: "n = min (MaxNumScatterGatherElems d) (length (todo (SpillBufferBaseLA d) (Chnl d ! c)))"
  shows "\<exists>pos prov buf. RiffaProgramScatterGather env c d =
      events (TimerStop c # announce_log c (Chnl d ! c) n prov @ timer_log c (Chnl d ! c))
        (upd_chnl c (filled n pos prov buf) d) \<and>
    length buf = length (CommonBuffer (Chnl d ! c)) \<and>
    buf_elems n buf = map elem_words (take n (todo (SpillBufferBaseLA d) (Chnl d ! c))) \<and>
    unat prov = unat (Provided (Chnl d ! c)) + sg_total (take n (todo (SpillBufferBaseLA d) (Chnl d ! c))) \<and>
    todo (SpillBufferBaseLA d) (filled n pos prov buf (Chnl d ! c)) =
      drop n (todo (SpillBufferBaseLA d) (Chnl d ! c))"
  using fill_elems_spec [OF ok n] program_sg_active [OF c rq nc] by blast

lemma fill_ok_filled:
  assumes "fill_ok m x" and "length buf = length (CommonBuffer x)" and "Provided x \<le> prov"
  shows "fill_ok m (filled n pos prov buf x)"
  using assms by (auto simp: fill_ok_def filled_def)

text \<open>The plan is handed over in order, in pieces of the maximal size.\<close>

lemma handed_over:
  assumes "c < length (Chnl d)" and "Request (Chnl d ! c) = Some r" and "Cancel (Chnl d ! c) \<noteq> 1"
    and "fill_ok (MaxNumScatterGatherElems d) (Chnl d ! c)" and "MaxNumScatterGatherElems d < 2 ^ 29"
  shows "handed env c k d =
    map elem_words (take (k * MaxNumScatterGatherElems d) (todo (SpillBufferBaseLA d) (Chnl d ! c)))"
  using assms
proof (induction k arbitrary: d)
  case 0
  then show ?case by simp
next
  case (Suc k)
  let ?m = "MaxNumScatterGatherElems d" and ?x = "Chnl d ! c" and ?la = "SpillBufferBaseLA d"
  define n where "n = min ?m (length (todo ?la ?x))"
  have nc: "\<not> (ActiveCount ?x = 0 \<and> Cancel ?x = 1)" using Suc.prems(3) by simp
  obtain pos prov buf where P:
    "RiffaProgramScatterGather env c d =
       events (TimerStop c # announce_log c ?x n prov @ timer_log c ?x) (upd_chnl c (filled n pos prov buf) d)"
    "length buf = length (CommonBuffer ?x)" "buf_elems n buf = map elem_words (take n (todo ?la ?x))"
    "unat prov = unat (Provided ?x) + sg_total (take n (todo ?la ?x))"
    "todo ?la (filled n pos prov buf ?x) = drop n (todo ?la ?x)"
    using program_sg_fill [OF Suc.prems(1,2) nc Suc.prems(4) n_def] by blast
  define d' where "d' = RiffaProgramScatterGather env c d"
  have x': "Chnl d' ! c = filled n pos prov buf ?x" "MaxNumScatterGatherElems d' = ?m"
    "SpillBufferBaseLA d' = ?la" "length (Chnl d') = length (Chnl d)"
    using Suc.prems(1) by (simp_all add: d'_def P(1) win_simps)
  have n4: "unat (of_nat (n * 4) :: u32) = n * 4"
    using Suc.prems(5) by (simp add: n_def unat_of_nat del: of_nat_mult)
  have view: "device_view c d d' = map elem_words (take n (todo ?la ?x))"
    using Suc.prems(1) P(3) n4
    by (cases "n = 0") (simp_all add: device_view_def d'_def P(1) win_simps len_writes_log filled_def del: of_nat_mult)
  have le: "Provided ?x \<le> prov" using P(4) by (simp add: word_le_nat_alt)
  have "handed env c k d' = map elem_words (take (k * ?m) (drop n (todo ?la ?x)))"
    using Suc.IH [of d'] Suc.prems P(5) x' fill_ok_filled [OF Suc.prems(4) P(2) le, of n pos]
    by (simp add: filled_def)
  moreover have "take n (todo ?la ?x) @ take (k * ?m) (drop n (todo ?la ?x)) = take (Suc k * ?m) (todo ?la ?x)"
    by (cases "?m \<le> length (todo ?la ?x)") (simp_all add: n_def take_add)
  ultimately show ?case
    using view by (simp add: d'_def [symmetric] Let_def flip: map_append)
qed

lemma spill_count_covers: "n \<le> 4096 * spill_count n" "0 < spill_count n \<Longrightarrow> 4096 * (spill_count n - 1) < n"
proof -
  have m: "4096 * ((n + 4095) div 4096) + (n + 4095) mod 4096 = n + 4095" by (rule mult_div_mod_eq)
  have r: "(n + 4095) mod 4096 < 4096" by simp
  show "n \<le> 4096 * spill_count n" using m r unfolding spill_count_def by linarith
  show "4096 * (spill_count n - 1) < n" if "0 < spill_count n"
    using m that unfolding spill_count_def by (simp only: diff_mult_distrib2)
qed

lemma plan_shape:
  assumes "limit \<le> prov + sg_total es"
  shows "\<exists>i j. plan limit amount la prov es = take i es @ replicate j (la, 4096) \<and>
    limit \<le> prov + sg_total (take i es) \<and>
    amount \<le> prov + sg_total (take i es) + 4096 * j \<and>
    (0 < j \<longrightarrow> prov + sg_total (take i es) + 4096 * (j - 1) < amount)"
  using assms
proof (induction es arbitrary: prov)
  case Nil
  then show ?case
    using spill_count_covers [of "amount - prov"]
    by (intro exI [of _ "0 :: nat"] exI [of _ "spill_count (amount - prov)"]) auto
next
  case (Cons e es)
  show ?case
  proof (cases "prov < limit")
    case True
    have "limit \<le> prov + unat (snd e) + sg_total es" using Cons.prems by simp
    from Cons.IH [OF this] obtain i j where I:
      "plan limit amount la (prov + unat (snd e)) es = take i es @ replicate j (la, 4096)"
      "limit \<le> prov + unat (snd e) + sg_total (take i es)"
      "amount \<le> prov + unat (snd e) + sg_total (take i es) + 4096 * j"
      "0 < j \<longrightarrow> prov + unat (snd e) + sg_total (take i es) + 4096 * (j - 1) < amount" by blast
    show ?thesis
      by (rule exI [of _ "Suc i"], rule exI [of _ j]) (use I True in \<open>simp add: add.assoc\<close>)
  next
    case False
    then show ?thesis
      using spill_count_covers [of "amount - prov"]
      by (intro exI [of _ "0 :: nat"] exI [of _ "spill_count (amount - prov)"]) auto
  qed
qed


text \<open>A device with room for two elements and a transfer of 9000 bytes, 5000 of which fit.\<close>

definition busy_chnl :: chnl_dir_state where
  "busy_chnl = \<lparr>Ready = 0, InUse = 1, ReqdDone = 0, Length = 9000, Offset = 0, Last = 1, Timeout = 0,
     Capacity = 5000, Provided = 0, ProvidedPrev = 0, Confirmed = 0, ConfirmedPrev = 0, SpillAfter = 5000,
     SgList = Some [(0x1000, 4096), (0x7000, 904)], SgPos = 0, ActiveCount = 0, Cancel = 0, Request = Some 7,
     CommonBuffer = replicate 12 0, CommonBufferBaseLA = 0x100000000\<rparr>"

definition busy_device :: device_extension where
  "busy_device = \<lparr>Bar0 = Some 0, Bar0Length = 0x400, MaxNumScatterGatherElems = 3, NumChnls = 1, VendorId = 0,
     DeviceId = 0, Name = [], IntrData = replicate 24 no_intr, Chnl = replicate 24 busy_chnl,
     SpillBufferBaseLA = 0x9000, ReqChnl = (\<lambda>_. 12), trace = []\<rparr>"

text \<open>A framework and a device that grant everything.\<close>

definition calm_env :: wenv where
  "calm_env = \<lparr>reg_value = (\<lambda>_ _. 0), mdl_answer = (\<lambda>_. Inr (0x10000, 0x100000)), init_answer = (\<lambda>_. 0),
     exec_answer = (\<lambda>_. ExecNow [(0x1000, 4096), (0x7000, 904)]), bytes_answer = (\<lambda>_. 0),
     completion_answer = (\<lambda>_. TxnComplete 0), mark_answer = (\<lambda>_. 0), unmark_answer = (\<lambda>_ _. 0),
     create_answer = (\<lambda>_. 0), buffer_answer = (\<lambda>_ b. (replicate ((b + 3) div 4) 0, 0x100000000)),
     map_answer = (\<lambda>_. Some 0x8000)\<rparr>"


end
