(* ===== verification/Win_Intr.thy ===== *)
theory Win_Intr
  imports Win_Dma
begin

text \<open>
  The interrupt of the Windows driver: the service routine accumulates what the interrupt vector
  says in \<open>IntrData\<close> (\<open>RiffaEvtInterruptIsr\<close>, \<open>RiffaProcessInterrupt\<close>), the deferred procedure takes
  it and works on the channels (\<open>RiffaEvtInterruptDpc\<close>).
\<close>

section \<open>Service routine\<close>

definition win_bit :: "u32 \<Rightarrow> nat \<Rightarrow> bool" where
  "win_bit vect n \<longleftrightarrow> vect AND push_bit n 1 \<noteq> 0"

text \<open>One \<open>if\<close> of the loop body: it notes that the deferred procedure is needed and records something.\<close>

definition on_bit ::
  "bool \<Rightarrow> (device_extension \<Rightarrow> device_extension) \<Rightarrow> bool \<times> device_extension \<Rightarrow> bool \<times> device_extension" where
  "on_bit b f qd = (if b then (True, f (snd qd)) else qd)"

definition new_txn :: "wenv \<Rightarrow> nat \<Rightarrow> device_extension \<Rightarrow> device_extension" where
  "new_txn env c d =
     (let (offlast, d) = READ_REGISTER env (WIN_CHNL_REG c RIFFA_TX_OFFLAST_REG) d;
          (len, d) = READ_REGISTER env (WIN_CHNL_REG c RIFFA_TX_LEN_REG) d
      in upd_intr (RIFFA_MAX_NUM_CHNLS + c) (\<lambda>x. x\<lparr>OffLast := offlast, IntrLength := len, NewTxn := True\<rparr>) d)"

definition intr_chnl :: "wenv \<Rightarrow> u32 \<Rightarrow> nat \<Rightarrow> nat \<Rightarrow> bool \<times> device_extension \<Rightarrow> bool \<times> device_extension" where
  "intr_chnl env vect i c qd =
     (let qd = on_bit (win_bit vect (5 * i + 0)) (new_txn env c) qd;
          qd = on_bit (win_bit vect (5 * i + 1))
                 (upd_intr (RIFFA_MAX_NUM_CHNLS + c) (\<lambda>x. x\<lparr>SgRead := True\<rparr>)) qd;
          qd = on_bit (win_bit vect (5 * i + 2))
                 (upd_intr (RIFFA_MAX_NUM_CHNLS + c) (\<lambda>x. x\<lparr>Done := True\<rparr>)) qd;
          qd = on_bit (win_bit vect (5 * i + 3)) (upd_intr c (\<lambda>x. x\<lparr>SgRead := True\<rparr>)) qd
      in on_bit (win_bit vect (5 * i + 4)) (upd_intr c (\<lambda>x. x\<lparr>Done := True\<rparr>)) qd)"

function intr_chnls ::
  "wenv \<Rightarrow> nat \<Rightarrow> nat \<Rightarrow> u32 \<Rightarrow> bool \<times> device_extension \<Rightarrow> bool \<times> device_extension" where
  "intr_chnls env i off vect qd =
     (if i < 6 \<and> i + off < NumChnls (snd qd)
      then intr_chnls env (Suc i) off vect (intr_chnl env vect i (i + off) qd)
      else qd)"
  by pat_completeness auto
termination by (relation "measure (\<lambda>(e, i, off, v, q). 6 - i)") auto

declare intr_chnls.simps [simp del]

definition RiffaProcessInterrupt ::
  "wenv \<Rightarrow> nat \<Rightarrow> u32 \<Rightarrow> device_extension \<Rightarrow> bool \<times> device_extension" where
  "RiffaProcessInterrupt env off vect d =
     (if vect AND 0xC0000000 \<noteq> 0 then (False, d) else intr_chnls env 0 off vect (False, d))"

definition RiffaEvtInterruptIsr :: "wenv \<Rightarrow> device_extension \<Rightarrow> bool \<times> device_extension" where
  "RiffaEvtInterruptIsr env d =
     (let (vect0, d) = READ_REGISTER env RIFFA_IRQ_0_REG d;
          (vect1, d) = (if NumChnls d > 6 then READ_REGISTER env RIFFA_IRQ_1_REG d else (0, d));
          (recog, d) = RiffaProcessInterrupt env 0 vect0 d;
          (recog, d) = (if NumChnls d > 6
                        then (let (r, d) = RiffaProcessInterrupt env 6 vect1 d in (recog \<or> r, d))
                        else (recog, d))
      in (recog, if recog then event QueueDpc d else d))"

section \<open>Deferred procedure\<close>

definition dir_of :: "nat \<Rightarrow> wdf_dma_direction" where
  "dir_of c = (if c < RIFFA_MAX_NUM_CHNLS then WriteToDevice else ReadFromDevice)"

text \<open>
  \<open>WdfDmaTransactionDmaCompleted\<close>: the transaction is over, or the framework goes on with the next
  part of the buffer and calls \<open>RiffaEvtProgramDma\<close>, at once or later.
\<close>

definition dma_completed :: "wenv \<Rightarrow> nat \<Rightarrow> device_extension \<Rightarrow> ntstatus option \<times> device_extension" where
  "dma_completed env c d =
     (let ans = completion_answer env (length (trace d)); d = event (DmaCompleted c) d
      in case ans of
           TxnComplete st \<Rightarrow> (Some st, d)
         | TxnMore None \<Rightarrow> (None, d)
         | TxnMore (Some sgs) \<Rightarrow> (None, RiffaEvtProgramDma env c (dir_of c) sgs d))"

text \<open>The end of a transfer, for receiving (register \<open>TX_TNFR_LEN\<close>) and sending (\<open>RX_TNFR_LEN\<close>).\<close>

definition transfer_done :: "wenv \<Rightarrow> nat \<Rightarrow> nat \<Rightarrow> device_extension \<Rightarrow> device_extension" where
  "transfer_done env c reg d0 =
     (if Request (Chnl d0 ! c) = None then d0
      else let doneReqd = ReqdDone (Chnl d0 ! c);
               d = upd_chnl c (\<lambda>x. x\<lparr>ReqdDone := 0\<rparr>) d0;
               (ans, d) = dma_completed env c d
           in case ans of
                Some st \<Rightarrow> (let (tnfr, d) = READ_REGISTER env reg d in RiffaTransactionComplete env c tnfr st d)
              | None \<Rightarrow>
                  (if doneReqd = 0
                   then (let (tnfr, d) = READ_REGISTER env reg d
                         in RiffaTransactionComplete env c tnfr STATUS_TRANSACTION_ABORTED d)
                   else d))"

text \<open>The announcement of a receive: the transaction starts if a request is waiting (\<open>Ready = 1\<close>).\<close>

definition new_recv_txn :: "wenv \<Rightarrow> nat \<Rightarrow> intr_chnl_dir_data \<Rightarrow> device_extension \<Rightarrow> device_extension" where
  "new_recv_txn env c i d0 =
     (let d = upd_chnl c (\<lambda>x. x\<lparr>Length := push_bit 2 (ucast (IntrLength i)),
                Offset := push_bit 2 (ucast (drop_bit 1 (OffLast i))), Last := OffLast i AND 0x1\<rparr>) d0;
          old = Ready (Chnl d ! c);
          d = upd_chnl c (\<lambda>x. x\<lparr>Ready := 2\<rparr>) d
      in if old = 1 then RiffaStartRecvTransaction env c (upd_chnl c (\<lambda>x. x\<lparr>Ready := 0\<rparr>) d) else d)"

definition dpc_chnl ::
  "wenv \<Rightarrow> intr_chnl_dir_data list \<Rightarrow> nat \<Rightarrow> device_extension \<Rightarrow> device_extension" where
  "dpc_chnl env intr c d =
     (let r = RIFFA_MAX_NUM_CHNLS + c;
          d = (if SgRead (intr ! r) then RiffaProgramScatterGather env r d else d);
          d = (if Done (intr ! r) then transfer_done env r (WIN_CHNL_REG c RIFFA_TX_TNFR_LEN_REG) d else d);
          d = (if NewTxn (intr ! r) then new_recv_txn env r (intr ! r) d else d);
          d = (if SgRead (intr ! c) then RiffaProgramScatterGather env c d else d)
      in if Done (intr ! c) then transfer_done env c (WIN_CHNL_REG c RIFFA_RX_TNFR_LEN_REG) d else d)"

definition RiffaEvtInterruptDpc :: "wenv \<Rightarrow> device_extension \<Rightarrow> device_extension" where
  "RiffaEvtInterruptDpc env d =
     (let intr = IntrData d;
          d = d\<lparr>IntrData := replicate (2 * RIFFA_MAX_NUM_CHNLS) no_intr\<rparr>
      in fold (dpc_chnl env intr) [0..<NumChnls d] d)"

section \<open>What the service routine accumulates\<close>

text \<open>
  \<open>accumulated\<close> relates the interrupt data of one channel before and after: flags are only added,
  and a new transaction carries values the device showed in the registers of the channel.
\<close>

definition accumulated ::
  "wenv \<Rightarrow> nat \<Rightarrow> bool list \<Rightarrow> intr_chnl_dir_data \<times> intr_chnl_dir_data \<Rightarrow>
     intr_chnl_dir_data \<times> intr_chnl_dir_data \<Rightarrow> bool" where
  "accumulated env c bits old new \<longleftrightarrow>
     (case (old, new) of ((rx, tx), (rx', tx')) \<Rightarrow>
        NewTxn rx' = (NewTxn rx \<or> bits ! 0) \<and> SgRead rx' = (SgRead rx \<or> bits ! 1) \<and>
        Done rx' = (Done rx \<or> bits ! 2) \<and> SgRead tx' = (SgRead tx \<or> bits ! 3) \<and>
        Done tx' = (Done tx \<or> bits ! 4) \<and> NewTxn tx' = NewTxn tx \<and>
        (if bits ! 0 then \<exists>n. OffLast rx' = reg_value env n (WIN_CHNL_REG c RIFFA_TX_OFFLAST_REG) \<and>
                             IntrLength rx' = reg_value env (Suc n) (WIN_CHNL_REG c RIFFA_TX_LEN_REG)
         else OffLast rx' = OffLast rx \<and> IntrLength rx' = IntrLength rx))"

definition intr_pair :: "device_extension \<Rightarrow> nat \<Rightarrow> intr_chnl_dir_data \<times> intr_chnl_dir_data" where
  "intr_pair d c = (IntrData d ! (12 + c), IntrData d ! c)"

definition vect_bits :: "u32 \<Rightarrow> nat \<Rightarrow> bool list" where
  "vect_bits v i = map (\<lambda>k. win_bit v (5 * i + k)) [0..<5]"

lemma vect_bits_nth [simp]: "k < 5 \<Longrightarrow> vect_bits v i ! k = win_bit v (5 * i + k)"
  by (simp add: vect_bits_def del: upt_Suc)

lemma no_bits_accumulated: "\<forall>k < 5. \<not> bits ! k \<Longrightarrow> accumulated env c bits p p"
  by (cases p) (simp add: accumulated_def)

definition isr_frame :: "device_extension \<Rightarrow> device_extension \<Rightarrow> bool" where
  "isr_frame d e \<longleftrightarrow> Chnl e = Chnl d \<and> NumChnls e = NumChnls d \<and> length (IntrData e) = length (IntrData d)"

lemma isr_frame_refl [simp]: "isr_frame d d"
  by (simp add: isr_frame_def)

lemma ex_less_5: "(\<exists>k < (5 :: nat). P k) \<longleftrightarrow> P 0 \<or> P 1 \<or> P 2 \<or> P 3 \<or> P 4"
proof -
  have "k < 5 \<longleftrightarrow> k = 0 \<or> k = 1 \<or> k = 2 \<or> k = 3 \<or> k = 4" for k :: nat by arith
  then show ?thesis by auto
qed

lemma on_bit_simps:
  "fst (on_bit b f qd) = (b \<or> fst qd)"
  "Chnl (snd (on_bit b (upd_intr k g) qd)) = Chnl (snd qd)"
  "NumChnls (snd (on_bit b (upd_intr k g) qd)) = NumChnls (snd qd)"
  "length (IntrData (snd (on_bit b (upd_intr k g) qd))) = length (IntrData (snd qd))"
  "Chnl (snd (on_bit b (new_txn env c) qd)) = Chnl (snd qd)"
  "NumChnls (snd (on_bit b (new_txn env c) qd)) = NumChnls (snd qd)"
  "length (IntrData (snd (on_bit b (new_txn env c) qd))) = length (IntrData (snd qd))"
  "j < length (IntrData (snd qd)) \<Longrightarrow> IntrData (snd (on_bit b (upd_intr k g) qd)) ! j =
     (if b \<and> j = k then g (IntrData (snd qd) ! j) else IntrData (snd qd) ! j)"
  "j < length (IntrData (snd qd)) \<Longrightarrow> IntrData (snd (on_bit b (new_txn env c) qd)) ! j =
     (if b \<and> j = 12 + c
      then (IntrData (snd qd) ! j)\<lparr>
             OffLast := reg_value env (length (trace (snd qd))) (WIN_CHNL_REG c RIFFA_TX_OFFLAST_REG),
             IntrLength := reg_value env (Suc (length (trace (snd qd)))) (WIN_CHNL_REG c RIFFA_TX_LEN_REG),
             NewTxn := True\<rparr>
      else IntrData (snd qd) ! j)"
  by (auto simp: on_bit_def new_txn_def Let_def split_def win_simps)

lemma intr_chnl_spec:
  assumes c: "c < 12" and len: "length (IntrData d) = 24" and e: "intr_chnl env v i c (q, d) = (q', d')"
  shows "isr_frame d d'" "q' = (q \<or> (\<exists>k < 5. win_bit v (5 * i + k)))"
    "accumulated env c (vect_bits v i) (intr_pair d c) (intr_pair d' c)"
    "k \<noteq> c \<Longrightarrow> k < 12 \<Longrightarrow> intr_pair d' k = intr_pair d k"
proof -
  have q': "q' = fst (intr_chnl env v i c (q, d))" and d': "d' = snd (intr_chnl env v i c (q, d))"
    using e by simp_all
  have ex: "(\<exists>k < 5. win_bit v (5 * i + k)) \<longleftrightarrow> win_bit v (5 * i) \<or> win_bit v (5 * i + 1) \<or> win_bit v (5 * i + 2) \<or>
      win_bit v (5 * i + 3) \<or> win_bit v (5 * i + 4)"
    by (simp add: ex_less_5)
  show "isr_frame d d'" unfolding d' intr_chnl_def Let_def by (simp add: isr_frame_def on_bit_simps)
  show "q' = (q \<or> (\<exists>k < 5. win_bit v (5 * i + k)))" unfolding ex q' by (auto simp: intr_chnl_def Let_def on_bit_simps)
  show "accumulated env c (vect_bits v i) (intr_pair d c) (intr_pair d' c)"
    unfolding d' using c len by (auto simp: intr_chnl_def Let_def on_bit_simps accumulated_def intr_pair_def)
  show "intr_pair d' k = intr_pair d k" if "k \<noteq> c" "k < 12"
    unfolding d' using c len that by (simp add: intr_chnl_def Let_def on_bit_simps intr_pair_def)
qed

lemma intr_chnls_spec:
  assumes "intr_chnls env i off v (q, d) = (q', d')" and "length (IntrData d) = 24" and "NumChnls d \<le> 12"
  shows "isr_frame d d' \<and> q' = (q \<or> (\<exists>j k. i \<le> j \<and> j < 6 \<and> j + off < NumChnls d \<and> k < 5 \<and> win_bit v (5 * j + k))) \<and>
    (\<forall>c < 12. if off + i \<le> c \<and> c < off + 6 \<and> c < NumChnls d
      then accumulated env c (vect_bits v (c - off)) (intr_pair d c) (intr_pair d' c)
      else intr_pair d' c = intr_pair d c)"
  using assms
proof (induction "6 - i" arbitrary: i q d)
  case 0
  then show ?case by (auto simp: intr_chnls.simps [of env i])
next
  case (Suc n)
  show ?case
  proof (cases "i + off < NumChnls d")
    case False
    then show ?thesis using Suc.prems by (auto simp: intr_chnls.simps [of env i])
  next
    case True
    have i6: "i < 6" using Suc.hyps(2) by simp
    obtain q1 d1 where e1: "intr_chnl env v i (i + off) (q, d) = (q1, d1)" by fastforce
    have c12: "i + off < 12" using True Suc.prems(3) by simp
    note S = intr_chnl_spec [OF c12 Suc.prems(2) e1]
    have e2: "intr_chnls env (Suc i) off v (q1, d1) = (q', d')"
      using Suc.prems(1) True i6 e1 by (simp add: intr_chnls.simps [of env i])
    have f1: "length (IntrData d1) = 24" "NumChnls d1 = NumChnls d" "Chnl d1 = Chnl d"
      using S(1) Suc.prems(2) by (simp_all add: isr_frame_def)
    have IH: "isr_frame d1 d'" "q' = (q1 \<or> (\<exists>j k. Suc i \<le> j \<and> j < 6 \<and> j + off < NumChnls d \<and> k < 5 \<and> win_bit v (5 * j + k)))"
      "\<And>c. c < 12 \<Longrightarrow> if off + Suc i \<le> c \<and> c < off + 6 \<and> c < NumChnls d
        then accumulated env c (vect_bits v (c - off)) (intr_pair d1 c) (intr_pair d' c)
        else intr_pair d' c = intr_pair d1 c"
      using Suc.hyps(1) [OF _ e2] Suc.hyps(2) Suc.prems f1 by auto
    show ?thesis
    proof (intro conjI allI impI)
      show "isr_frame d d'" using IH(1) f1 S(1) by (simp add: isr_frame_def)
      show "q' = (q \<or> (\<exists>j k. i \<le> j \<and> j < 6 \<and> j + off < NumChnls d \<and> k < 5 \<and> win_bit v (5 * j + k)))"
        unfolding IH(2) S(2) using True i6 by (auto simp: Suc_le_eq) (metis le_neq_implies_less)
    next
      fix c :: nat
      assume c: "c < 12"
      show "if off + i \<le> c \<and> c < off + 6 \<and> c < NumChnls d
        then accumulated env c (vect_bits v (c - off)) (intr_pair d c) (intr_pair d' c)
        else intr_pair d' c = intr_pair d c"
      proof (cases "c = i + off")
        case True
        then have "intr_pair d' c = intr_pair d1 c" using IH(3) [OF c] by simp
        with True \<open>i + off < NumChnls d\<close> i6 S(3) show ?thesis by simp
      next
        case False
        then have "intr_pair d1 c = intr_pair d c" using S(4) c by simp
        moreover have "off + Suc i \<le> c \<longleftrightarrow> off + i \<le> c" using False by auto
        ultimately show ?thesis using IH(3) [OF c] by (auto split: if_splits)
      qed
    qed
  qed
qed

definition isr_bits :: "u32 \<Rightarrow> u32 \<Rightarrow> nat \<Rightarrow> bool list" where
  "isr_bits v0 v1 c = (if c < 6 then vect_bits v0 c else vect_bits v1 (c - 6))"

lemma isr_flags:
  assumes "n \<le> 12"
  shows "((\<exists>j k. j < 6 \<and> j < n \<and> k < 5 \<and> win_bit v0 (5 * j + k)) \<or>
      (\<exists>j k. j < 6 \<and> j + 6 < n \<and> k < 5 \<and> win_bit v1 (5 * j + k))) =
    (\<exists>c k. c < n \<and> k < 5 \<and> isr_bits v0 v1 c ! k)" (is "?l = ?r")
proof
  assume ?l
  then consider j k where "j < 6" "j < n" "k < 5" "win_bit v0 (5 * j + k)"
    | j k where "j < 6" "j + 6 < n" "k < 5" "win_bit v1 (5 * j + k)" by blast
  then show ?r
  proof cases
    case 1
    then show ?r by (intro exI [of _ j] exI [of _ k]) (simp add: isr_bits_def)
  next
    case 2
    then show ?r by (intro exI [of _ "j + 6"] exI [of _ k]) (simp add: isr_bits_def)
  qed
next
  assume ?r
  then obtain c k where ck: "c < n" "k < 5" "isr_bits v0 v1 c ! k" by blast
  show ?l
  proof (cases "c < 6")
    case True
    then show ?l using ck by (auto simp: isr_bits_def)
  next
    case False
    then have "c - 6 < 6" "c - 6 + 6 < n" using ck(1) assms by auto
    then show ?l using ck False by (auto simp: isr_bits_def)
  qed
qed

text \<open>The second vector is read for devices with more than six channels only; else its loop is empty.\<close>

definition vectors_read :: "device_extension \<Rightarrow> device_extension" where
  "vectors_read d =
     (if NumChnls d > 6 then event (RegRd RIFFA_IRQ_1_REG) (event (RegRd RIFFA_IRQ_0_REG) d)
      else event (RegRd RIFFA_IRQ_0_REG) d)"

lemma vectors_read_fields:
  "IntrData (vectors_read d) = IntrData d" "NumChnls (vectors_read d) = NumChnls d" "Chnl (vectors_read d) = Chnl d"
  by (simp_all add: vectors_read_def win_simps)

lemma isr_runs_loops:
  assumes "v0 = reg_value env (length (trace d)) RIFFA_IRQ_0_REG"
    and "v1 = reg_value env (Suc (length (trace d))) RIFFA_IRQ_1_REG"
    and "v0 AND 0xC0000000 = 0" and "v1 AND 0xC0000000 = 0"
    and e1: "intr_chnls env 0 0 v0 (False, vectors_read d) = (q1, d1)" and n: "NumChnls d1 = NumChnls d"
    and e2: "intr_chnls env 0 6 v1 (False, d1) = (q2, d2)"
  shows "RiffaEvtInterruptIsr env d = (q1 \<or> q2, if q1 \<or> q2 then event QueueDpc d2 else d2)"
proof (cases "NumChnls d > 6")
  case True
  then show ?thesis
    using e1 e2 n assms(1-4)
    by (simp add: RiffaEvtInterruptIsr_def READ_REGISTER_def RiffaProcessInterrupt_def win_simps vectors_read_def)
next
  case False
  then have "q2 = False" "d2 = d1" using e2 n by (simp_all add: intr_chnls.simps [of env 0])
  then show ?thesis
    using False e1 n assms(1-4)
    by (simp add: RiffaEvtInterruptIsr_def READ_REGISTER_def RiffaProcessInterrupt_def win_simps vectors_read_def)
qed


text \<open>The device announces a transfer on channel 0.\<close>

definition ringing_env :: wenv where
  "ringing_env = calm_env\<lparr>reg_value := (\<lambda>n r. if r = RIFFA_IRQ_0_REG then 1 else 40)\<rparr>"


end
