(* ===== verification/Win_Ioctl.thy ===== *)
theory Win_Ioctl
  imports Win_Intr
begin

text \<open>
  The requests of the user (\<open>RiffaEvtIoDeviceControl\<close> and the functions it dispatches to), their
  cancellation and their timeout.  A request \<open>wdf_request\<close> is what the framework hands over; its
  buffers are retrieved by framework calls that may fail.
\<close>

section \<open>Requests\<close>

record riffa_fpga_chnl_io =
  io_Chnl :: u32
  io_Length :: u32
  io_Offset :: u32
  io_Last :: u32
  io_Timeout :: u64

record riffa_fpga_info =
  inf_id :: "u32 list"
  inf_num_chnls :: "u32 list"
  inf_name :: "string list"
  inf_vendor_id :: "u32 list"
  inf_device_id :: "u32 list"

text \<open>
  A retrieved buffer is a failure status or its size in bytes and its contents, read as the type
  the code casts it to.
\<close>

record wdf_request =
  handle :: nat
  InputBufferLength :: u64
  OutputBufferLength :: u64
  io_input :: "ntstatus + (u64 \<times> riffa_fpga_chnl_io)"
  list_input :: "ntstatus + (u64 \<times> u32)"
  list_output :: "ntstatus + (u64 \<times> riffa_fpga_info)"

abbreviation (input) SIZEOF_CHNL_IO :: u64 where "SIZEOF_CHNL_IO \<equiv> 32"
abbreviation (input) SIZEOF_FPGA_INFO :: u64 where "SIZEOF_FPGA_INFO \<equiv> 164"

definition finish :: "wdf_request \<Rightarrow> ntstatus \<Rightarrow> device_extension \<Rightarrow> device_extension" where
  "finish rq st d = event (Completed (handle rq) st 0) d"

definition mark_cancelable :: "wenv \<Rightarrow> wdf_request \<Rightarrow> device_extension \<Rightarrow> device_extension" where
  "mark_cancelable env rq d =
     (let st = mark_answer env (length (trace d)); d = event (MarkCancelable (handle rq)) d
      in if \<not> NT_SUCCESS st then finish rq st d else d)"

definition set_req_chnl :: "wdf_request \<Rightarrow> nat \<Rightarrow> device_extension \<Rightarrow> device_extension" where
  "set_req_chnl rq c d = d\<lparr>ReqChnl := (ReqChnl d)(handle rq := c)\<rparr>"

text \<open>The input buffer of a send or receive request, if it holds a \<open>RIFFA_FPGA_CHNL_IO\<close>.\<close>

definition get_io :: "wdf_request \<Rightarrow> ntstatus + riffa_fpga_chnl_io" where
  "get_io rq =
     (if InputBufferLength rq = 0 then Inl STATUS_INVALID_PARAMETER
      else case io_input rq of
        Inl st \<Rightarrow> Inl st
      | Inr (bufSize, io) \<Rightarrow> if bufSize < SIZEOF_CHNL_IO then Inl STATUS_INVALID_PARAMETER else Inr io)"

definition words_of :: "wdf_request \<Rightarrow> riffa_fpga_chnl_io \<Rightarrow> u64" where
  "words_of rq io =
     (if ucast (io_Length io) < drop_bit 2 (OutputBufferLength rq) then ucast (io_Length io)
      else drop_bit 2 (OutputBufferLength rq))"

section \<open>Sending\<close>

definition begin_send :: "wdf_request \<Rightarrow> riffa_fpga_chnl_io \<Rightarrow> u64 \<Rightarrow> chnl_dir_state \<Rightarrow> chnl_dir_state" where
  "begin_send rq io len x =
     x\<lparr>Timeout := io_Timeout io, Length := push_bit 2 len, SpillAfter := push_bit 2 len,
       Offset := ucast (push_bit 2 (io_Offset io)), Last := io_Last io, Provided := 0, ProvidedPrev := 0,
       Confirmed := 0, ConfirmedPrev := 0, ActiveCount := 0, Cancel := 0, Request := Some (handle rq),
       ReqdDone := 0\<rparr>"

definition RiffaIoctlSend :: "wenv \<Rightarrow> wdf_request \<Rightarrow> device_extension \<Rightarrow> device_extension" where
  "RiffaIoctlSend env rq d =
     (case get_io rq of
        Inl st \<Rightarrow> finish rq st d
      | Inr io \<Rightarrow>
          (let len = words_of rq io; c = unat (io_Chnl io) in
           if io_Last io > 1 \<or> c \<ge> NumChnls d then finish rq STATUS_INVALID_PARAMETER d
           else let old = InUse (Chnl d ! c); d = upd_chnl c (\<lambda>x. x\<lparr>InUse := 1\<rparr>) d
                in if old = 1 then finish rq STATUS_INVALID_PARAMETER d
                   else let d = set_req_chnl rq c d
                        in if len \<noteq> 0
                           then let (st, d) = RiffaStartDmaTransaction env c (push_bit 2 len) 0 WriteToDevice
                                      (upd_chnl c (begin_send rq io len) d)
                                in if \<not> NT_SUCCESS st then finish rq st d else mark_cancelable env rq d
                           else if io_Last io \<noteq> 0
                           then finish rq STATUS_SUCCESS (RiffaProgramSend c (ucast len) (io_Offset io) (io_Last io) d)
                           else finish rq STATUS_INVALID_PARAMETER d))"

section \<open>Receiving\<close>

definition begin_recv :: "wdf_request \<Rightarrow> riffa_fpga_chnl_io \<Rightarrow> u64 \<Rightarrow> chnl_dir_state \<Rightarrow> chnl_dir_state" where
  "begin_recv rq io len x =
     x\<lparr>Timeout := io_Timeout io, Capacity := push_bit 2 len, Provided := 0, ProvidedPrev := 0,
       Confirmed := 0, ConfirmedPrev := 0, ActiveCount := 0, Cancel := 0, Request := Some (handle rq),
       ReqdDone := 0\<rparr>"

text \<open>The announcement of the device came first: the transaction starts in the call.\<close>

definition start_announced :: "wenv \<Rightarrow> wdf_request \<Rightarrow> nat \<Rightarrow> device_extension \<Rightarrow> device_extension" where
  "start_announced env rq c d =
     (case recv_plan (Chnl d ! c) of
        RecvDma len \<Rightarrow>
          (let d = upd_chnl c (\<lambda>x. x\<lparr>SpillAfter := Capacity x - Offset x\<rparr>) d;
               (st, d) = RiffaStartDmaTransaction env c len (Offset (Chnl d ! c)) ReadFromDevice d
           in if \<not> NT_SUCCESS st then finish rq st d else d)
      | RecvSpill \<Rightarrow> RiffaProgramScatterGather env c (upd_chnl c (\<lambda>x. x\<lparr>SpillAfter := 0\<rparr>) d)
      | RecvEmpty \<Rightarrow> finish rq STATUS_SUCCESS d
      | RecvInvalid \<Rightarrow> finish rq STATUS_CANCELLED d)"

definition RiffaIoctlRecv :: "wenv \<Rightarrow> wdf_request \<Rightarrow> device_extension \<Rightarrow> device_extension" where
  "RiffaIoctlRecv env rq d =
     (case get_io rq of
        Inl st \<Rightarrow> finish rq st d
      | Inr io \<Rightarrow>
          (let len = words_of rq io; c = RIFFA_MAX_NUM_CHNLS + unat (io_Chnl io) in
           if unat (io_Chnl io) \<ge> NumChnls d then finish rq STATUS_INVALID_PARAMETER d
           else let old = InUse (Chnl d ! c); d = upd_chnl c (\<lambda>x. x\<lparr>InUse := 1\<rparr>) d
                in if old = 1 then finish rq STATUS_INVALID_PARAMETER d
                   else let d = upd_chnl c (begin_recv rq io len) (set_req_chnl rq c d);
                            old = Ready (Chnl d ! c);
                            d = upd_chnl c (\<lambda>x. x\<lparr>Ready := 1\<rparr>) d;
                            d = (if old = 2
                                 then start_announced env rq c (upd_chnl c (\<lambda>x. x\<lparr>Ready := 0\<rparr>) d)
                                 else start_timer c d)
                        in mark_cancelable env rq d))"

section \<open>Listing and reset\<close>

definition RiffaIoctlList ::
  "wdf_request \<Rightarrow> device_extension \<Rightarrow> riffa_fpga_info option \<times> device_extension" where
  "RiffaIoctlList rq d =
     (if InputBufferLength rq = 0 then (None, finish rq STATUS_INVALID_PARAMETER d)
      else case list_input rq of
        Inl st \<Rightarrow> (None, finish rq st d)
      | Inr (bufSize, i) \<Rightarrow>
          (if bufSize < 4 \<or> i \<ge> of_nat RIFFA_MAX_NUM_FPGAS \<or> OutputBufferLength rq = 0
           then (None, finish rq STATUS_INVALID_PARAMETER d)
           else case list_output rq of
             Inl st \<Rightarrow> (None, finish rq st d)
           | Inr (bufSize, info) \<Rightarrow>
               (if bufSize < SIZEOF_FPGA_INFO then (None, finish rq STATUS_INVALID_PARAMETER d)
                else (Some (info\<lparr>inf_id := (inf_id info)[unat i := i],
                        inf_num_chnls := (inf_num_chnls info)[unat i := of_nat (NumChnls d)],
                        inf_name := (inf_name info)[unat i := Name d],
                        inf_vendor_id := (inf_vendor_id info)[unat i := VendorId d],
                        inf_device_id := (inf_device_id info)[unat i := DeviceId d]\<rparr>),
                      finish rq STATUS_SUCCESS d))))"

definition idle_chnl :: "chnl_dir_state \<Rightarrow> chnl_dir_state" where
  "idle_chnl x = x\<lparr>Ready := 0, InUse := 0, ReqdDone := 0, ActiveCount := 0, Cancel := 0\<rparr>"

definition reset_chnls :: "wenv \<Rightarrow> nat \<Rightarrow> device_extension \<Rightarrow> device_extension" where
  "reset_chnls env i d =
     (let r = RIFFA_MAX_NUM_CHNLS + i;
          d = upd_chnl r idle_chnl (upd_chnl i idle_chnl d);
          d = event (DmaRelease r) (event (DmaRelease i) d);
          d = RiffaCompleteRequest env i STATUS_CANCELLED d;
          d = RiffaCompleteRequest env r STATUS_CANCELLED d
      in stop_timer r (stop_timer i d))"

definition RiffaIoctlReset :: "wenv \<Rightarrow> wdf_request \<Rightarrow> device_extension \<Rightarrow> device_extension" where
  "RiffaIoctlReset env rq d =
     (let d = snd (READ_REGISTER env RIFFA_INFO_REG d);
          d = fold (reset_chnls env) [0..<NumChnls d] d;
          d = d\<lparr>IntrData := replicate (2 * RIFFA_MAX_NUM_CHNLS) no_intr\<rparr>
      in finish rq STATUS_SUCCESS d)"

text \<open>The control codes of \<open>riffa_driver.h\<close>; device type 0x22 is \<open>FILE_DEVICE_UNKNOWN\<close>.\<close>

definition CTL_CODE :: "u32 \<Rightarrow> u32 \<Rightarrow> u32 \<Rightarrow> u32 \<Rightarrow> u32" where
  "CTL_CODE dev fn meth acc = push_bit 16 dev OR push_bit 14 acc OR push_bit 2 fn OR meth"

definition IOCTL_RIFFA_SEND :: u32 where "IOCTL_RIFFA_SEND = CTL_CODE 0x22 0x900 2 0"
definition IOCTL_RIFFA_RECV :: u32 where "IOCTL_RIFFA_RECV = CTL_CODE 0x22 0x901 2 0"
definition IOCTL_RIFFA_LIST :: u32 where "IOCTL_RIFFA_LIST = CTL_CODE 0x22 0x902 2 0"
definition IOCTL_RIFFA_RESET :: u32 where "IOCTL_RIFFA_RESET = CTL_CODE 0x22 0x903 2 0"

definition RiffaEvtIoDeviceControl ::
  "wenv \<Rightarrow> wdf_request \<Rightarrow> u32 \<Rightarrow> device_extension \<Rightarrow> device_extension" where
  "RiffaEvtIoDeviceControl env rq code d =
     (if code = IOCTL_RIFFA_SEND then RiffaIoctlSend env rq d
      else if code = IOCTL_RIFFA_RECV then RiffaIoctlRecv env rq d
      else if code = IOCTL_RIFFA_LIST then snd (RiffaIoctlList rq d)
      else if code = IOCTL_RIFFA_RESET then RiffaIoctlReset env rq d
      else finish rq STATUS_INVALID_DEVICE_REQUEST d)"

section \<open>Cancellation and timeout\<close>

text \<open>The part under the lock: whether the request can be cancelled at once, or by the last thread.\<close>

definition try_cancel :: "nat \<Rightarrow> device_extension \<Rightarrow> bool \<times> device_extension" where
  "try_cancel c d =
     (if ActiveCount (Chnl d ! c) = 0 then (True, upd_chnl c (\<lambda>x. x\<lparr>Request := None\<rparr>) d)
      else (False, upd_chnl c (\<lambda>x. x\<lparr>Cancel := 1\<rparr>) d))"

definition complete_cancelled :: "nat \<Rightarrow> nat \<Rightarrow> device_extension \<Rightarrow> device_extension" where
  "complete_cancelled r c d0 =
     (let d = upd_chnl c (\<lambda>x. x\<lparr>Ready := 0, InUse := 0, ActiveCount := 0, Cancel := 0\<rparr>) d0;
          d = stop_timer c (event (DmaRelease c) d); x = Chnl d ! c
      in event (Completed r STATUS_CANCELLED (drop_bit 2 (ConfirmedPrev x + Confirmed x))) d)"

definition RiffaEvtRequestCancel :: "nat \<Rightarrow> device_extension \<Rightarrow> device_extension" where
  "RiffaEvtRequestCancel r d =
     (let c = ReqChnl d r; (canCancel, d) = try_cancel c d
      in if canCancel then complete_cancelled r c d else d)"

definition RiffaEvtTimerFunc :: "wenv \<Rightarrow> nat \<Rightarrow> device_extension \<Rightarrow> device_extension" where
  "RiffaEvtTimerFunc env c d =
     (case Request (Chnl d ! c) of
        None \<Rightarrow> d
      | Some r \<Rightarrow>
          (let (canCancel, d) = try_cancel c d
           in if canCancel
              then (let (rc, d) = UnmarkRequest env r d
                    in if rc \<noteq> STATUS_CANCELLED then complete_cancelled r c d else d)
              else d))"

end
