(* ===== verification/Win_Safe.thy ===== *)
theory Win_Safe
  imports Win_Ioctl
begin

text \<open>
  What the operations keep: which request is still owed to its caller.  The frame of the operations is proved once, for every relation
  between states that their elementary steps respect.
\<close>

section \<open>Relations kept by the operations\<close>

fun is_completion :: "nat \<Rightarrow> wevent \<Rightarrow> bool" where
  "is_completion r (Completed r' st n) = (r' = r)"
| "is_completion r e = False"

fun silent :: "wevent \<Rightarrow> bool" where
  "silent (Completed r st n) = False"
| "silent e = True"

definition keeps_owner :: "(chnl_dir_state \<Rightarrow> chnl_dir_state) \<Rightarrow> bool" where
  "keeps_owner f \<longleftrightarrow> (\<forall>x. Request (f x) = Request x \<and> ActiveCount (f x) = ActiveCount x)"

lemma put_elem_silent: "list_all silent (snd be) \<Longrightarrow> list_all silent (snd (put_elem i a w be))"
  by (simp add: put_elem_def)

lemma sg_loop_silent:
  "list_all silent (snd be) \<Longrightarrow> list_all silent (snd (snd (snd (snd (sg_loop m sa sgl i pos prov be)))))"
proof (induction m sa sgl i pos prov be rule: sg_loop.induct)
  case (1 m sa sgl i pos prov be)
  then show ?case
    by (subst sg_loop.simps) (auto simp: put_elem_silent split: option.split prod.split)
qed

lemma spill_loop_silent:
  "list_all silent (snd be) \<Longrightarrow> list_all silent (snd (snd (snd (spill_loop m len la i prov be))))"
proof (induction m len la i prov be rule: spill_loop.induct)
  case (1 m len la i prov be)
  then show ?case by (subst spill_loop.simps) (simp add: put_elem_silent)
qed

lemma fill_elems_silent:
  assumes "fill_elems m la x = (n, pos, prov, buf, es)"
  shows "list_all silent es"
proof -
  obtain k p v be where l:
    "sg_loop m (SpillAfter x) (SgList x) 0 (SgPos x) (Provided x) (CommonBuffer x, []) = (k, p, v, be)"
    by (metis prod_cases4)
  have be: "list_all silent (snd be)"
    using sg_loop_silent [of "(CommonBuffer x, [])" m "SpillAfter x" "SgList x" 0 "SgPos x" "Provided x"] l by simp
  show ?thesis
    using assms be spill_loop_silent [OF be, of m "Length x" la k v]
    by (auto simp: fill_elems_def l split: prod.splits if_splits)
qed

fun harmless :: "wevent \<Rightarrow> bool" where
  "harmless (Completed r st n) = False"
| "harmless (BufferOverrun i) = False"
| "harmless e = True"

definition keeps_shape :: "(chnl_dir_state \<Rightarrow> chnl_dir_state) \<Rightarrow> bool" where
  "keeps_shape f \<longleftrightarrow> (\<forall>x. Request (f x) = Request x \<and> ActiveCount (f x) = ActiveCount x \<and>
     length (CommonBuffer (f x)) = length (CommonBuffer x))"

lemma harmless_silent: "harmless e \<Longrightarrow> silent e"
  by (cases e) simp_all

lemma shape_owner: "keeps_shape f \<Longrightarrow> keeps_owner f"
  by (simp add: keeps_shape_def keeps_owner_def)

text \<open>
  \<open>dma_frame\<close> lists what a relation must respect, step by step; \<open>owner_frame\<close> is for a relation that
  does not look into the common buffers.
\<close>

locale dma_frame =
  fixes env :: wenv
    and P :: "device_extension \<Rightarrow> device_extension \<Rightarrow> bool"
  assumes P_refl: "P d d"
    and P_trans: "P d e \<Longrightarrow> P e f \<Longrightarrow> P d f"
    and P_length: "P d e \<Longrightarrow> length (Chnl e) = length (Chnl d)"
    and P_event: "harmless ev \<Longrightarrow> P d (event ev d)"
    and P_upd: "keeps_shape g \<Longrightarrow> P d (upd_chnl c g d)"
    and P_intr: "P d (d\<lparr>IntrData := replicate 24 no_intr\<rparr>)"
    and P_intr_upd: "P d (upd_intr c h d)"
    and P_fill: "c < length (Chnl d) \<Longrightarrow> Request (Chnl d ! c) \<noteq> None \<Longrightarrow>
      fill_elems (MaxNumScatterGatherElems d) (SpillBufferBaseLA d) (Chnl d ! c) = (n, pos, prov, buf, es) \<Longrightarrow>
      P d (upd_chnl c (\<lambda>x. x\<lparr>CommonBuffer := buf, Confirmed := Confirmed x + ProvidedPrev x,
        ProvidedPrev := prov - Provided x, Provided := prov, SgPos := pos\<rparr>) (events es d))"
    and P_complete: "c < length (Chnl d) \<Longrightarrow> P d (RiffaCompleteRequest env c st d)"
    and P_bracket: "c < length (Chnl d) \<Longrightarrow>
      P (upd_chnl c (\<lambda>x. x\<lparr>ActiveCount := ActiveCount x + 1\<rparr>) d) e \<Longrightarrow>
      P d (upd_chnl c (\<lambda>x. x\<lparr>ActiveCount := ActiveCount x - 1\<rparr>) e)"
begin

lemma then_event: "harmless e \<Longrightarrow> P d d' \<Longrightarrow> P d (event e d')"
  by (blast intro: P_trans P_event)

lemma then_upd: "keeps_shape f \<Longrightarrow> P d d' \<Longrightarrow> P d (upd_chnl c f d')"
  by (blast intro: P_trans P_upd)

lemma then_complete: "c < length (Chnl d) \<Longrightarrow> P d d' \<Longrightarrow> P d (RiffaCompleteRequest env c st d')"
  using P_length P_trans P_complete by metis

lemma P_enter_exit:
  assumes "c < length (Chnl d)" and "RiffaThreadEnter c d = (True, d1)" and "P d1 d2"
  shows "P d (RiffaThreadExit env c d2)"
proof -
  have d1: "d1 = upd_chnl c (\<lambda>x. x\<lparr>ActiveCount := ActiveCount x + 1\<rparr>) d"
    using assms(2) by (auto simp: RiffaThreadEnter_def Let_def split: if_splits)
  have "P d (upd_chnl c (\<lambda>x. x\<lparr>ActiveCount := ActiveCount x - 1\<rparr>) d2)"
    using P_bracket assms(1,3) unfolding d1 by blast
  then show ?thesis using then_complete [OF assms(1)] by (simp add: RiffaThreadExit_def Let_def)
qed

lemma P_write: "P d d' \<Longrightarrow> P d (WRITE_REGISTER r v d')"
  by (simp add: WRITE_REGISTER_def then_event)

lemma P_read: "P d d' \<Longrightarrow> P d (snd (READ_REGISTER env' r d'))"
  by (simp add: READ_REGISTER_def then_event)

lemma P_stop: "P d d' \<Longrightarrow> P d (stop_timer c d')"
  by (simp add: stop_timer_def then_event)

lemma P_start: "P d d' \<Longrightarrow> P d (start_timer c d')"
  by (simp add: start_timer_def then_event)

lemma P_announce: "P d d' \<Longrightarrow> P d (announce_elems c n d')"
  by (simp add: announce_elems_def Let_def P_write)

lemma P_split: "P d d' \<Longrightarrow> P d (announce_split env' c prov d')"
  by (simp add: announce_split_def Let_def P_write P_read then_upd keeps_shape_def)

lemma P_enter_false: "RiffaThreadEnter c d = (False, d1) \<Longrightarrow> d1 = d"
  by (auto simp: RiffaThreadEnter_def Let_def split: if_splits)

lemma P_program:
  assumes c: "c < length (Chnl d)"
  shows "P d (RiffaProgramScatterGather env c d)"
proof -
  obtain cont d1 where e: "RiffaThreadEnter c (stop_timer c d) = (cont, d1)" by fastforce
  have s: "P d (stop_timer c d)" by (rule P_stop [OF P_refl])
  have cs: "c < length (Chnl (stop_timer c d))" using P_length [OF s] c by simp
  show ?thesis
  proof (cases cont)
    case False
    then show ?thesis using e s P_enter_false [of c "stop_timer c d" d1]
      by (simp add: RiffaProgramScatterGather_def)
  next
    case True
    then have True': "cont = True" by simp
    obtain n pos prov buf es where f: "fill_elems (MaxNumScatterGatherElems d1) (SpillBufferBaseLA d1) (Chnl d1 ! c) =
        (n, pos, prov, buf, es)" by (metis prod_cases5)
    define d2 where "d2 = upd_chnl c (\<lambda>x. x\<lparr>CommonBuffer := buf, Confirmed := Confirmed x + ProvidedPrev x,
        ProvidedPrev := prov - Provided x, Provided := prov, SgPos := pos\<rparr>) (events es d1)"
    have "c < length (Chnl d1)" "Request (Chnl d1 ! c) \<noteq> None"
      using e True cs by (auto simp: RiffaThreadEnter_def Let_def win_simps split: if_splits)
    from P_fill [OF this f] have "P d1 d2" unfolding d2_def .
    then have "P d1 (if n > 0 then announce_elems c n d2
        else if prov < Length (Chnl d1 ! c) then announce_split env c prov d2 else d2)"
      by (simp add: P_announce P_split)
    then have "P (stop_timer c d) (RiffaThreadExit env c (if n > 0 then announce_elems c n d2
        else if prov < Length (Chnl d1 ! c) then announce_split env c prov d2 else d2))"
      by (rule P_enter_exit [OF cs e [unfolded True']])
    from P_start [OF P_trans [OF s this], of c] show ?thesis
      unfolding d2_def by (simp add: RiffaProgramScatterGather_def e True f Let_def)
  qed
qed

lemma then_program: "c < length (Chnl d) \<Longrightarrow> P d d' \<Longrightarrow> P d (RiffaProgramScatterGather env c d')"
  using P_length P_trans P_program by metis

lemma P_send: "P d d' \<Longrightarrow> P d (RiffaProgramSend c len off lst d')"
  by (simp add: RiffaProgramSend_def Let_def P_write)

lemma P_program_dma:
  "c < length (Chnl d) \<Longrightarrow> P d d' \<Longrightarrow> P d (RiffaEvtProgramDma env c dir sgs d')"
  by (auto simp: RiffaEvtProgramDma_def Let_def keeps_shape_def
      intro!: then_program P_send then_event then_upd)

lemma P_start_dma:
  "c < length (Chnl d) \<Longrightarrow> P d d' \<Longrightarrow> P d (snd (RiffaStartDmaTransaction env c len off dir d'))"
  by (auto simp: RiffaStartDmaTransaction_def Let_def
      intro!: P_program_dma then_event split: sum.split dma_execution.split)

lemma P_start_recv:
  assumes c: "c < length (Chnl d)"
  shows "P d (RiffaStartRecvTransaction env c d)"
proof -
  obtain cont d1 where e: "RiffaThreadEnter c (stop_timer c d) = (cont, d1)" by fastforce
  have s: "P d (stop_timer c d)" by (rule P_stop [OF P_refl])
  have cs: "c < length (Chnl (stop_timer c d))" using P_length [OF s] c by simp
  show ?thesis
  proof (cases cont)
    case False
    then show ?thesis using e s P_enter_false [of c "stop_timer c d" d1]
      by (simp add: RiffaStartRecvTransaction_def)
  next
    case True
    then have True': "cont = True" by simp
    have c1: "c < length (Chnl d1)"
      using e True cs by (auto simp: RiffaThreadEnter_def Let_def win_simps split: if_splits)
    let ?w = "case recv_plan (Chnl d1 ! c) of
        RecvDma len \<Rightarrow>
          (let d = upd_chnl c (\<lambda>x. x\<lparr>SpillAfter := Capacity x - Offset x\<rparr>) d1;
               (st, d) = RiffaStartDmaTransaction env c len (Offset (Chnl d ! c)) ReadFromDevice d
           in if \<not> NT_SUCCESS st then RiffaCompleteRequest env c st d else d)
      | RecvSpill \<Rightarrow> RiffaProgramScatterGather env c (upd_chnl c (\<lambda>x. x\<lparr>SpillAfter := 0\<rparr>) d1)
      | RecvEmpty \<Rightarrow> RiffaCompleteRequest env c STATUS_SUCCESS d1
      | RecvInvalid \<Rightarrow> RiffaCompleteRequest env c STATUS_CANCELLED d1"
    have "P d1 ?w"
    proof (cases "recv_plan (Chnl d1 ! c)")
      case (RecvDma len)
      let ?d = "upd_chnl c (\<lambda>x. x\<lparr>SpillAfter := Capacity x - Offset x\<rparr>) d1"
      have "P d1 ?d" by (rule then_upd [OF _ P_refl]) (simp add: keeps_shape_def)
      then have "P d1 (snd (RiffaStartDmaTransaction env c len (Offset (Chnl ?d ! c)) ReadFromDevice ?d))"
        by (rule P_start_dma [OF c1])
      then show ?thesis using RecvDma then_complete [OF c1]
        by (cases "RiffaStartDmaTransaction env c len (Offset (Chnl ?d ! c)) ReadFromDevice ?d") (simp add: Let_def)
    qed (use c1 in \<open>auto simp: keeps_shape_def intro!: then_program then_complete P_refl then_upd\<close>)
    then have "P (stop_timer c d) (RiffaThreadExit env c ?w)"
      by (rule P_enter_exit [OF cs e [unfolded True']])
    from P_trans [OF s this] show ?thesis by (simp add: RiffaStartRecvTransaction_def e True Let_def)
  qed
qed

lemma then_start_recv: "c < length (Chnl d) \<Longrightarrow> P d d' \<Longrightarrow> P d (RiffaStartRecvTransaction env c d')"
  using P_length P_trans P_start_recv by metis

lemma P_txn_complete:
  assumes c: "c < length (Chnl d)"
  shows "P d (RiffaTransactionComplete env c n st d)"
proof -
  obtain cont d1 where e: "RiffaThreadEnter c (stop_timer c d) = (cont, d1)" by fastforce
  have s: "P d (stop_timer c d)" by (rule P_stop [OF P_refl])
  have cs: "c < length (Chnl (stop_timer c d))" using P_length [OF s] c by simp
  show ?thesis
  proof (cases cont)
    case False
    then show ?thesis using e s P_enter_false [of c "stop_timer c d" d1]
      by (simp add: RiffaTransactionComplete_def)
  next
    case True
    then have True': "cont = True" by simp
    have c1: "c < length (Chnl d1)"
      using e True cs by (auto simp: RiffaThreadEnter_def Let_def win_simps split: if_splits)
    define d2 where "d2 = event (DmaRelease c) d1"
    have d2: "P d1 d2" unfolding d2_def by (simp add: P_event)
    define bytes where "bytes = (push_bit 2 (ucast n) :: u64)"
    define d3 where "d3 = upd_chnl c (\<lambda>x. x\<lparr>ConfirmedPrev := ConfirmedPrev x + bytes, Confirmed := 0,
        ProvidedPrev := 0, Provided := 0\<rparr>) d2"
    have d3: "P d1 d3" unfolding d3_def by (rule then_upd [OF _ d2]) (simp add: keeps_shape_def)
    define d4 where "d4 = (if c < 12 \<or> Last (Chnl d2 ! c) \<noteq> 0 \<or> \<not> NT_SUCCESS st
       then RiffaCompleteRequest env c st (upd_chnl c (\<lambda>x. x\<lparr>Confirmed := bytes, InUse := 0\<rparr>) d2)
       else if Ready (Chnl d3 ! c) \<noteq> 0
            then RiffaStartRecvTransaction env c (upd_chnl c (\<lambda>x. x\<lparr>Ready := 0\<rparr>) (upd_chnl c (\<lambda>x. x\<lparr>Ready := 1\<rparr>) d3))
            else upd_chnl c (\<lambda>x. x\<lparr>Ready := 1\<rparr>) d3)"
    have "P d1 d4"
      using c1 d2 d3 unfolding d4_def
      by (auto simp: keeps_shape_def intro!: then_complete then_start_recv then_upd)
    then have "P (stop_timer c d) (RiffaThreadExit env c d4)"
      by (rule P_enter_exit [OF cs e [unfolded True']])
    from P_trans [OF s this] show ?thesis
      unfolding d4_def d3_def d2_def bytes_def by (auto simp: RiffaTransactionComplete_def e True Let_def split: if_splits)
  qed
qed

lemma then_txn_complete:
  "c < length (Chnl d) \<Longrightarrow> P d d' \<Longrightarrow> P d (RiffaTransactionComplete env c n st d')"
  using P_length P_trans P_txn_complete by metis

lemma P_completed: "c < length (Chnl d) \<Longrightarrow> P d d' \<Longrightarrow> P d (snd (dma_completed env c d'))"
  by (auto simp: dma_completed_def Let_def intro!: P_program_dma then_event
      split: dma_completion.split option.split)

lemma P_transfer_done:
  assumes c: "c < length (Chnl d)" and d': "P d d'"
  shows "P d (transfer_done env c reg d')"
proof -
  let ?d = "upd_chnl c (\<lambda>x. x\<lparr>ReqdDone := 0\<rparr>) d'"
  obtain ans d2 where a: "dma_completed env c ?d = (ans, d2)" by fastforce
  have "P d ?d" using d' by (rule then_upd [rotated]) (simp add: keeps_shape_def)
  then have "P d d2" using P_completed [OF c] a by (metis snd_conv)
  then show ?thesis
    using d' a then_txn_complete [OF c] P_read
    by (auto simp: transfer_done_def Let_def READ_REGISTER_def
        intro!: then_txn_complete [OF c] then_event split: option.split)
qed

lemma P_new_txn: "c < length (Chnl d) \<Longrightarrow> P d d' \<Longrightarrow> P d (new_recv_txn env c i d')"
  by (auto simp: new_recv_txn_def Let_def keeps_shape_def intro!: then_start_recv then_upd)

lemma P_dpc_chnl:
  assumes "12 + c < length (Chnl d)" and "P d d'"
  shows "P d (dpc_chnl env intr c d')"
  using assms unfolding dpc_chnl_def Let_def
  by (auto intro!: then_program P_transfer_done P_new_txn)

lemma P_dpc_fold:
  "list_all (\<lambda>c. 12 + c < length (Chnl d)) cs \<Longrightarrow> P d d' \<Longrightarrow> P d (fold (dpc_chnl env intr) cs d')"
  by (induction cs arbitrary: d') (auto intro: P_dpc_chnl)

lemma P_dpc:
  assumes "length (Chnl d) = 24" and "NumChnls d \<le> 12"
  shows "P d (RiffaEvtInterruptDpc env d)"
  using assms unfolding RiffaEvtInterruptDpc_def Let_def
  by (auto simp: list_all_iff intro!: P_dpc_fold P_intr)

lemma P_upd_intr: "P d d' \<Longrightarrow> P d (upd_intr c f d')"
  by (rule P_trans [OF _ P_intr_upd])

lemma P_on_bit:
  "(\<And>e. P d e \<Longrightarrow> P d (f e)) \<Longrightarrow> P d (snd qd) \<Longrightarrow> P d (snd (on_bit b f qd))"
  by (simp add: on_bit_def)

lemma P_new_intr: "P d d' \<Longrightarrow> P d (new_txn env c d')"
  by (simp add: new_txn_def Let_def READ_REGISTER_def P_upd_intr then_event)

lemma P_intr_chnl: "P d (snd qd) \<Longrightarrow> P d (snd (intr_chnl env v i c qd))"
  unfolding intr_chnl_def Let_def by (intro P_on_bit P_upd_intr P_new_intr)

lemma P_intr_chnls: "P d (snd qd) \<Longrightarrow> P d (snd (intr_chnls env i off v qd))"
proof (induction "6 - i" arbitrary: i qd)
  case 0
  then show ?case by (simp add: intr_chnls.simps [of env i])
next
  case (Suc n)
  then show ?case by (simp add: intr_chnls.simps [of env i] P_intr_chnl)
qed

lemma P_process: "P d d' \<Longrightarrow> P d (snd (RiffaProcessInterrupt env off v d'))"
  by (simp add: RiffaProcessInterrupt_def P_intr_chnls)

lemma P_isr: "P d (snd (RiffaEvtInterruptIsr env d))"
  by (auto simp: RiffaEvtInterruptIsr_def Let_def split_def READ_REGISTER_def intro!: then_event P_process P_refl)

end

locale owner_frame =
  fixes env :: wenv
    and P :: "device_extension \<Rightarrow> device_extension \<Rightarrow> bool"
  assumes O_refl: "P d d"
    and O_trans: "P d e \<Longrightarrow> P e f \<Longrightarrow> P d f"
    and O_length: "P d e \<Longrightarrow> length (Chnl e) = length (Chnl d)"
    and O_event: "silent ev \<Longrightarrow> P d (event ev d)"
    and O_upd: "keeps_owner g \<Longrightarrow> P d (upd_chnl c g d)"
    and O_intr: "P d (d\<lparr>IntrData := is\<rparr>)"
    and O_complete: "c < length (Chnl d) \<Longrightarrow> P d (RiffaCompleteRequest env c st d)"
    and O_bracket: "c < length (Chnl d) \<Longrightarrow>
      P (upd_chnl c (\<lambda>x. x\<lparr>ActiveCount := ActiveCount x + 1\<rparr>) d) e \<Longrightarrow>
      P d (upd_chnl c (\<lambda>x. x\<lparr>ActiveCount := ActiveCount x - 1\<rparr>) e)"
begin

lemma O_events: "list_all silent es \<Longrightarrow> P d d' \<Longrightarrow> P d (events es d')"
proof (induction es arbitrary: d')
  case (Cons e es)
  have "events (e # es) d' = events es (event e d')" by (simp add: event_def events_def)
  moreover have "P d (event e d')" using Cons.prems by (auto intro: O_trans [OF _ O_event])
  ultimately show ?case using Cons by simp
qed (simp add: events_def)

end

sublocale owner_frame \<subseteq> dma_frame env P
proof unfold_locales
  fix c n pos prov buf es and d :: device_extension
  assume f: "fill_elems (MaxNumScatterGatherElems d) (SpillBufferBaseLA d) (Chnl d ! c) = (n, pos, prov, buf, es)"
  show "P d (upd_chnl c (\<lambda>x. x\<lparr>CommonBuffer := buf, Confirmed := Confirmed x + ProvidedPrev x,
      ProvidedPrev := prov - Provided x, Provided := prov, SgPos := pos\<rparr>) (events es d))"
    by (rule O_trans [OF O_events [OF fill_elems_silent [OF f] O_refl] O_upd]) (simp add: keeps_owner_def)
next
  fix c h and d :: device_extension
  show "P d (upd_intr c h d)" unfolding upd_intr_def by (rule O_intr)
qed (auto intro: O_refl O_trans O_length O_event O_upd O_intr O_complete O_bracket harmless_silent shape_owner)

section \<open>Requests owed to their callers\<close>

definition completions :: "nat \<Rightarrow> wevent list \<Rightarrow> nat" where
  "completions r es = length (filter (is_completion r) es)"

definition held_by :: "nat \<Rightarrow> device_extension \<Rightarrow> nat" where
  "held_by r d = length (filter (\<lambda>x. Request x = Some r) (Chnl d))"

definition due :: "nat \<Rightarrow> device_extension \<Rightarrow> nat" where
  "due r d = completions r (trace d) + held_by r d"

definition owes :: "nat \<Rightarrow> device_extension \<Rightarrow> device_extension \<Rightarrow> bool" where
  "owes r d e \<longleftrightarrow> length (Chnl e) = length (Chnl d) \<and> due r e \<le> due r d"

lemma completions_simps:
  "completions r [] = 0" "completions r (es @ fs) = completions r es + completions r fs"
  "completions r (e # es) = (if is_completion r e then 1 else 0) + completions r es"
  by (simp_all add: completions_def)

lemma silent_not_completion: "silent e \<Longrightarrow> \<not> is_completion r e"
  by (cases e) auto

lemma count_update:
  "c < length xs \<Longrightarrow> length (filter Q (xs[c := y])) + (if Q (xs ! c) then 1 else 0) =
     length (filter Q xs) + (if Q y then 1 else 0)"
proof (induction xs arbitrary: c)
  case (Cons x xs)
  then show ?case by (cases c) auto
qed simp

lemma held_by_upd:
  "c < length (Chnl d) \<Longrightarrow> held_by r (upd_chnl c f d) + (if Request (Chnl d ! c) = Some r then 1 else 0) =
     held_by r d + (if Request (f (Chnl d ! c)) = Some r then 1 else 0)"
  using count_update [of c "Chnl d" "\<lambda>x. Request x = Some r" "f (Chnl d ! c)"]
  by (simp add: held_by_def win_simps)

lemma held_by_same:
  assumes "\<And>x. Request (f x) = Request x"
  shows "held_by r (upd_chnl c f d) = held_by r d"
proof (cases "c < length (Chnl d)")
  case True
  then show ?thesis using held_by_upd [OF True, of r f] assms by (simp split: if_splits)
next
  case False
  then show ?thesis by (simp add: held_by_def win_simps list_update_beyond)
qed

lemma due_event: "due r (event e d) = due r d + (if is_completion r e then 1 else 0)"
  by (simp add: due_def held_by_def win_simps completions_simps)

lemma due_upd_same: "(\<And>x. Request (f x) = Request x) \<Longrightarrow> due r (upd_chnl c f d) = due r d"
  by (simp add: due_def held_by_same win_simps)

lemma due_complete:
  assumes "c < length (Chnl d)"
  shows "due r (RiffaCompleteRequest env c st d) = due r d"
proof (cases "Request (Chnl d ! c)")
  case None
  then show ?thesis by (simp add: RiffaCompleteRequest_def)
next
  case (Some q)
  have "held_by r (upd_chnl c (\<lambda>x. x\<lparr>Request := None\<rparr>) (event (UnmarkCancelable q) d)) + (if q = r then 1 else 0) =
      held_by r d"
    using held_by_upd [of c "event (UnmarkCancelable q) d" r "\<lambda>x. x\<lparr>Request := None\<rparr>"] assms Some
    by (simp add: win_simps held_by_def)
  then show ?thesis
    using assms Some
    by (auto simp: RiffaCompleteRequest_def UnmarkRequest_def Let_def due_def win_simps completions_simps held_by_def)
qed

lemma complete_length: "length (Chnl (RiffaCompleteRequest env c st d)) = length (Chnl d)"
  by (auto simp: RiffaCompleteRequest_def UnmarkRequest_def Let_def win_simps split: option.split)

lemma owes_frame: "owner_frame env (owes r)"
proof
  fix c st and d :: device_extension
  assume "c < length (Chnl d)"
  then show "owes r d (RiffaCompleteRequest env c st d)" by (simp add: owes_def due_complete complete_length)
next
  fix g c and d :: device_extension
  assume "keeps_owner g"
  then show "owes r d (upd_chnl c g d)" by (simp add: owes_def keeps_owner_def due_upd_same win_simps)
next
  fix ev and d :: device_extension
  assume "silent ev"
  then show "owes r d (event ev d)" by (simp add: owes_def due_event silent_not_completion win_simps)
next
  fix "is" and d :: device_extension
  show "owes r d (d\<lparr>IntrData := is\<rparr>)" by (simp add: owes_def due_def held_by_def)
qed (auto simp: owes_def due_upd_same win_simps)

interpretation owing: owner_frame env "owes r" for env r
  by (rule owes_frame)

section \<open>Cancellation, timeout, threads\<close>

lemma reachable_one: "step s t \<Longrightarrow> reachable_from step s t"
  by (blast intro: reachable_from.intros)

lemma held_by_release:
  assumes "c < length (Chnl d)" and "Request (Chnl d ! c) = Some q"
  shows "held_by r (upd_chnl c (\<lambda>x. x\<lparr>Request := None\<rparr>) d) + (if q = r then 1 else 0) = held_by r d"
  using held_by_upd [OF assms(1), of r "\<lambda>x. x\<lparr>Request := None\<rparr>"] assms(2) by (simp split: if_splits)

lemma due_complete_cancelled:
  "due r (complete_cancelled q c d) = due r d + (if q = r then 1 else 0)"
  by (simp add: complete_cancelled_def Let_def stop_timer_def due_event due_upd_same)

lemma due_timer:
  assumes "c < length (Chnl d)"
  shows "due r (RiffaEvtTimerFunc env c d) \<le> due r d"
proof (cases "Request (Chnl d ! c)")
  case None
  then show ?thesis by (simp add: RiffaEvtTimerFunc_def)
next
  case (Some q)
  then show ?thesis
    using held_by_release [OF assms Some, of r]
    by (auto simp: RiffaEvtTimerFunc_def try_cancel_def UnmarkRequest_def due_complete_cancelled due_upd_same
        due_event split: if_splits) (auto simp: due_def win_simps)
qed

lemma due_exit: "c < length (Chnl d) \<Longrightarrow> due r (RiffaThreadExit env c d) = due r d"
  by (simp add: RiffaThreadExit_def Let_def due_complete due_upd_same win_simps)

lemma due_enter: "due r (snd (RiffaThreadEnter c d)) = due r d"
  by (simp add: RiffaThreadEnter_def Let_def due_upd_same)

lemma due_release: "(\<And>x. Request (f x) = None) \<Longrightarrow> due r (upd_chnl c f d) \<le> due r d"
  using held_by_upd [of c d r f]
  by (cases "c < length (Chnl d)") (auto simp: due_def win_simps held_by_def list_update_beyond)

lemma due_cancel: "q \<noteq> r \<Longrightarrow> due r (RiffaEvtRequestCancel q d) \<le> due r d"
  by (auto simp: RiffaEvtRequestCancel_def try_cancel_def Let_def due_complete_cancelled due_upd_same due_release)

text \<open>A device with one request on channel 12.\<close>

lemma busy_device_held: "held_by 7 (busy_device\<lparr>Chnl := (replicate 24 (busy_chnl\<lparr>Request := None\<rparr>))[12 := busy_chnl]\<rparr>) = 1"
  using count_update [of 12 "replicate 24 (busy_chnl\<lparr>Request := None\<rparr>)" "\<lambda>x. Request x = Some 7" busy_chnl]
  by (simp add: held_by_def busy_chnl_def)

definition one_request :: device_extension where
  "one_request = busy_device\<lparr>Chnl := (replicate 24 (busy_chnl\<lparr>Request := None\<rparr>))[12 := busy_chnl]\<rparr>"

end
