(* ===== verification/Win_Sound.thy ===== *)
theory Win_Sound
  imports Win_Safe
begin

text \<open>
  Well-formedness of the device state of the Windows driver: the tables have their sizes, requests are
  held by channels of the device only, and the common buffer of each channel has room for the scatter
  gather elements the driver writes.  Every operation keeps it, and none writes past a common buffer.
\<close>

section \<open>Well-formed states\<close>

definition room :: "nat \<Rightarrow> chnl_dir_state \<Rightarrow> bool" where
  "room m x \<longleftrightarrow> 4 * m \<le> length (CommonBuffer x)"

definition device_ok :: "device_extension \<Rightarrow> bool" where
  "device_ok d \<longleftrightarrow> length (Chnl d) = 24 \<and> length (IntrData d) = 24 \<and> NumChnls d \<le> 12 \<and>
     (\<forall>c < 24. Request (Chnl d ! c) \<noteq> None \<longrightarrow> c mod 12 < NumChnls d) \<and>
     (\<forall>c < 24. c mod 12 < NumChnls d \<longrightarrow> room (MaxNumScatterGatherElems d) (Chnl d ! c))"

fun is_overrun :: "wevent \<Rightarrow> bool" where
  "is_overrun (BufferOverrun n) = True"
| "is_overrun e = False"

definition overruns :: "wevent list \<Rightarrow> wevent list" where
  "overruns es = filter is_overrun es"

definition sound :: "device_extension \<Rightarrow> device_extension \<Rightarrow> bool" where
  "sound d e \<longleftrightarrow> length (Chnl e) = length (Chnl d) \<and>
     (device_ok d \<longrightarrow> device_ok e \<and> overruns (trace e) = overruns (trace d) \<and> NumChnls e = NumChnls d)"

lemma overruns_simps [simp]:
  "overruns [] = []" "overruns (es @ fs) = overruns es @ overruns fs"
  "overruns (e # es) = (if is_overrun e then e # overruns es else overruns es)"
  by (simp_all add: overruns_def)

lemma harmless_not_overrun: "harmless e \<Longrightarrow> \<not> is_overrun e"
  by (cases e) simp_all

lemma put_elem_room:
  assumes "i < m" and "4 * m \<le> length (fst be)"
  shows "length (fst (put_elem i a w be)) = length (fst be)" "snd (put_elem i a w be) = snd be"
  using assms by (auto simp: put_elem_def)

lemma sg_loop_room:
  "4 * m \<le> length (fst be) \<Longrightarrow> sg_loop m sa l i pos prov be = (i', pos', prov', buf, es) \<Longrightarrow>
    length buf = length (fst be) \<and> overruns es = overruns (snd be)"
proof (induction m sa l i pos prov be arbitrary: i' pos' prov' buf es rule: sg_loop.induct)
  case (1 m sa l i pos prov be)
  show ?case
    using 1(2,3) 1(1) unfolding sg_loop.simps [of m sa l i pos prov be]
    by (auto simp: put_elem_room split: if_splits option.splits prod.splits)
qed

lemma spill_loop_room:
  "4 * m \<le> length (fst be) \<Longrightarrow> spill_loop m len la i prov be = (i', prov', buf, es) \<Longrightarrow>
    length buf = length (fst be) \<and> overruns es = overruns (snd be)"
proof (induction m len la i prov be arbitrary: i' prov' buf es rule: spill_loop.induct)
  case (1 m len la i prov be)
  show ?case
    using 1(2,3) 1(1) unfolding spill_loop.simps [of m len la i prov be]
    by (auto simp: put_elem_room split: if_splits)
qed

lemma fill_elems_room:
  assumes "room m x" and "fill_elems m la x = (n, pos, prov, buf, es)"
  shows "length buf = length (CommonBuffer x)" "overruns es = []"
proof -
  obtain k p v b fs where l:
    "sg_loop m (SpillAfter x) (SgList x) 0 (SgPos x) (Provided x) (CommonBuffer x, []) = (k, p, v, b, fs)"
    by (metis prod_cases5)
  have 1: "length b = length (CommonBuffer x)" "overruns fs = []"
    using sg_loop_room [OF _ l] assms(1) by (simp_all add: room_def)
  have 2: "length b' = length (CommonBuffer x) \<and> overruns fs' = []"
    if "spill_loop m (Length x) la k v (b, fs) = (k', v', b', fs')" for k' v' b' fs'
    using spill_loop_room [OF _ that] assms(1) 1 by (simp add: room_def)
  show "length buf = length (CommonBuffer x)" "overruns es = []"
    using assms(2) 1 2 by (auto simp: fill_elems_def l split: if_splits prod.splits)
qed

section \<open>The frame\<close>

lemma nth_update_lt: "k < length xs \<Longrightarrow> xs[c := y] ! k = (if k = c then y else xs ! k)"
  by (cases "c = k") simp_all

lemma device_ok_upd:
  assumes "device_ok d" and "\<And>x. length (CommonBuffer (f x)) = length (CommonBuffer x)"
    and "\<And>x. Request (f x) = Request x \<or> Request (f x) = None \<or> c mod 12 < NumChnls d"
  shows "device_ok (upd_chnl c f d)"
  using assms(1) assms(2,3) [of "Chnl d ! c"]
  by (auto simp: device_ok_def room_def win_simps nth_update_lt)

lemma sound_upd:
  assumes "\<And>x. length (CommonBuffer (f x)) = length (CommonBuffer x)"
    and "\<And>x. Request (f x) = Request x \<or> Request (f x) = None \<or> c mod 12 < NumChnls d"
  shows "sound d (upd_chnl c f d)"
  using device_ok_upd [of d f c] assms by (simp add: sound_def win_simps)

lemma device_ok_event: "device_ok (event e d) = device_ok d"
  by (simp add: device_ok_def win_simps)

lemma sound_event: "\<not> is_overrun e \<Longrightarrow> sound d (event e d)"
  by (simp add: sound_def device_ok_event win_simps)

lemma sound_refl: "sound d d"
  by (simp add: sound_def)

lemma sound_trans: "sound d e \<Longrightarrow> sound e f \<Longrightarrow> sound d f"
  by (auto simp: sound_def)

lemma sound_complete: "sound d (RiffaCompleteRequest env c st d)"
proof (cases "Request (Chnl d ! c)")
  case None
  then show ?thesis by (simp add: RiffaCompleteRequest_def sound_refl)
next
  case (Some r)
  let ?d = "event (UnmarkCancelable r) d"
  have 1: "sound d ?d" by (rule sound_event) simp
  have 2: "sound ?d (upd_chnl c (\<lambda>x. x\<lparr>Request := None\<rparr>) ?d)" by (rule sound_upd) simp_all
  show ?thesis
    using Some sound_trans [OF 1 sound_trans [OF 2 sound_event]] 1
    by (simp add: RiffaCompleteRequest_def UnmarkRequest_def Let_def)
qed

lemma device_ok_count: "device_ok d \<Longrightarrow> device_ok (upd_chnl c (\<lambda>x. x\<lparr>ActiveCount := g x\<rparr>) d)"
  by (rule device_ok_upd) simp_all

lemma sound_fill:
  assumes "c < length (Chnl d)" and "Request (Chnl d ! c) \<noteq> None"
    and f: "fill_elems (MaxNumScatterGatherElems d) (SpillBufferBaseLA d) (Chnl d ! c) = (n, pos, prov, buf, es)"
  shows "sound d (upd_chnl c (\<lambda>x. x\<lparr>CommonBuffer := buf, Confirmed := Confirmed x + ProvidedPrev x,
    ProvidedPrev := prov - Provided x, Provided := prov, SgPos := pos\<rparr>) (events es d))"
proof -
  have "length buf = length (CommonBuffer (Chnl d ! c)) \<and> overruns es = []" if "device_ok d"
    using fill_elems_room [OF _ f] that assms(1,2) by (simp add: device_ok_def)
  then show ?thesis
    by (auto simp: sound_def device_ok_def room_def win_simps nth_update_lt)
qed

lemma sound_frame: "dma_frame env sound"
proof
  fix d e f :: device_extension
  assume "sound d e" "sound e f"
  then show "sound d f" by (rule sound_trans)
next
  fix ev and d :: device_extension
  assume "harmless ev"
  then show "sound d (event ev d)" by (simp add: sound_event harmless_not_overrun)
next
  fix g c and d :: device_extension
  assume "keeps_shape g"
  then show "sound d (upd_chnl c g d)" by (simp add: sound_upd keeps_shape_def)
next
  fix c n pos prov buf es and d :: device_extension
  assume "c < length (Chnl d)" "Request (Chnl d ! c) \<noteq> None"
    "fill_elems (MaxNumScatterGatherElems d) (SpillBufferBaseLA d) (Chnl d ! c) = (n, pos, prov, buf, es)"
  then show "sound d (upd_chnl c (\<lambda>x. x\<lparr>CommonBuffer := buf, Confirmed := Confirmed x + ProvidedPrev x,
      ProvidedPrev := prov - Provided x, Provided := prov, SgPos := pos\<rparr>) (events es d))"
    by (rule sound_fill)
next
  fix c and d e :: device_extension
  assume "sound (upd_chnl c (\<lambda>x. x\<lparr>ActiveCount := ActiveCount x + 1\<rparr>) d) e"
  then show "sound d (upd_chnl c (\<lambda>x. x\<lparr>ActiveCount := ActiveCount x - 1\<rparr>) e)"
    using device_ok_count [of d c] device_ok_count [of e c] by (auto simp: sound_def win_simps)
qed (auto simp: sound_refl sound_complete, auto simp: sound_def device_ok_def win_simps upd_intr_def)

section \<open>The frame of the requests\<close>

text \<open>The part of a send or receive before its channel is taken.\<close>

definition taken :: "wdf_request \<Rightarrow> nat \<Rightarrow> device_extension \<Rightarrow> device_extension" where
  "taken rq c d = set_req_chnl rq c (upd_chnl c (\<lambda>x. x\<lparr>InUse := 1\<rparr>) d)"

lemma taken_fields: "length (Chnl (taken rq c d)) = length (Chnl d)" "NumChnls (taken rq c d) = NumChnls d"
  by (simp_all add: taken_def set_req_chnl_def win_simps)

text \<open>
  The functions behind \<open>RiffaEvtIoDeviceControl\<close>, for relations that also respect the acceptance of a
  request by a channel and its completion by the caller (for the requests the relation allows).
\<close>

locale control_frame = dma_frame +
  fixes allowed :: "wdf_request \<Rightarrow> bool"
  assumes P_relax: "(\<And>x. length (CommonBuffer (f x)) = length (CommonBuffer x)) \<Longrightarrow>
      (\<And>x. Request (f x) = Request x) \<Longrightarrow> P d (upd_chnl c f d)"
    and P_begin: "allowed rq \<Longrightarrow> c mod 12 < NumChnls d \<Longrightarrow> (\<And>x. length (CommonBuffer (f x)) = length (CommonBuffer x)) \<Longrightarrow>
      (\<And>x. Request (f x) = Some (handle rq)) \<Longrightarrow> P d (upd_chnl c f d)"
    and P_req: "P d (set_req_chnl rq c d)"
    and P_finish: "allowed rq \<Longrightarrow> P d (finish rq st d)"
begin

lemma then_finish: "allowed rq \<Longrightarrow> P d e \<Longrightarrow> P d (finish rq st e)"
  by (blast intro: P_trans P_finish)

lemma then_relax:
  assumes "P d e" and "\<And>x. length (CommonBuffer (f x)) = length (CommonBuffer x)" and "\<And>x. Request (f x) = Request x"
  shows "P d (upd_chnl c f e)"
  using P_trans [OF assms(1) P_relax [of f e c]] assms(2,3) by blast

lemma P_mark: "allowed rq \<Longrightarrow> P d e \<Longrightarrow> P d (mark_cancelable env' rq e)"
  by (auto simp: mark_cancelable_def Let_def intro!: then_finish then_event)

lemma P_announced:
  assumes c: "c < length (Chnl d)" and rq: "allowed rq"
  shows "P d (start_announced env rq c d)"
proof (cases "recv_plan (Chnl d ! c)")
  case (RecvDma len)
  let ?d = "upd_chnl c (\<lambda>x. x\<lparr>SpillAfter := Capacity x - Offset x\<rparr>) d"
  obtain st e where s: "RiffaStartDmaTransaction env c len (Offset (Chnl ?d ! c)) ReadFromDevice ?d = (st, e)" by fastforce
  have "P d ?d" by (rule P_relax) simp_all
  from P_start_dma [OF c this, of len "Offset (Chnl ?d ! c)" ReadFromDevice] have "P d e" by (simp add: s)
  then show ?thesis using RecvDma s by (simp add: start_announced_def Let_def then_finish [OF rq])
qed (auto simp: start_announced_def c intro!: then_finish [OF rq] P_refl then_program then_relax)

lemma P_taken: "P d (taken rq c d)"
  unfolding taken_def by (rule P_trans [OF P_relax P_req]) simp_all

lemma P_refused: "allowed rq \<Longrightarrow> P d (finish rq st (upd_chnl c (\<lambda>x. x\<lparr>InUse := 1\<rparr>) d))"
  by (rule then_finish, assumption, rule P_relax) simp_all

lemma P_ioctl_send:
  assumes "device_ok d" and rq: "allowed rq"
  shows "P d (RiffaIoctlSend env rq d)"
proof (cases "get_io rq")
  case (Inl st)
  then show ?thesis by (simp add: RiffaIoctlSend_def P_finish rq)
next
  case (Inr io)
  let ?c = "unat (io_Chnl io)"
  show ?thesis
  proof (cases "io_Last io > 1 \<or> ?c \<ge> NumChnls d \<or> InUse (Chnl d ! ?c) = 1")
    case True
    then show ?thesis using Inr by (auto simp: RiffaIoctlSend_def Let_def P_finish P_refused rq)
  next
    case False
    define d1 where "d1 = taken rq ?c d"
    define d2 where "d2 = upd_chnl ?c (begin_send rq io (words_of rq io)) d1"
    obtain st e where s: "RiffaStartDmaTransaction env ?c (push_bit 2 (words_of rq io)) 0 WriteToDevice d2 = (st, e)"
      by fastforce
    have c: "?c < length (Chnl d)" "?c mod 12 < NumChnls d1"
      using False assms by (auto simp: device_ok_def d1_def taken_fields)
    have 1: "P d d1" unfolding d1_def by (rule P_taken)
    have 2: "P d d2" unfolding d2_def
      by (rule P_trans [OF 1 P_begin [OF rq c(2)]]) (simp_all add: begin_send_def)
    have 3: "P d e" using P_start_dma [OF c(1) 2, of "push_bit 2 (words_of rq io)" 0 WriteToDevice] by (simp add: s)
    have "RiffaIoctlSend env rq d =
        (if words_of rq io \<noteq> 0 then if \<not> NT_SUCCESS st then finish rq st e else mark_cancelable env rq e
         else if io_Last io \<noteq> 0
         then finish rq STATUS_SUCCESS (RiffaProgramSend ?c (ucast (words_of rq io)) (io_Offset io) (io_Last io) d1)
         else finish rq STATUS_INVALID_PARAMETER d1)"
      using Inr False s by (simp add: RiffaIoctlSend_def Let_def d1_def d2_def taken_def)
    then show ?thesis using 1 3 by (simp add: then_finish rq P_mark P_send)
  qed
qed

lemma P_ioctl_recv:
  assumes "device_ok d" and rq: "allowed rq"
  shows "P d (RiffaIoctlRecv env rq d)"
proof (cases "get_io rq")
  case (Inl st)
  then show ?thesis by (simp add: RiffaIoctlRecv_def P_finish rq)
next
  case (Inr io)
  let ?c = "12 + unat (io_Chnl io)"
  show ?thesis
  proof (cases "unat (io_Chnl io) \<ge> NumChnls d \<or> InUse (Chnl d ! ?c) = 1")
    case True
    then show ?thesis using Inr by (auto simp: RiffaIoctlRecv_def Let_def P_finish P_refused rq)
  next
    case False
    define d1 where "d1 = taken rq ?c d"
    define d2 where "d2 = upd_chnl ?c (begin_recv rq io (words_of rq io)) d1"
    define d3 where "d3 = upd_chnl ?c (\<lambda>x. x\<lparr>Ready := 1\<rparr>) d2"
    define d4 where "d4 = upd_chnl ?c (\<lambda>x. x\<lparr>Ready := 0\<rparr>) d3"
    have c: "?c < length (Chnl d)" "?c mod 12 < NumChnls d1"
      using False assms by (auto simp: device_ok_def d1_def taken_fields)
    have 1: "P d d1" unfolding d1_def by (rule P_taken)
    have 2: "P d d2" unfolding d2_def
      by (rule P_trans [OF 1 P_begin [OF rq c(2)]]) (simp_all add: begin_recv_def)
    have 3: "P d d3" unfolding d3_def by (rule then_relax [OF 2]) simp_all
    have 4: "P d d4" unfolding d4_def by (rule then_relax [OF 3]) simp_all
    have "P d (start_announced env rq ?c d4)"
      by (rule P_trans [OF 4 P_announced [OF _ rq]]) (use P_length [OF 4] c(1) in simp)
    moreover have "RiffaIoctlRecv env rq d = mark_cancelable env rq
        (if Ready (Chnl d2 ! ?c) = 2 then start_announced env rq ?c d4 else start_timer ?c d3)"
      using Inr False by (simp add: RiffaIoctlRecv_def Let_def d1_def d2_def d3_def d4_def taken_def)
    ultimately show ?thesis using 3 by (simp add: P_mark rq P_start)
  qed
qed

lemma P_reset_chnls:
  assumes "i < 12" and "length (Chnl d) = 24" and "P d e"
  shows "P d (reset_chnls env i e)"
  using assms by (auto simp: reset_chnls_def Let_def stop_timer_def idle_chnl_def
      intro!: then_event then_complete then_relax)

lemma P_reset_fold:
  "list_all (\<lambda>i. i < 12) is \<Longrightarrow> length (Chnl d) = 24 \<Longrightarrow> P d e \<Longrightarrow> P d (fold (reset_chnls env) is e)"
  by (induction "is" arbitrary: e) (simp_all add: P_reset_chnls)

lemma P_ioctl_reset:
  assumes "device_ok d" and rq: "allowed rq"
  shows "P d (RiffaIoctlReset env rq d)"
proof -
  have "P d (fold (reset_chnls env) [0..<NumChnls d] (event (RegRd RIFFA_INFO_REG) d))"
    using assms(1) by (intro P_reset_fold P_event) (auto simp: device_ok_def list_all_iff)
  from then_finish [OF rq P_trans [OF this P_intr]] show ?thesis
    by (simp add: RiffaIoctlReset_def Let_def win_simps)
qed

lemma P_control:
  assumes "device_ok d" and "allowed rq"
  shows "P d (RiffaEvtIoDeviceControl env rq code d)"
proof -
  have "P d (snd (RiffaIoctlList rq d))"
    using assms(2) by (auto simp: RiffaIoctlList_def intro!: P_finish split: sum.split)
  then show ?thesis
    using assms by (simp add: RiffaEvtIoDeviceControl_def P_ioctl_send P_ioctl_recv P_ioctl_reset P_finish)
qed

end

interpretation sound: control_frame env sound "\<lambda>_. True" for env
proof (intro control_frame.intro sound_frame control_frame_axioms.intro)
  fix rq c and d :: device_extension
  show "sound d (set_req_chnl rq c d)" by (auto simp: set_req_chnl_def sound_def device_ok_def)
qed (auto simp: finish_def intro!: sound_event sound_upd)

section \<open>Cancellation, timeout, threads\<close>

lemma sound_chain_upd:
  assumes "sound d e" and "\<And>x. length (CommonBuffer (f x)) = length (CommonBuffer x)"
    and "\<And>x. Request (f x) = Request x \<or> Request (f x) = None"
  shows "sound d (upd_chnl c f e)"
  using sound_trans [OF assms(1) sound_upd [of f c e]] assms(2,3) by blast

lemma sound_chain_complete: "sound d e \<Longrightarrow> sound d (RiffaCompleteRequest env c st e)"
  by (blast intro: sound_trans sound_complete)

lemma sound_chain_event: "sound d e \<Longrightarrow> \<not> is_overrun ev \<Longrightarrow> sound d (event ev e)"
  by (blast intro: sound_trans sound_event)

lemma sound_try_cancel: "sound d (snd (try_cancel c d))"
  by (auto simp: try_cancel_def intro!: sound_upd)

lemma sound_cancelled: "sound d e \<Longrightarrow> sound d (complete_cancelled r c e)"
  by (auto simp: complete_cancelled_def Let_def stop_timer_def intro!: sound_chain_event sound_chain_upd)

lemma sound_cancel: "sound d (RiffaEvtRequestCancel r d)"
  using sound_try_cancel [of d "ReqChnl d r"]
  by (auto simp: RiffaEvtRequestCancel_def Let_def split_def sound_cancelled)

lemma sound_timer: "sound d (RiffaEvtTimerFunc env c d)"
  using sound_try_cancel [of d c]
  by (auto simp: RiffaEvtTimerFunc_def Let_def split_def UnmarkRequest_def intro!: sound_cancelled sound_chain_event
      sound_refl split: option.split)

lemma sound_enter: "sound d (snd (RiffaThreadEnter c d))"
  by (auto simp: RiffaThreadEnter_def Let_def intro!: sound_upd sound_refl)

lemma sound_exit: "sound d (RiffaThreadExit env c d)"
  by (auto simp: RiffaThreadExit_def Let_def intro!: sound_chain_complete sound_upd)

section \<open>Runs of the driver\<close>

text \<open>Everything the system and the device may make the driver do, once the device is prepared.\<close>

inductive driver_step :: "wenv \<Rightarrow> device_extension \<Rightarrow> device_extension \<Rightarrow> bool" for env :: wenv where
  control: "driver_step env d (RiffaEvtIoDeviceControl env rq code d)"
| interrupt: "driver_step env d (snd (RiffaEvtInterruptIsr env d))"
| deferred: "driver_step env d (RiffaEvtInterruptDpc env d)"
| timeout: "c < 24 \<Longrightarrow> driver_step env d (RiffaEvtTimerFunc env c d)"
| cancel: "driver_step env d (RiffaEvtRequestCancel r d)"
| enter: "c < 24 \<Longrightarrow> driver_step env d (snd (RiffaThreadEnter c d))"
| leave: "c < 24 \<Longrightarrow> driver_step env d (RiffaThreadExit env c d)"
| program: "c < 24 \<Longrightarrow> driver_step env d (RiffaEvtProgramDma env c dir sgs d)"

lemma driver_step_sound: "driver_step env d e \<Longrightarrow> device_ok d \<Longrightarrow> sound d e"
proof (induction rule: driver_step.induct)
  case (deferred d)
  then show ?case by (simp add: sound.P_dpc device_ok_def)
next
  case (program c dir sgs d)
  then show ?case by (simp add: sound.P_program_dma sound_refl device_ok_def)
qed (simp_all add: sound.P_control sound.P_isr sound_timer sound_cancel sound_enter sound_exit)

interpretation running: step_system "\<lambda>e. device_ok e \<and> overruns (trace e) = es \<and> NumChnls e = n" "driver_step env"
  "\<lambda>e. device_ok e \<and> overruns (trace e) = es \<and> NumChnls e = n" for es n env
  by unfold_locales (auto dest: driver_step_sound simp: sound_def)

text \<open>C16: A device that is well-formed stays so, whatever requests, interrupts, deferred procedures, timeouts
  and cancellations come and in whatever order, and nothing is written past a common buffer.
\<close>

theorem device_ok_always:
  assumes "device_ok d" and "reachable_from (driver_step env) d e"
  shows "device_ok e \<and> overruns (trace e) = overruns (trace d) \<and> NumChnls e = NumChnls d"
  using running.reachable_inv [of d "overruns (trace d)" "NumChnls d" env e] assms by simp

text \<open>A device with room for two elements starts a transfer, and the request times out.\<close>

theorem device_ok_always_witness:
  "device_ok (RiffaEvtTimerFunc calm_env 12 (RiffaEvtInterruptDpc calm_env one_request)) \<and>
   overruns (trace (RiffaEvtTimerFunc calm_env 12 (RiffaEvtInterruptDpc calm_env one_request))) = []"
proof -
  have ok: "device_ok one_request" "trace one_request = []"
    by (auto simp: device_ok_def one_request_def busy_device_def busy_chnl_def room_def nth_update_lt)
  have dpc: "driver_step calm_env one_request (RiffaEvtInterruptDpc calm_env one_request)"
    by (rule driver_step.deferred)
  have "driver_step calm_env (RiffaEvtInterruptDpc calm_env one_request)
      (RiffaEvtTimerFunc calm_env 12 (RiffaEvtInterruptDpc calm_env one_request))"
    by (rule driver_step.timeout) simp
  from reach_step [of "driver_step calm_env", OF reachable_one [of "driver_step calm_env", OF dpc] this]
  have "reachable_from (driver_step calm_env) one_request
      (RiffaEvtTimerFunc calm_env 12 (RiffaEvtInterruptDpc calm_env one_request))" .
  from device_ok_always [OF ok(1) this] ok(2) show ?thesis by simp
qed

end
