(* ===== verification/Win_Owner.thy ===== *)
theory Win_Owner
  imports Win_Sound
begin

text \<open>
  Who completes a request: in every run of the Windows driver each request is completed at most once,
  however interrupts, timeouts, cancellations and other requests interleave; and the one case in which
  nobody completes it.
\<close>

section \<open>Relations on completions\<close>

lemma owes_begin:
  assumes "\<And>x. Request (f x) = Some q" and "q \<noteq> r"
  shows "owes r d (upd_chnl c f d)"
  using held_by_upd [of c d r f] assms
  by (cases "c < length (Chnl d)") (auto simp: owes_def due_def win_simps held_by_def list_update_beyond)

interpretation owed: control_frame env "owes r" "\<lambda>rq. handle rq \<noteq> r" for env r
proof (intro control_frame.intro owing.dma_frame_axioms control_frame_axioms.intro)
  fix rq c and d :: device_extension
  show "owes r d (set_req_chnl rq c d)" by (simp add: owes_def due_def held_by_def set_req_chnl_def)
qed (auto simp: owes_begin, auto simp: owes_def finish_def due_event due_upd_same upd_chnl_fields(2) event_fields(2))

definition unfinished :: "wenv \<Rightarrow> nat \<Rightarrow> device_extension \<Rightarrow> device_extension \<Rightarrow> bool" where
  "unfinished env r d e \<longleftrightarrow> length (Chnl e) = length (Chnl d) \<and>
     ((\<forall>n. unmark_answer env n r = STATUS_CANCELLED) \<longrightarrow>
        completions r (trace e) = completions r (trace d))"

lemma unfinished_frame: "owner_frame env (unfinished env r)"
proof
  fix ev and d :: device_extension
  assume "silent ev"
  then show "unfinished env r d (event ev d)"
    by (simp add: unfinished_def win_simps completions_simps silent_not_completion)
next
  fix c st and d :: device_extension
  show "unfinished env r d (RiffaCompleteRequest env c st d)"
    by (auto simp: unfinished_def RiffaCompleteRequest_def UnmarkRequest_def Let_def win_simps completions_simps
        split: option.split)
qed (auto simp: unfinished_def win_simps)

interpretation unfinishing: owner_frame env "unfinished env r" for env r
  by (rule unfinished_frame)

interpretation cancelled: control_frame env "unfinished env r" "\<lambda>rq. handle rq \<noteq> r" for env r
  by (intro control_frame.intro unfinishing.dma_frame_axioms control_frame_axioms.intro)
    (auto simp: unfinished_def finish_def win_simps completions_simps set_req_chnl_def)

lemma unfinished_timer: "unfinished env r d (RiffaEvtTimerFunc env c d)"
  by (auto simp: unfinished_def RiffaEvtTimerFunc_def try_cancel_def UnmarkRequest_def complete_cancelled_def
      stop_timer_def Let_def win_simps completions_simps split: option.split)

lemma unfinished_cancel: "q \<noteq> r \<Longrightarrow> unfinished env r d (RiffaEvtRequestCancel q d)"
  by (auto simp: unfinished_def RiffaEvtRequestCancel_def try_cancel_def complete_cancelled_def
      stop_timer_def Let_def win_simps completions_simps)

lemma unfinished_exit: "unfinished env r d (RiffaThreadExit env c d)"
  by (auto simp: unfinished_def RiffaThreadExit_def RiffaCompleteRequest_def UnmarkRequest_def Let_def win_simps
      completions_simps split: option.split)

lemma unfinished_enter: "unfinished env r d (snd (RiffaThreadEnter c d))"
  by (simp add: RiffaThreadEnter_def unfinished_def Let_def win_simps)

section \<open>Runs\<close>

text \<open>
  The steps after request \<open>r\<close> was issued.  \<open>S\<close> holds the requests whose cancellation the framework has
  decided on and not yet delivered; it calls \<open>RiffaEvtRequestCancel\<close> once for each.
\<close>

inductive owner_step ::
  "wenv \<Rightarrow> nat \<Rightarrow> nat set \<times> device_extension \<Rightarrow> nat set \<times> device_extension \<Rightarrow> bool" for env :: wenv and r :: nat where
  control: "handle rq \<noteq> r \<Longrightarrow> owner_step env r (S, d) (S, RiffaEvtIoDeviceControl env rq code d)"
| interrupt: "owner_step env r (S, d) (S, snd (RiffaEvtInterruptIsr env d))"
| deferred: "owner_step env r (S, d) (S, RiffaEvtInterruptDpc env d)"
| program: "c < 24 \<Longrightarrow> owner_step env r (S, d) (S, RiffaEvtProgramDma env c dir sgs d)"
| timeout: "c < 24 \<Longrightarrow> owner_step env r (S, d) (S, RiffaEvtTimerFunc env c d)"
| enter: "c < 24 \<Longrightarrow> owner_step env r (S, d) (S, snd (RiffaThreadEnter c d))"
| leave: "c < 24 \<Longrightarrow> owner_step env r (S, d) (S, RiffaThreadExit env c d)"
| cancel: "q \<in> S \<Longrightarrow> owner_step env r (S, d) (S - {q}, RiffaEvtRequestCancel q d)"

inductive_cases owner_stepE: "owner_step env r (S, d) (T, e)"

lemma owner_driver_step: "owner_step env r (S, d) (T, e) \<Longrightarrow> driver_step env d e \<and> T \<subseteq> S"
  by (erule owner_stepE) (auto intro: driver_step.intros)

lemma owner_device_ok: "owner_step env r (S, d) (T, e) \<Longrightarrow> device_ok d \<Longrightarrow> device_ok e"
  using owner_driver_step driver_step_sound by (fastforce simp: sound_def)

lemma due_step:
  assumes "owner_step env r (S, d) (T, e)" and "device_ok d" and "r \<notin> S"
  shows "due r e \<le> due r d"
proof -
  have l: "length (Chnl d) = 24" "NumChnls d \<le> 12" using assms(2) by (simp_all add: device_ok_def)
  have o: "owes r d e \<Longrightarrow> due r e \<le> due r d" by (simp add: owes_def)
  show ?thesis
    using assms(1)
  proof cases
    case (control rq code)
    then show ?thesis using owed.P_control [OF assms(2), of rq r env code] o by simp
  next
    case interrupt
    then show ?thesis using owing.P_isr [of r d env] o by simp
  next
    case deferred
    then show ?thesis using owing.P_dpc [OF l, of r env] o by simp
  next
    case (program c dir sgs)
    then show ?thesis using owing.P_program_dma [of c d r d env dir sgs] l(1) o by (simp add: owing.P_refl)
  next
    case (timeout c)
    then show ?thesis using due_timer [of c d r env] l(1) by simp
  next
    case (enter c)
    then show ?thesis by (simp add: due_enter)
  next
    case (leave c)
    then show ?thesis using l(1) by (simp add: due_exit)
  next
    case (cancel q)
    then have "q \<noteq> r" using assms(3) by auto
    then show ?thesis using cancel due_cancel [of q r d] by simp
  qed
qed

text \<open>A request whose cancellation was decided on is completed by nobody else.\<close>

lemma cancelled_step:
  assumes "owner_step env r (S, d) (T, e)" and "device_ok d" and "\<forall>n. unmark_answer env n r = STATUS_CANCELLED"
  shows "r \<in> S \<and> r \<notin> T \<and> completions r (trace e) \<le> completions r (trace d) + 1 \<or>
    (r \<in> T \<longleftrightarrow> r \<in> S) \<and> completions r (trace e) = completions r (trace d)"
proof -
  have l: "length (Chnl d) = 24" "NumChnls d \<le> 12" using assms(2) by (simp_all add: device_ok_def)
  have u: "unfinished env r d e \<Longrightarrow> completions r (trace e) = completions r (trace d)"
    using assms(3) by (simp add: unfinished_def)
  show ?thesis
    using assms(1)
  proof cases
    case (control rq code)
    then show ?thesis using cancelled.P_control [OF assms(2), of rq r env code] u by simp
  next
    case interrupt
    then show ?thesis using unfinishing.P_isr [of env r d] u by simp
  next
    case deferred
    then show ?thesis using unfinishing.P_dpc [OF l, of env r] u by simp
  next
    case (program c dir sgs)
    then show ?thesis using unfinishing.P_program_dma [of c d env r d dir sgs] l(1) u by (simp add: unfinishing.P_refl)
  next
    case (timeout c)
    then show ?thesis using unfinished_timer [of env r d c] u by simp
  next
    case (enter c)
    then show ?thesis using unfinished_enter [of env r d c] u by simp
  next
    case (leave c)
    then show ?thesis using unfinished_exit [of env r d c] u by simp
  next
    case (cancel q)
    show ?thesis
    proof (cases "q = r")
      case True
      then show ?thesis using cancel
        by (auto simp: RiffaEvtRequestCancel_def try_cancel_def complete_cancelled_def stop_timer_def Let_def
            win_simps completions_simps)
    next
      case False
      then show ?thesis using cancel unfinished_cancel [OF False, of env d] u by auto
    qed
  qed
qed

text \<open>What a request may still cost: one completion by its cancellation, or as many as hold it.\<close>

definition open_completions :: "nat \<Rightarrow> nat set \<Rightarrow> nat set \<times> device_extension \<Rightarrow> nat" where
  "open_completions r S x =
     completions r (trace (snd x)) + (if r \<in> S then if r \<in> fst x then 1 else 0 else held_by r (snd x))"

interpretation owners: step_system
  "\<lambda>x. device_ok (snd x) \<and> fst x = S \<and> (\<forall>q \<in> S. \<forall>n. unmark_answer env n q = STATUS_CANCELLED) \<and> open_completions r S x \<le> b"
  "owner_step env r"
  "\<lambda>x. device_ok (snd x) \<and> fst x \<subseteq> S \<and> (\<forall>q \<in> S. \<forall>n. unmark_answer env n q = STATUS_CANCELLED) \<and> open_completions r S x \<le> b"
  for S env r b
proof unfold_locales
  fix x y
  assume s: "owner_step env r x y" and i: "device_ok (snd x) \<and> fst x \<subseteq> S \<and>
    (\<forall>q \<in> S. \<forall>n. unmark_answer env n q = STATUS_CANCELLED) \<and> open_completions r S x \<le> b"
  obtain U d T e where x: "x = (U, d)" "y = (T, e)" by (metis surj_pair)
  have "open_completions r S y \<le> open_completions r S x"
    using cancelled_step [OF s [unfolded x]] due_step [OF s [unfolded x]] i x
    by (cases "r \<in> S") (auto simp: open_completions_def due_def)
  then show "device_ok (snd y) \<and> fst y \<subseteq> S \<and>
    (\<forall>q \<in> S. \<forall>n. unmark_answer env n q = STATUS_CANCELLED) \<and> open_completions r S y \<le> b"
    using i x s owner_device_ok owner_driver_step by fastforce
qed auto


text \<open>A timeout and a cancellation race for a request while its transfer goes on.\<close>

definition cancelled_env :: wenv where
  "cancelled_env = calm_env\<lparr>unmark_answer := (\<lambda>_ _. STATUS_CANCELLED)\<rparr>"

lemma one_request_ok: "device_ok one_request"
  by (auto simp: device_ok_def one_request_def busy_device_def busy_chnl_def room_def nth_update_lt)


section \<open>Cancellation in flight\<close>

interpretation losing: step_system
  "\<lambda>x. device_ok (snd x) \<and> r \<notin> fst x \<and> (\<forall>n. unmark_answer env n r = STATUS_CANCELLED) \<and> completions r (trace (snd x)) = b"
  "owner_step env r"
  "\<lambda>x. device_ok (snd x) \<and> r \<notin> fst x \<and> (\<forall>n. unmark_answer env n r = STATUS_CANCELLED) \<and> completions r (trace (snd x)) = b"
  for env r b
proof unfold_locales
  fix x y
  assume s: "owner_step env r x y" and i: "device_ok (snd x) \<and> r \<notin> fst x \<and>
    (\<forall>n. unmark_answer env n r = STATUS_CANCELLED) \<and> completions r (trace (snd x)) = b"
  obtain U d T e where x: "x = (U, d)" "y = (T, e)" by (metis surj_pair)
  show "device_ok (snd y) \<and> r \<notin> fst y \<and>
    (\<forall>n. unmark_answer env n r = STATUS_CANCELLED) \<and> completions r (trace (snd y)) = b"
    using cancelled_step [OF s [unfolded x]] owner_device_ok [OF s [unfolded x]] i x by auto
qed simp

text \<open>C24: When the user cancels a request while a thread is inside its channel, the cancellation is left to
  the last thread; but that thread asks \<open>WdfRequestUnmarkCancelable\<close>, is told that the request is
  cancelled, and leaves it: the request is never completed.
\<close>

theorem cancel_in_flight_lost:
  assumes "device_ok d" and "ActiveCount (Chnl d ! ReqChnl d r) \<noteq> 0" and "r \<notin> S"
    and "\<forall>n. unmark_answer env n r = STATUS_CANCELLED"
    and "reachable_from (owner_step env r) (S, RiffaEvtRequestCancel r d) (T, e)"
  shows "completions r (trace e) = completions r (trace d)"
proof -
  let ?d = "RiffaEvtRequestCancel r d"
  have "device_ok ?d" using sound_cancel [of d r] assms(1) by (simp add: sound_def)
  moreover have "completions r (trace ?d) = completions r (trace d)"
    using assms(2) by (simp add: RiffaEvtRequestCancel_def try_cancel_def Let_def win_simps)
  ultimately show ?thesis
    using losing.reachable_inv [of "(S, ?d)" r env "completions r (trace d)" "(T, e)"] assms(3-5) by simp
qed

theorem cancel_in_flight_lost_witness:
  "completions 7 (trace (RiffaThreadExit cancelled_env 12
     (RiffaEvtRequestCancel 7 (snd (RiffaThreadEnter 12 one_request))))) = 0"
proof -
  let ?d = "snd (RiffaThreadEnter 12 one_request)"
  have d: "ReqChnl ?d 7 = 12" "ActiveCount (Chnl ?d ! 12) = 1" "trace ?d = []"
    by (simp_all add: RiffaThreadEnter_def Let_def one_request_def busy_device_def busy_chnl_def win_simps)
  have ok: "device_ok ?d" using sound_enter [of one_request 12] one_request_ok by (simp add: sound_def)
  have "owner_step cancelled_env 7 ({}, RiffaEvtRequestCancel 7 ?d)
      ({}, RiffaThreadExit cancelled_env 12 (RiffaEvtRequestCancel 7 ?d))"
    by (rule owner_step.leave) simp
  from cancel_in_flight_lost [OF ok _ _ _ reachable_one [of "owner_step cancelled_env 7", OF this]] show ?thesis
    using d by (simp add: cancelled_env_def completions_simps)
qed

end
