(* ===== verification/Win_Xfer.thy ===== *)
theory Win_Xfer
  imports Win_Safe
begin

text \<open>
  Whole transfers of the Windows driver: what a transaction in flight keeps and how it ends, the two
  orders in which a receive and its announcement can come, reset, and the paths on which the channel is
  left in use.
\<close>

section \<open>The deferred procedure for one channel\<close>

definition signalled :: "nat \<Rightarrow> intr_chnl_dir_data \<Rightarrow> device_extension \<Rightarrow> device_extension" where
  "signalled c f d = d\<lparr>IntrData := (replicate 24 no_intr)[c := f]\<rparr>"

definition calm :: "device_extension \<Rightarrow> device_extension" where
  "calm d = d\<lparr>IntrData := replicate 24 no_intr\<rparr>"

lemma calm_fields [win_simps]:
  "Chnl (calm d) = Chnl d" "trace (calm d) = trace d" "NumChnls (calm d) = NumChnls d"
  "MaxNumScatterGatherElems (calm d) = MaxNumScatterGatherElems d" "SpillBufferBaseLA (calm d) = SpillBufferBaseLA d"
  by (simp_all add: calm_def)

lemma fold_idle: "(\<And>k x. k \<in> set ks \<Longrightarrow> g k x = x) \<Longrightarrow> fold g ks y = y"
  by (induction ks arbitrary: y) simp_all

lemma fold_only:
  assumes "\<And>k x. k \<in> set ks \<Longrightarrow> k \<noteq> c \<Longrightarrow> g k x = x" and "distinct ks" and "c \<in> set ks"
  shows "fold g ks d = g c d"
  using assms
proof (induction ks arbitrary: d)
  case (Cons k ks)
  have idle: "fold g ks y = y" if "c \<notin> set ks" for y
    using that Cons.prems(1) by (intro fold_idle) (metis list.set_intros(2))
  show ?case
  proof (cases "k = c")
    case True
    then show ?thesis using Cons.prems(2) idle by simp
  next
    case False
    then show ?thesis using Cons by auto
  qed
qed simp

lemma dpc_chnl_idle: "intr ! k = no_intr \<Longrightarrow> intr ! (12 + k) = no_intr \<Longrightarrow> dpc_chnl env intr k d = d"
  by (simp add: dpc_chnl_def no_intr_def)

lemma dpc_signalled_send:
  assumes "c < NumChnls d" and "NumChnls d \<le> 12" and "\<not> NewTxn f"
  shows "RiffaEvtInterruptDpc env (signalled c f d) =
    (let e = (if SgRead f then RiffaProgramScatterGather env c (calm d) else calm d)
     in if Done f then transfer_done env c (WIN_CHNL_REG c RIFFA_RX_TNFR_LEN_REG) e else e)"
proof -
  let ?i = "(replicate 24 no_intr)[c := f]"
  have "RiffaEvtInterruptDpc env (signalled c f d) = fold (dpc_chnl env ?i) [0..<NumChnls d] (calm d)"
    by (simp add: RiffaEvtInterruptDpc_def signalled_def calm_def)
  also have "\<dots> = dpc_chnl env ?i c (calm d)"
    by (rule fold_only) (use assms in \<open>auto simp: dpc_chnl_idle\<close>)
  finally show ?thesis using assms by (simp add: dpc_chnl_def no_intr_def Let_def)
qed

lemma dpc_signalled_recv:
  assumes "c < NumChnls d" and "NumChnls d \<le> 12"
  shows "RiffaEvtInterruptDpc env (signalled (12 + c) f d) =
    (let e = (if SgRead f then RiffaProgramScatterGather env (12 + c) (calm d) else calm d);
         e = (if Done f then transfer_done env (12 + c) (WIN_CHNL_REG c RIFFA_TX_TNFR_LEN_REG) e else e)
     in if NewTxn f then new_recv_txn env (12 + c) f e else e)"
proof -
  let ?i = "(replicate 24 no_intr)[12 + c := f]"
  have "RiffaEvtInterruptDpc env (signalled (12 + c) f d) = fold (dpc_chnl env ?i) [0..<NumChnls d] (calm d)"
    by (simp add: RiffaEvtInterruptDpc_def signalled_def calm_def)
  also have "\<dots> = dpc_chnl env ?i c (calm d)"
    by (rule fold_only) (use assms in \<open>auto simp: dpc_chnl_idle\<close>)
  finally show ?thesis using assms by (simp add: dpc_chnl_def no_intr_def Let_def)
qed

section \<open>Starting a transaction\<close>

definition with_list :: "sg_list \<Rightarrow> chnl_dir_state \<Rightarrow> chnl_dir_state" where
  "with_list sgs x = x\<lparr>SgList := Some sgs, SgPos := 0\<rparr>"

definition send_log :: "nat \<Rightarrow> chnl_dir_state \<Rightarrow> wevent list" where
  "send_log c x =
     [RegWr (WIN_CHNL_REG c RIFFA_RX_OFFLAST_REG)
        (push_bit 1 (ucast (drop_bit 2 (Offset x))) OR (Last x AND 0x1)),
      RegWr (WIN_CHNL_REG c RIFFA_RX_LEN_REG) (ucast (drop_bit 2 (Length x)))]"

definition start_log :: "nat \<Rightarrow> wdf_dma_direction \<Rightarrow> chnl_dir_state \<Rightarrow> wevent list" where
  "start_log c dir x = (if dir = WriteToDevice then DmaBytes c # send_log c x else [])"

lemma start_dma_effect:
  assumes c: "c < length (Chnl d)" "dir = WriteToDevice \<Longrightarrow> c < 12" and rq: "Request (Chnl d ! c) = Some r"
    and nc: "\<not> (ActiveCount (Chnl d ! c) = 0 \<and> Cancel (Chnl d ! c) = 1)"
    and ok: "fill_ok (MaxNumScatterGatherElems d) (with_list sgs (Chnl d ! c))"
    and env: "\<And>n. mdl_answer env n = Inr (v, cnt)" "\<And>n. NT_SUCCESS (init_answer env n)"
      "\<And>n. exec_answer env n = ExecNow sgs" "\<And>n. bytes_answer env n = 0"
    and n: "n = min (MaxNumScatterGatherElems d) (length (todo (SpillBufferBaseLA d) (with_list sgs (Chnl d ! c))))"
    and f: "fill_elems (MaxNumScatterGatherElems d) (SpillBufferBaseLA d) (with_list sgs (Chnl d ! c)) =
      (n, pos, prov, buf, [])"
  shows "RiffaStartDmaTransaction env c len off dir d =
    (STATUS_SUCCESS, events
      ([RetrieveMdl (Some r), DmaInitialize c dir (v + 4 * off) ((if len < cnt then len else cnt) - off), DmaExecute c] @
       start_log c dir (Chnl d ! c) @
       TimerStop c # announce_log c (Chnl d ! c) n prov @ timer_log c (Chnl d ! c))
      (upd_chnl c (\<lambda>x. filled n pos prov buf (with_list sgs x)) d))"
proof -
  let ?x = "Chnl d ! c"
  define es where "es = [RetrieveMdl (Some r), DmaInitialize c dir (v + 4 * off)
      ((if len < cnt then len else cnt) - off), DmaExecute c] @ start_log c dir ?x"
  define d1 where "d1 = events es (upd_chnl c (with_list sgs) d)"
  have x1: "Chnl d1 ! c = with_list sgs ?x" using c by (simp add: d1_def win_simps)
  have len: "c < length (Chnl d1)" "MaxNumScatterGatherElems d1 = MaxNumScatterGatherElems d"
    "SpillBufferBaseLA d1 = SpillBufferBaseLA d" using c by (simp_all add: d1_def win_simps)
  have fields: "Request (with_list sgs ?x) = Some r" "ActiveCount (with_list sgs ?x) = ActiveCount ?x"
    "Cancel (with_list sgs ?x) = Cancel ?x" using rq by (simp_all add: with_list_def)
  have logs: "announce_log c (with_list sgs ?x) n prov = announce_log c ?x n prov"
    "timer_log c (with_list sgs ?x) = timer_log c ?x"
    by (simp_all add: with_list_def announce_log_def timer_log_def)
  have p: "RiffaProgramScatterGather env c d1 =
      events (TimerStop c # announce_log c ?x n prov @ timer_log c ?x) (upd_chnl c (filled n pos prov buf) d1)"
    using program_sg_active [OF len(1), of r n pos prov buf env] fields nc f by (simp add: x1 len logs)
  have "RiffaStartDmaTransaction env c len off dir d = (STATUS_SUCCESS, RiffaProgramScatterGather env c d1)"
    using rq c
    by (auto simp: RiffaStartDmaTransaction_def RiffaEvtProgramDma_def env Let_def d1_def es_def event_events events_simps
        start_log_def send_log_def RiffaProgramSend_def WRITE_REGISTER_def win_simps events_upd with_list_def [abs_def])
  then show ?thesis unfolding p using c
    by (simp add: d1_def es_def events_upd events_simps win_simps)
qed

section \<open>A request in flight\<close>

text \<open>
  What a granting framework answers: the buffer of the user, and a DMA transaction that starts at once
  with a scatter gather list.
\<close>

definition grants :: "wenv \<Rightarrow> u64 \<Rightarrow> u64 \<Rightarrow> sg_list \<Rightarrow> bool" where
  "grants env v cnt sgs \<longleftrightarrow> (\<forall>n. mdl_answer env n = Inr (v, cnt) \<and> NT_SUCCESS (init_answer env n) \<and>
     exec_answer env n = ExecNow sgs \<and> bytes_answer env n = 0 \<and> NT_SUCCESS (mark_answer env n))"

text \<open>
  A request in flight: the channel holds it, nobody is inside, nobody cancelled it, and its earlier
  transactions confirmed \<open>p\<close> bytes.
\<close>

definition in_flight :: "nat \<Rightarrow> nat \<Rightarrow> u64 \<Rightarrow> device_extension \<Rightarrow> bool" where
  "in_flight c h p d \<longleftrightarrow> length (Chnl d) = 24 \<and>
     (let x = Chnl d ! c in Request x = Some h \<and> Cancel x = 0 \<and> ActiveCount x = 0 \<and> ConfirmedPrev x = p \<and>
        fill_ok (MaxNumScatterGatherElems d) x)"

definition finished :: "nat \<Rightarrow> device_extension \<Rightarrow> wevent list" where
  "finished h d = filter (is_completion h) (trace d)"

lemma finished_events: "finished h (events es d) = finished h d @ filter (is_completion h) es"
  by (simp add: finished_def win_simps)

lemma finished_upd: "finished h (upd_chnl c f d) = finished h d"
  by (simp add: finished_def win_simps)

lemma logs_silent:
  "filter (is_completion h) (announce_log c x n prov) = []" "filter (is_completion h) (timer_log c x) = []"
  "filter (is_completion h) (start_log c dir x) = []"
  by (auto simp: announce_log_def timer_log_def start_log_def send_log_def)

lemma unat_words: "unat w < 2 ^ 32 \<Longrightarrow> unat (push_bit 2 w :: u64) = 4 * unat w"
  by (simp add: push_bit_eq_mult unat_word_ariths)

lemma words_of_bound: "unat (words_of rq io) < 2 ^ 32"
  using unat_lt32 [of "io_Length io"] by (auto simp: words_of_def not_less word_le_nat_alt unat_ucast_up)

text \<open>What the transfer of the elements leaves alone.\<close>

definition stays :: "nat \<Rightarrow> device_extension \<Rightarrow> device_extension \<Rightarrow> bool" where
  "stays c d e \<longleftrightarrow> NumChnls e = NumChnls d \<and> MaxNumScatterGatherElems e = MaxNumScatterGatherElems d \<and>
     (let x = Chnl d ! c; y = Chnl e ! c in InUse y = InUse x \<and> Ready y = Ready x \<and> Last y = Last x \<and>
        Capacity y = Capacity x \<and> length (CommonBuffer y) = length (CommonBuffer x))"

lemma stays_trans: "stays c d e \<Longrightarrow> stays c e f \<Longrightarrow> stays c d f"
  by (simp add: stays_def Let_def)

lemma stays_calm: "stays c d (calm d)"
  by (simp add: stays_def win_simps)

lemma program_keeps_flight:
  assumes c: "c < 24" and d: "in_flight c h p d"
  shows "in_flight c h p (RiffaProgramScatterGather env c d)" "stays c d (RiffaProgramScatterGather env c d)"
    "finished h (RiffaProgramScatterGather env c d) = finished h d"
proof -
  let ?x = "Chnl d ! c"
  have x: "c < length (Chnl d)" "Request ?x = Some h" "\<not> (ActiveCount ?x = 0 \<and> Cancel ?x = 1)"
    "fill_ok (MaxNumScatterGatherElems d) ?x" using assms by (simp_all add: in_flight_def Let_def)
  obtain n pos prov buf where p:
    "RiffaProgramScatterGather env c d = events (TimerStop c # announce_log c ?x n prov @ timer_log c ?x)
        (upd_chnl c (filled n pos prov buf) d)"
    "length buf = length (CommonBuffer ?x)" "unat (Provided ?x) \<le> unat prov"
    using program_sg_fill [OF x refl, of env] by fastforce
  have "fill_ok (MaxNumScatterGatherElems d) (filled n pos prov buf ?x)"
    using fill_ok_filled [OF x(4) p(2)] p(3) by (simp add: word_le_nat_alt)
  then show "in_flight c h p (RiffaProgramScatterGather env c d)"
    using d c unfolding p(1) by (simp add: in_flight_def win_simps Let_def) (simp add: filled_def)
  show "stays c d (RiffaProgramScatterGather env c d)"
    unfolding p(1) using x(1) p(2) by (simp add: stays_def win_simps filled_def)
  show "finished h (RiffaProgramScatterGather env c d) = finished h d"
    unfolding p(1) by (simp add: finished_events logs_silent finished_upd win_simps)
qed

lemma calm_flight: "in_flight c h p (calm d) = in_flight c h p d" "finished h (calm d) = finished h d"
  by (simp_all add: in_flight_def win_simps finished_def)

fun win_run :: "wenv \<Rightarrow> (nat \<times> intr_chnl_dir_data) list \<Rightarrow> device_extension \<Rightarrow> device_extension" where
  "win_run env [] d = d"
| "win_run env ((c, f) # is) d = win_run env is (RiffaEvtInterruptDpc env (signalled c f d))"

definition sg_read :: intr_chnl_dir_data where "sg_read = no_intr\<lparr>SgRead := True\<rparr>"
definition txn_done :: intr_chnl_dir_data where "txn_done = no_intr\<lparr>Done := True\<rparr>"

lemma win_run_append: "win_run env (is @ js) d = win_run env js (win_run env is d)"
  by (induction "is" arbitrary: d) auto

text \<open>A channel of the device, sending (below 12) or receiving.\<close>

definition used_chnl :: "nat \<Rightarrow> device_extension \<Rightarrow> bool" where
  "used_chnl c d \<longleftrightarrow> NumChnls d \<le> 12 \<and> (c < NumChnls d \<or> (\<exists>i < NumChnls d. c = 12 + i))"

definition done_reg :: "nat \<Rightarrow> nat" where
  "done_reg c =
     (if c < 12 then WIN_CHNL_REG c RIFFA_RX_TNFR_LEN_REG else WIN_CHNL_REG (c - 12) RIFFA_TX_TNFR_LEN_REG)"

lemma used_bound: "used_chnl c d \<Longrightarrow> c < 24"
  by (auto simp: used_chnl_def)

lemma used_stays: "used_chnl c d \<Longrightarrow> stays c d e \<Longrightarrow> used_chnl c e"
  by (simp add: used_chnl_def stays_def)

lemma dpc_sg_read:
  "used_chnl c d \<Longrightarrow> RiffaEvtInterruptDpc env (signalled c sg_read d) = RiffaProgramScatterGather env c (calm d)"
  by (auto simp: used_chnl_def dpc_signalled_send dpc_signalled_recv sg_read_def no_intr_def)

lemma dpc_txn_done:
  "used_chnl c d \<Longrightarrow> RiffaEvtInterruptDpc env (signalled c txn_done d) = transfer_done env c (done_reg c) (calm d)"
  by (auto simp: used_chnl_def dpc_signalled_send dpc_signalled_recv txn_done_def no_intr_def done_reg_def)

lemma reads_keep_flight:
  assumes "used_chnl c d" and "in_flight c h p d"
  shows "let e = win_run env (replicate k (c, sg_read)) d in
    in_flight c h p e \<and> stays c d e \<and> finished h e = finished h d"
  using assms
proof (induction k arbitrary: d)
  case 0
  then show ?case by (simp add: stays_def)
next
  case (Suc k)
  let ?d1 = "RiffaProgramScatterGather env c (calm d)"
  have fl: "in_flight c h p (calm d)" using Suc.prems(2) by (simp add: calm_flight)
  note K = program_keeps_flight [OF used_bound [OF Suc.prems(1)] fl, of env]
  have s: "stays c d ?d1" by (rule stays_trans [OF stays_calm K(2)])
  show ?case
    using Suc.IH [OF used_stays [OF Suc.prems(1) s] K(1)] K(3) stays_trans [OF s]
    by (simp add: dpc_sg_read [OF Suc.prems(1)] calm_flight Let_def)
qed

lemma drop_push_words: "drop_bit 2 (push_bit 2 (ucast (w :: u32)) :: u64) = ucast w"
  by (rule bit_eqI) (auto simp: bit_simps dest: bit_imp_le_length)

lemma done_effect:
  assumes c: "c < 24" and d: "in_flight c h p d" and last: "c < 12 \<or> Last (Chnl d ! c) \<noteq> 0"
    and env: "completion_answer env (length (trace d)) = TxnComplete st"
      "\<And>n. unmark_answer env n h \<noteq> STATUS_CANCELLED"
    and t_def: "t = reg_value env (Suc (length (trace d))) reg"
  shows "transfer_done env c reg d = events [DmaCompleted c, RegRd reg, TimerStop c, DmaRelease c, UnmarkCancelable h,
        Completed h st (drop_bit 2 (p + push_bit 2 (ucast t)))]
      (upd_chnl c (\<lambda>x. x\<lparr>ReqdDone := 0, Confirmed := push_bit 2 (ucast t), InUse := 0, Request := None\<rparr>) d)"
proof -
  have x: "length (Chnl d) = 24" "Request (Chnl d ! c) = Some h" "Cancel (Chnl d ! c) = 0"
    "ActiveCount (Chnl d ! c) = 0" "ConfirmedPrev (Chnl d ! c) = p"
    using d by (simp_all add: in_flight_def Let_def)
  show ?thesis
    using c x env last
    by (auto simp: t_def transfer_done_def dma_completed_def Let_def READ_REGISTER_def event_events events_simps win_simps
        RiffaTransactionComplete_def stop_timer_def RiffaThreadEnter_def RiffaCompleteRequest_def UnmarkRequest_def
        RiffaThreadExit_def events_upd)
qed

lemma done_completes:
  assumes "c < 24" and "in_flight c h p d" and "c < 12 \<or> Last (Chnl d ! c) \<noteq> 0"
    and "completion_answer env (length (trace d)) = TxnComplete st"
      "\<And>n. unmark_answer env n h \<noteq> STATUS_CANCELLED"
    and "t = reg_value env (Suc (length (trace d))) reg" and e_def: "e = transfer_done env c reg d"
  shows "finished h e = finished h d @ [Completed h st (drop_bit 2 (p + push_bit 2 (ucast t)))] \<and>
    InUse (Chnl e ! c) = 0 \<and> Request (Chnl e ! c) = None \<and> ActiveCount (Chnl e ! c) = 0 \<and>
    Suc (length (trace d)) < length (trace e) \<and> trace e ! Suc (length (trace d)) = RegRd reg"
proof -
  have "length (Chnl d) = 24" "ActiveCount (Chnl d ! c) = 0" using assms(2) by (simp_all add: in_flight_def Let_def)
  then show ?thesis
    using assms(1) by (simp add: e_def done_effect [OF assms(1-6)] finished_events finished_upd win_simps nth_append)
qed

text \<open>The end of a transaction that is not the last: the channel waits for the next announcement.\<close>

lemma done_waits:
  assumes c: "c < 24" "12 \<le> c" and d: "in_flight c h p d" and last: "Last (Chnl d ! c) = 0" "Ready (Chnl d ! c) = 0"
    and env: "completion_answer env (length (trace d)) = TxnComplete st" "NT_SUCCESS st"
    and t_def: "t = reg_value env (Suc (length (trace d))) reg"
  shows "transfer_done env c reg d = events [DmaCompleted c, RegRd reg, TimerStop c, DmaRelease c]
    (upd_chnl c (\<lambda>x. x\<lparr>ReqdDone := 0, ConfirmedPrev := p + push_bit 2 (ucast t), Confirmed := 0, ProvidedPrev := 0,
       Provided := 0, Ready := 1\<rparr>) d)"
proof -
  have x: "length (Chnl d) = 24" "Request (Chnl d ! c) = Some h" "Cancel (Chnl d ! c) = 0"
    "ActiveCount (Chnl d ! c) = 0" "ConfirmedPrev (Chnl d ! c) = p"
    using d by (simp_all add: in_flight_def Let_def)
  show ?thesis
    using c x env last
    by (auto simp: t_def transfer_done_def dma_completed_def Let_def READ_REGISTER_def event_events events_simps win_simps
        RiffaTransactionComplete_def stop_timer_def RiffaThreadEnter_def RiffaThreadExit_def events_upd
        intro!: upd_chnl_cong arg_cong [where f = "events _"])
qed

lemma set_req_chnl_fields [win_simps]:
  "Chnl (set_req_chnl rq c d) = Chnl d" "trace (set_req_chnl rq c d) = trace d" "NumChnls (set_req_chnl rq c d) = NumChnls d"
  "MaxNumScatterGatherElems (set_req_chnl rq c d) = MaxNumScatterGatherElems d"
  "SpillBufferBaseLA (set_req_chnl rq c d) = SpillBufferBaseLA d"
  by (simp_all add: set_req_chnl_def)

lemma mark_ok: "NT_SUCCESS (mark_answer env (length (trace d))) \<Longrightarrow>
    mark_cancelable env rq d = event (MarkCancelable (handle rq)) d"
  by (simp add: mark_cancelable_def Let_def)

lemma status_success: "NT_SUCCESS STATUS_SUCCESS" "\<not> NT_SUCCESS STATUS_TRANSACTION_ABORTED"
  by (simp_all add: NT_SUCCESS_def)

text \<open>The channel a send request sets up, before the framework answers.\<close>

definition sending :: "wdf_request \<Rightarrow> riffa_fpga_chnl_io \<Rightarrow> chnl_dir_state \<Rightarrow> chnl_dir_state" where
  "sending rq io x = begin_send rq io (words_of rq io) (x\<lparr>InUse := 1\<rparr>)"

lemma sending_log:
  assumes "io_Last io \<le> 1" and "io_Offset io < 2 ^ 30"
  shows "send_log c (sending rq io x) =
    [RegWr (WIN_CHNL_REG c RIFFA_RX_OFFLAST_REG) (push_bit 1 (io_Offset io) OR io_Last io),
     RegWr (WIN_CHNL_REG c RIFFA_RX_LEN_REG) (ucast (words_of rq io))]"
proof -
  have w: "ucast (drop_bit 2 (push_bit 2 w)) = (ucast w :: u32)" for w :: u64
    by (rule bit_eqI) (auto simp: bit_simps dest: bit_imp_le_length)
  have off: "ucast (drop_bit 2 (ucast (push_bit 2 (io_Offset io)) :: u64)) = io_Offset io"
  proof -
    have lt: "unat (io_Offset io) < 2 ^ 30" using assms(2) by (simp add: word_less_nat_alt)
    then have "unat (push_bit 2 (io_Offset io)) = 4 * unat (io_Offset io)"
      unfolding unsigned_push_bit_eq by (simp add: take_bit_eq_mod push_bit_eq_mult)
    then have "unat (ucast (drop_bit 2 (ucast (push_bit 2 (io_Offset io)) :: u64)) :: u32) = unat (io_Offset io)"
      using lt unfolding unsigned_ucast_eq unat_drop_bit_eq by (simp add: drop_bit_eq_div take_bit_eq_mod)
    then show ?thesis by (rule word_unat_eq_iff [THEN iffD2])
  qed
  have last: "io_Last io AND 1 = io_Last io"
  proof -
    have "io_Last io = 0 \<or> io_Last io = 1" using assms(1) by (metis linorder_not_le word_le_less_eq word_less_1)
    then show ?thesis by auto
  qed
  show ?thesis by (simp add: send_log_def sending_def begin_send_def w off last)
qed

lemma sending_fill_ok:
  assumes "4 * m \<le> length (CommonBuffer x)"
  shows "fill_ok m (with_list sgs (sending rq io x))"
  using assms words_of_bound [of rq io]
  by (simp add: fill_ok_def with_list_def sending_def begin_send_def unat_words)

section \<open>A device and a request\<close>

definition idle_win :: device_extension where
  "idle_win = busy_device\<lparr>Chnl := replicate 24 (busy_chnl\<lparr>InUse := 0, Request := None\<rparr>)\<rparr>"

definition send_rq :: wdf_request where
  "send_rq = \<lparr>handle = 9, InputBufferLength = 32, OutputBufferLength = 5000,
     io_input = Inr (32, \<lparr>io_Chnl = 0, io_Length = 1250, io_Offset = 0, io_Last = 1, io_Timeout = 500\<rparr>),
     list_input = Inl 0, list_output = Inl 0\<rparr>"

lemma idle_win_fields:
  "NumChnls idle_win = 1" "length (Chnl idle_win) = 24" "MaxNumScatterGatherElems idle_win = 3"
  "c < 24 \<Longrightarrow> Chnl idle_win ! c = busy_chnl\<lparr>InUse := 0, Request := None\<rparr>"
  "trace idle_win = []"
  by (simp_all add: idle_win_def busy_device_def)

lemma calm_env_grants: "grants calm_env 0x10000 0x100000 [(0x1000, 4096), (0x7000, 904)]"
  by (simp add: grants_def calm_env_def NT_SUCCESS_def)

section \<open>The two orders of a receive\<close>

text \<open>
  The request of the user and the announcement of the device, as changes of the receiving channel.
\<close>

definition announced :: "intr_chnl_dir_data \<Rightarrow> chnl_dir_state \<Rightarrow> chnl_dir_state" where
  "announced f x = x\<lparr>Length := push_bit 2 (ucast (IntrLength f)),
     Offset := push_bit 2 (ucast (drop_bit 1 (OffLast f))), Last := OffLast f AND 0x1\<rparr>"

definition receiving :: "wdf_request \<Rightarrow> riffa_fpga_chnl_io \<Rightarrow> chnl_dir_state \<Rightarrow> chnl_dir_state" where
  "receiving rq io x = begin_recv rq io (words_of rq io) (x\<lparr>InUse := 1\<rparr>)"

definition fitting :: "chnl_dir_state \<Rightarrow> chnl_dir_state" where
  "fitting x = x\<lparr>SpillAfter := Capacity x - Offset x\<rparr>"

lemma announced_receiving: "announced f (receiving rq io x) = receiving rq io (announced f x)"
  by (simp add: announced_def receiving_def begin_recv_def)

lemma fill_elems_count: "fill_elems m la (x\<lparr>ActiveCount := a\<rparr>) = fill_elems m la x"
  by (simp add: fill_elems_def cong: if_cong)

lemma filled_count:
  "(filled n pos prov buf (x\<lparr>ActiveCount := a\<rparr>))\<lparr>ActiveCount := b\<rparr> = filled n pos prov buf (x\<lparr>ActiveCount := b\<rparr>)"
  by (simp add: filled_def)

lemma unat_ucast_words: "unat (push_bit 2 (ucast (w :: u32)) :: u64) = 4 * unat w"
  using unat_lt32 [of w] by (intro unat_words [THEN trans]) (simp_all add: unat_ucast_up)

fun is_reg :: "wevent \<Rightarrow> bool" where
  "is_reg (RegWr r v) = True"
| "is_reg (RegRd r) = True"
| "is_reg e = False"

definition reg_log :: "device_extension \<Rightarrow> wevent list" where
  "reg_log d = filter is_reg (trace d)"

lemma reg_log_simps [simp]:
  "reg_log (events es d) = reg_log d @ filter is_reg es" "reg_log (upd_chnl c f d) = reg_log d"
  "reg_log (calm d) = reg_log d" "reg_log (set_req_chnl rq c d) = reg_log d"
  by (simp_all add: reg_log_def win_simps)

lemma reg_log_logs:
  "filter is_reg (announce_log c x n prov) = announce_log c x n prov" "filter is_reg (timer_log c x) = []"
  by (auto simp: announce_log_def timer_log_def)

text \<open>How the transaction is set up once request and announcement are both there.\<close>

definition prepared :: "sg_list \<Rightarrow> chnl_dir_state \<Rightarrow> chnl_dir_state" where
  "prepared sgs z =
     (if Capacity z > Offset z then with_list sgs (fitting z) else z\<lparr>SpillAfter := 0\<rparr>)"

lemma prepared_fields [simp]:
  "Request (prepared sgs z) = Request z" "ActiveCount (prepared sgs z) = ActiveCount z"
  "Cancel (prepared sgs z) = Cancel z" "Length (prepared sgs z) = Length z"
  "CommonBufferBaseLA (prepared sgs z) = CommonBufferBaseLA z" "Timeout (prepared sgs z) = Timeout z"
  "CommonBuffer (prepared sgs z) = CommonBuffer z" "Provided (prepared sgs z) = Provided z"
  by (simp_all add: prepared_def with_list_def fitting_def)

lemma logs_cong:
  "CommonBufferBaseLA x = CommonBufferBaseLA y \<Longrightarrow> Length x = Length y \<Longrightarrow>
     announce_log c x n prov = announce_log c y n prov"
  "Timeout x = Timeout y \<Longrightarrow> timer_log c x = timer_log c y"
  by (simp_all add: announce_log_def timer_log_def)

text \<open>The part in which the two code paths agree: DMA into the buffer, or everything to the spill.\<close>

definition begin_txn :: "wenv \<Rightarrow> nat \<Rightarrow> device_extension \<Rightarrow> ntstatus \<times> device_extension" where
  "begin_txn env r d =
     (case recv_plan (Chnl d ! r) of
        RecvDma len \<Rightarrow>
          (let d = upd_chnl r (\<lambda>x. x\<lparr>SpillAfter := Capacity x - Offset x\<rparr>) d
           in RiffaStartDmaTransaction env r len (Offset (Chnl d ! r)) ReadFromDevice d)
      | _ \<Rightarrow> (STATUS_SUCCESS, RiffaProgramScatterGather env r (upd_chnl r (\<lambda>x. x\<lparr>SpillAfter := 0\<rparr>) d)))"

lemma begin_txn_effect:
  assumes r: "r < length (Chnl d)" and z: "Chnl d ! r = z" and q: "Request z = Some h" "Cancel z = 0" "Length z \<noteq> 0"
    and ok: "fill_ok (MaxNumScatterGatherElems d) (prepared sgs z)" and g: "grants env v cnt sgs"
    and f: "fill_elems (MaxNumScatterGatherElems d) (SpillBufferBaseLA d) (prepared sgs z) = (n, pos, prov, buf, [])"
  shows "\<exists>es. begin_txn env r d =
      (STATUS_SUCCESS, events es (upd_chnl r (\<lambda>_. filled n pos prov buf (prepared sgs z)) d)) \<and>
    filter is_reg es = announce_log r z n prov \<and> (\<forall>h'. filter (is_completion h') es = [])"
proof (cases "Capacity z > Offset z")
  case True
  have plan: "\<exists>len. recv_plan z = RecvDma len" using True q(3) by (simp add: recv_plan_def)
  then obtain len where len: "recv_plan z = RecvDma len" by blast
  define d1 where "d1 = upd_chnl r (\<lambda>x. x\<lparr>SpillAfter := Capacity x - Offset x\<rparr>) d"
  have x1: "Chnl d1 ! r = fitting z" using r z by (simp add: d1_def win_simps fitting_def)
  have d1: "r < length (Chnl d1)" "MaxNumScatterGatherElems d1 = MaxNumScatterGatherElems d"
    "SpillBufferBaseLA d1 = SpillBufferBaseLA d" using r by (simp_all add: d1_def win_simps)
  have p: "prepared sgs z = with_list sgs (fitting z)" using True by (simp add: prepared_def)
  have n: "n = min (MaxNumScatterGatherElems d) (length (todo (SpillBufferBaseLA d) (with_list sgs (fitting z))))"
    using fill_elems_spec [OF ok refl, of "SpillBufferBaseLA d"] f by (auto simp: p)
  have env: "\<And>n. mdl_answer env n = Inr (v, cnt)" "\<And>n. NT_SUCCESS (init_answer env n)"
    "\<And>n. exec_answer env n = ExecNow sgs" "\<And>n. bytes_answer env n = 0"
    using g by (simp_all add: grants_def)
  have "RiffaStartDmaTransaction env r len (Offset z) ReadFromDevice d1 = (STATUS_SUCCESS, events
      ([RetrieveMdl (Some h), DmaInitialize r ReadFromDevice (v + 4 * Offset z)
         ((if len < cnt then len else cnt) - Offset z), DmaExecute r] @
       start_log r ReadFromDevice (Chnl d1 ! r) @
       TimerStop r # announce_log r (Chnl d1 ! r) n prov @ timer_log r (Chnl d1 ! r))
      (upd_chnl r (\<lambda>x. filled n pos prov buf (with_list sgs x)) d1))"
    by (rule start_dma_effect [where sgs = sgs and v = v and cnt = cnt and r = h])
      (use q ok f n d1 env in \<open>simp_all add: x1 p fitting_def\<close>)
  moreover have "upd_chnl r (\<lambda>x. filled n pos prov buf (with_list sgs x)) d1 =
      upd_chnl r (\<lambda>_. filled n pos prov buf (prepared sgs z)) d"
    using r z by (simp add: d1_def p upd_upd fitting_def) (rule upd_chnl_cong, simp)
  moreover have "announce_log r (fitting z) n prov = announce_log r z n prov"
    by (rule logs_cong) (simp_all add: fitting_def)
  ultimately show ?thesis
    using len x1 by (intro exI) (rule conjI, simp add: begin_txn_def z d1_def [symmetric] fitting_def start_log_def,
        simp add: reg_log_logs logs_silent fitting_def)
next
  case False
  have plan: "recv_plan z = RecvSpill" using False q(3) by (simp add: recv_plan_def)
  define d1 where "d1 = upd_chnl r (\<lambda>x. x\<lparr>SpillAfter := 0\<rparr>) d"
  have p: "prepared sgs z = z\<lparr>SpillAfter := 0\<rparr>" using False by (simp add: prepared_def)
  have x1: "Chnl d1 ! r = prepared sgs z" using r z by (simp add: d1_def win_simps p)
  have d1: "r < length (Chnl d1)" "MaxNumScatterGatherElems d1 = MaxNumScatterGatherElems d"
    "SpillBufferBaseLA d1 = SpillBufferBaseLA d" using r by (simp_all add: d1_def win_simps)
  have "RiffaProgramScatterGather env r d1 =
      events (TimerStop r # announce_log r (Chnl d1 ! r) n prov @ timer_log r (Chnl d1 ! r))
        (upd_chnl r (filled n pos prov buf) d1)"
    by (rule program_sg_active) (use d1 q f in \<open>simp_all add: x1\<close>)
  moreover have "upd_chnl r (filled n pos prov buf) d1 = upd_chnl r (\<lambda>_. filled n pos prov buf (prepared sgs z)) d"
    using r z by (simp add: d1_def p upd_upd) (rule upd_chnl_cong, simp)
  moreover have "announce_log r (prepared sgs z) n prov = announce_log r z n prov"
    by (rule logs_cong) simp_all
  ultimately show ?thesis
    using plan x1 by (intro exI) (rule conjI, simp add: begin_txn_def z d1_def [symmetric],
        simp add: reg_log_logs logs_silent)
qed

lemma start_announced_txn:
  assumes "Length (Chnl d ! r) \<noteq> 0" and "begin_txn env r d = (STATUS_SUCCESS, d')"
  shows "start_announced env rq r d = d'"
  using assms status_success(1)
  by (auto simp: start_announced_def begin_txn_def recv_plan_def Let_def split: if_splits)

lemma start_recv_txn:
  assumes r: "r < length (Chnl d)" and q: "Request (Chnl d ! r) = Some h" and l: "Length (Chnl d ! r) \<noteq> 0"
    and t: "begin_txn env r (upd_chnl r (\<lambda>x. x\<lparr>ActiveCount := ActiveCount x + 1\<rparr>) (stop_timer r d)) = (STATUS_SUCCESS, d')"
  shows "RiffaStartRecvTransaction env r d = RiffaThreadExit env r d'"
proof -
  have e: "RiffaThreadEnter r (stop_timer r d) =
      (True, upd_chnl r (\<lambda>x. x\<lparr>ActiveCount := ActiveCount x + 1\<rparr>) (stop_timer r d))"
    using q by (simp add: RiffaThreadEnter_def stop_timer_def win_simps)
  let ?d1 = "upd_chnl r (\<lambda>x. x\<lparr>ActiveCount := ActiveCount x + 1\<rparr>) (stop_timer r d)"
  have "Length (Chnl ?d1 ! r) \<noteq> 0" using l r by (simp add: stop_timer_def win_simps)
  then have "(\<exists>len. recv_plan (Chnl ?d1 ! r) = RecvDma len) \<or> recv_plan (Chnl ?d1 ! r) = RecvSpill"
    by (simp add: recv_plan_def)
  then show ?thesis
    using t status_success(1)
    by (elim disjE exE) (simp_all add: RiffaStartRecvTransaction_def e begin_txn_def Let_def)
qed

lemma prepared_ok:
  assumes "4 * m \<le> length (CommonBuffer z)" and "unat (Length z) < 2 ^ 34" and "unat (Capacity z) < 2 ^ 34"
    and "Provided z = 0"
  shows "fill_ok m (prepared sgs z)"
proof -
  have "unat (Capacity z - Offset z) \<le> unat (Capacity z)" if "Offset z < Capacity z"
    using that by (simp add: unat_diff_le word_less_nat_alt)
  then show ?thesis
    using assms by (auto simp: fill_ok_def prepared_def with_list_def fitting_def)
qed

text \<open>The announcement when a request is waiting: the transaction starts in the deferred procedure.\<close>

definition awaited :: "intr_chnl_dir_data \<Rightarrow> chnl_dir_state \<Rightarrow> chnl_dir_state" where
  "awaited f x = (announced f x)\<lparr>Ready := 0\<rparr>"

lemma awaited_fields [simp]:
  "Request (awaited f x) = Request x" "Cancel (awaited f x) = Cancel x" "ActiveCount (awaited f x) = ActiveCount x"
  "Length (awaited f x) = push_bit 2 (ucast (IntrLength f))" "Capacity (awaited f x) = Capacity x"
  "Provided (awaited f x) = Provided x" "CommonBuffer (awaited f x) = CommonBuffer x" "Ready (awaited f x) = 0"
  "Last (awaited f x) = OffLast f AND 1" "ConfirmedPrev (awaited f x) = ConfirmedPrev x" "InUse (awaited f x) = InUse x"
  by (simp_all add: awaited_def announced_def)

lemma awaited_length: "IntrLength f \<noteq> 0 \<Longrightarrow> Length (awaited f x) \<noteq> 0"
  using unat_ucast_words [of "IntrLength f"] unsigned_eq_0_iff [of "IntrLength f", where ?'a = nat] by auto

lemma announcement_starts:
  assumes c: "r = 12 + i" "i < NumChnls d" "NumChnls d \<le> 12" "length (Chnl d) = 24"
    and x: "Ready (Chnl d ! r) = 1" "Request (Chnl d ! r) = Some h" "Cancel (Chnl d ! r) = 0" "ActiveCount (Chnl d ! r) = 0"
    and f: "NewTxn f" "\<not> SgRead f" "\<not> Done f" "IntrLength f \<noteq> 0" and g: "grants env v cnt sgs"
    and z: "z = awaited f (Chnl d ! r)" and ok: "fill_ok (MaxNumScatterGatherElems d) (prepared sgs z)"
    and fe: "fill_elems (MaxNumScatterGatherElems d) (SpillBufferBaseLA d) (prepared sgs z) = (n, pos, prov, buf, [])"
  shows "\<exists>es. RiffaEvtInterruptDpc env (signalled r f d) =
      events es (upd_chnl r (\<lambda>_. filled n pos prov buf (prepared sgs z)) (calm d)) \<and>
    filter is_reg es = announce_log r z n prov \<and> (\<forall>h'. filter (is_completion h') es = [])"
proof -
  have r24: "r < length (Chnl d)" using c by simp
  define d3 where "d3 = upd_chnl r (\<lambda>_. z) (calm d)"
  have dp: "RiffaEvtInterruptDpc env (signalled r f d) = RiffaStartRecvTransaction env r d3"
  proof -
    have "RiffaEvtInterruptDpc env (signalled r f d) = new_recv_txn env r f (calm d)"
      using dpc_signalled_recv [of i d env f] c f by (simp add: Let_def)
    also have "\<dots> = RiffaStartRecvTransaction env r (upd_chnl r (awaited f) (calm d))"
      using r24 x by (simp add: new_recv_txn_def Let_def win_simps announced_def awaited_def [abs_def])
    also have "upd_chnl r (awaited f) (calm d) = d3"
      unfolding d3_def z by (rule upd_chnl_cong) (simp add: win_simps)
    finally show ?thesis .
  qed
  let ?z1 = "z\<lparr>ActiveCount := 1\<rparr>"
  define d4 where "d4 = upd_chnl r (\<lambda>x. x\<lparr>ActiveCount := ActiveCount x + 1\<rparr>) (stop_timer r d3)"
  have d4: "r < length (Chnl d4)" "Chnl d4 ! r = ?z1" "MaxNumScatterGatherElems d4 = MaxNumScatterGatherElems d"
    "SpillBufferBaseLA d4 = SpillBufferBaseLA d"
    using r24 x by (simp_all add: d4_def d3_def stop_timer_def win_simps z)
  have zf: "Request z = Some h" "Cancel z = 0" "ActiveCount z = 0" "Length z \<noteq> 0" using x awaited_length [OF f(4)] by (simp_all add: z)
  have pz1: "prepared sgs ?z1 = (prepared sgs z)\<lparr>ActiveCount := 1\<rparr>"
    by (simp add: prepared_def with_list_def fitting_def)
  have ok1: "fill_ok (MaxNumScatterGatherElems d4) (prepared sgs ?z1)"
    using ok by (simp add: d4 pz1 fill_ok_def)
  obtain es where B: "begin_txn env r d4 = (STATUS_SUCCESS, events es (upd_chnl r (\<lambda>_. filled n pos prov buf (prepared sgs ?z1)) d4))"
    "filter is_reg es = announce_log r ?z1 n prov" "\<forall>h'. filter (is_completion h') es = []"
    using begin_txn_effect [OF d4(1,2) _ _ _ ok1 g, of h n pos prov buf] fe zf
    by (auto simp: pz1 fill_elems_count d4)
  have ex: "RiffaStartRecvTransaction env r d3 =
      RiffaThreadExit env r (events es (upd_chnl r (\<lambda>_. filled n pos prov buf (prepared sgs ?z1)) d4))"
    by (rule start_recv_txn [where h = h])
      (use B(1) r24 zf in \<open>simp_all add: d4_def d3_def win_simps\<close>)
  have "(prepared sgs z)\<lparr>ActiveCount := 0\<rparr> = prepared sgs z"
    by (rule chnl_dir_state.equality) (simp_all add: zf)
  then have restored: "(filled n pos prov buf ((prepared sgs z)\<lparr>ActiveCount := 1\<rparr>))\<lparr>ActiveCount := 0\<rparr> =
      filled n pos prov buf (prepared sgs z)"
    by (simp add: filled_count)
  have cnt: "ActiveCount (filled n pos prov buf ((prepared sgs z)\<lparr>ActiveCount := 1\<rparr>)) = 1"
    "Cancel (filled n pos prov buf ((prepared sgs z)\<lparr>ActiveCount := 1\<rparr>)) = 0"
    by (simp_all add: filled_def zf)
  have "RiffaThreadExit env r (events es (upd_chnl r (\<lambda>_. filled n pos prov buf (prepared sgs ?z1)) d4)) =
      events (TimerStop r # es) (upd_chnl r (\<lambda>_. filled n pos prov buf (prepared sgs z)) (calm d))"
    using r24 unfolding pz1
    by (simp add: RiffaThreadExit_def Let_def win_simps events_upd cnt d4_def d3_def stop_timer_def)
      (simp add: restored upd_event events_simps win_simps)
  moreover have "announce_log r ?z1 n prov = announce_log r z n prov" by (rule logs_cong) simp_all
  ultimately show ?thesis using B(2,3) by (intro exI [of _ "TimerStop r # es"]) (simp add: dp ex)
qed

text \<open>The channel once both are there, whichever came first.\<close>

definition both :: "wdf_request \<Rightarrow> riffa_fpga_chnl_io \<Rightarrow> intr_chnl_dir_data \<Rightarrow> chnl_dir_state \<Rightarrow> chnl_dir_state" where
  "both rq io f x = (receiving rq io (announced f x))\<lparr>Ready := 0\<rparr>"

lemma both_fields:
  "Request (both rq io f x) = Some (handle rq)" "Cancel (both rq io f x) = 0" "ActiveCount (both rq io f x) = 0"
  "Length (both rq io f x) = push_bit 2 (ucast (IntrLength f))" "Capacity (both rq io f x) = push_bit 2 (words_of rq io)"
  "Provided (both rq io f x) = 0" "CommonBuffer (both rq io f x) = CommonBuffer x"
  by (simp_all add: both_def receiving_def begin_recv_def announced_def)

lemma both_ok: "4 * m \<le> length (CommonBuffer x) \<Longrightarrow> fill_ok m (prepared sgs (both rq io f x))"
  using unat_lt32 [of "IntrLength f"] words_of_bound [of rq io]
  by (intro prepared_ok) (simp_all add: both_fields unat_words unat_ucast_words)

lemma both_length: "IntrLength f \<noteq> 0 \<Longrightarrow> Length (both rq io f x) \<noteq> 0"
  using unat_ucast_words [of "IntrLength f"] unsigned_eq_0_iff [of "IntrLength f", where ?'a = nat]
  by (auto simp: both_fields)

definition txn_result ::
  "nat \<Rightarrow> u64 \<Rightarrow> sg_list \<Rightarrow> chnl_dir_state \<Rightarrow> chnl_dir_state \<times> nat \<times> u64" where
  "txn_result m la sgs z =
     (let (n, pos, prov, buf, es) = fill_elems m la (prepared sgs z)
      in (filled n pos prov buf (prepared sgs z), n, prov))"

lemma recv_waiting:
  assumes "get_io rq = Inr io" and "r = 12 + unat (io_Chnl io)" and "unat (io_Chnl io) < NumChnls d"
    and "r < length (Chnl d)" and "InUse (Chnl d ! r) \<noteq> 1" and "Ready (Chnl d ! r) = 0"
    and "\<And>n. NT_SUCCESS (mark_answer env n)"
  shows "RiffaIoctlRecv env rq d = event (MarkCancelable (handle rq)) (start_timer r
    (upd_chnl r (\<lambda>x. (receiving rq io x)\<lparr>Ready := 1\<rparr>) (set_req_chnl rq r d)))"
proof -
  have rd: "12 + unat (io_Chnl io) = r" using assms(2) by simp
  have "upd_chnl r (\<lambda>x. x\<lparr>Ready := 1\<rparr>)
        (upd_chnl r (begin_recv rq io (words_of rq io)) (set_req_chnl rq r (upd_chnl r (\<lambda>x. x\<lparr>InUse := 1\<rparr>) d))) =
      upd_chnl r (\<lambda>x. (receiving rq io x)\<lparr>Ready := 1\<rparr>) (set_req_chnl rq r d)"
    using assms(4) by (simp add: upd_chnl_def set_req_chnl_def receiving_def)
  then show ?thesis
    using assms(1,3-7) rd by (simp add: RiffaIoctlRecv_def Let_def win_simps begin_recv_def mark_ok not_le)
qed

lemma request_then_announcement:
  assumes io: "get_io rq = Inr io" and c: "r = 12 + unat (io_Chnl io)" "unat (io_Chnl io) < NumChnls d"
    and len: "NumChnls d \<le> 12" "length (Chnl d) = 24" and idle: "InUse (Chnl d ! r) \<noteq> 1" "Ready (Chnl d ! r) = 0"
    and room: "4 * MaxNumScatterGatherElems d \<le> length (CommonBuffer (Chnl d ! r))" and g: "grants env v cnt sgs"
    and f: "NewTxn f" "\<not> SgRead f" "\<not> Done f" "IntrLength f \<noteq> 0"
    and res: "txn_result (MaxNumScatterGatherElems d) (SpillBufferBaseLA d) sgs (both rq io f (Chnl d ! r)) = (y, n, prov)"
  defines "e \<equiv> RiffaEvtInterruptDpc env (signalled r f (RiffaIoctlRecv env rq d))"
  shows "Chnl e ! r = y \<and> reg_log e = reg_log d @ announce_log r (both rq io f (Chnl d ! r)) n prov"
proof -
  let ?x = "Chnl d ! r" and ?z = "both rq io f (Chnl d ! r)"
  have r24: "r < 24" using c len(1) by simp
  define d2 where "d2 = RiffaIoctlRecv env rq d"
  have i: "d2 = event (MarkCancelable (handle rq)) (start_timer r
      (upd_chnl r (\<lambda>x. (receiving rq io x)\<lparr>Ready := 1\<rparr>) (set_req_chnl rq r d)))"
    unfolding d2_def by (rule recv_waiting [OF io c(1,2)]) (use r24 len idle g in \<open>simp_all add: grants_def\<close>)
  have d2: "length (Chnl d2) = 24" "Chnl d2 ! r = (receiving rq io ?x)\<lparr>Ready := 1\<rparr>" "reg_log d2 = reg_log d"
    "MaxNumScatterGatherElems d2 = MaxNumScatterGatherElems d" "SpillBufferBaseLA d2 = SpillBufferBaseLA d"
    "NumChnls d2 = NumChnls d"
    using r24 len by (auto simp: i win_simps start_timer_def reg_log_def)
  have z: "?z = awaited f (Chnl d2 ! r)"
    by (simp add: d2 both_def awaited_def announced_receiving [symmetric])
      (simp add: announced_def receiving_def begin_recv_def)
  obtain pos buf where fe: "fill_elems (MaxNumScatterGatherElems d) (SpillBufferBaseLA d) (prepared sgs ?z) =
      (n, pos, prov, buf, [])" "y = filled n pos prov buf (prepared sgs ?z)"
    using res fill_elems_spec [OF both_ok [OF room] refl, of "SpillBufferBaseLA d" sgs rq io f]
    by (auto simp: txn_result_def)
  have x2: "Ready (Chnl d2 ! r) = 1" "Request (Chnl d2 ! r) = Some (handle rq)" "Cancel (Chnl d2 ! r) = 0"
    "ActiveCount (Chnl d2 ! r) = 0" by (simp_all add: d2 receiving_def begin_recv_def)
  have "unat (io_Chnl io) < NumChnls d2" "NumChnls d2 \<le> 12" using c len d2 by simp_all
  from announcement_starts [OF c(1) this d2(1) x2 f g z, of n pos prov buf] fe(1) both_ok [OF room, of sgs rq io f]
  obtain es where "e = events es (upd_chnl r (\<lambda>_. y) (calm d2))" "filter is_reg es = announce_log r ?z n prov"
    by (auto simp: e_def fe(2) d2 simp flip: d2_def)
  then show ?thesis using r24 d2 by (simp add: win_simps)
qed

lemma announcement_then_request:
  assumes io: "get_io rq = Inr io" and c: "r = 12 + unat (io_Chnl io)" "unat (io_Chnl io) < NumChnls d"
    and len: "NumChnls d \<le> 12" "length (Chnl d) = 24" and idle: "InUse (Chnl d ! r) \<noteq> 1" "Ready (Chnl d ! r) = 0"
    and room: "4 * MaxNumScatterGatherElems d \<le> length (CommonBuffer (Chnl d ! r))" and g: "grants env v cnt sgs"
    and f: "NewTxn f" "\<not> SgRead f" "\<not> Done f" "IntrLength f \<noteq> 0"
    and res: "txn_result (MaxNumScatterGatherElems d) (SpillBufferBaseLA d) sgs (both rq io f (Chnl d ! r)) = (y, n, prov)"
  defines "e \<equiv> RiffaIoctlRecv env rq (RiffaEvtInterruptDpc env (signalled r f d))"
  shows "Chnl e ! r = y \<and> reg_log e = reg_log d @ announce_log r (both rq io f (Chnl d ! r)) n prov"
proof -
  let ?x = "Chnl d ! r" and ?z = "both rq io f (Chnl d ! r)"
  have r24: "r < 24" and rd: "12 + unat (io_Chnl io) = r" using c len(1) by simp_all
  define d1 where "d1 = upd_chnl r (\<lambda>x. (announced f x)\<lparr>Ready := 2\<rparr>) (calm d)"
  have dp: "RiffaEvtInterruptDpc env (signalled r f d) = d1"
    using dpc_signalled_recv [of "unat (io_Chnl io)" d env f] c(2) rd len f r24 idle
    by (simp add: new_recv_txn_def Let_def d1_def win_simps announced_def [abs_def])
  define d2 where "d2 = upd_chnl r (\<lambda>_. ?z) (set_req_chnl rq r (calm d))"
  have d2: "r < length (Chnl d2)" "Chnl d2 ! r = ?z" "MaxNumScatterGatherElems d2 = MaxNumScatterGatherElems d"
    "SpillBufferBaseLA d2 = SpillBufferBaseLA d" "reg_log d2 = reg_log d"
    using r24 len by (simp_all add: d2_def win_simps)
  have i: "e = mark_cancelable env rq (start_announced env rq r d2)"
  proof -
    have "upd_chnl r (\<lambda>x. x\<lparr>Ready := 0\<rparr>) (upd_chnl r (\<lambda>x. x\<lparr>Ready := 1\<rparr>)
        (upd_chnl r (begin_recv rq io (words_of rq io)) (set_req_chnl rq r (upd_chnl r (\<lambda>x. x\<lparr>InUse := 1\<rparr>) d1)))) = d2"
      using r24 len by (simp add: d1_def d2_def upd_chnl_def set_req_chnl_def calm_def both_def receiving_def begin_recv_def
          announced_def)
    then show ?thesis
      using io c(2) rd r24 len idle
      by (simp add: e_def dp RiffaIoctlRecv_def Let_def d1_def win_simps announced_def begin_recv_def not_le)
  qed
  obtain pos buf where fe: "fill_elems (MaxNumScatterGatherElems d) (SpillBufferBaseLA d) (prepared sgs ?z) =
      (n, pos, prov, buf, [])" "y = filled n pos prov buf (prepared sgs ?z)"
    using res fill_elems_spec [OF both_ok [OF room] refl, of "SpillBufferBaseLA d" sgs rq io f]
    by (auto simp: txn_result_def)
  have ok: "fill_ok (MaxNumScatterGatherElems d2) (prepared sgs ?z)" using both_ok [OF room] by (simp add: d2)
  obtain es where B: "begin_txn env r d2 = (STATUS_SUCCESS, events es (upd_chnl r (\<lambda>_. y) d2))"
    "filter is_reg es = announce_log r ?z n prov"
    using begin_txn_effect [OF d2(1,2) _ _ _ ok g, of "handle rq" n pos prov buf] fe both_length [OF f(4), of rq io ?x]
    by (auto simp: both_fields d2)
  have "e = event (MarkCancelable (handle rq)) (events es (upd_chnl r (\<lambda>_. y) d2))"
    unfolding i using start_announced_txn [OF _ B(1)] d2(2) both_length [OF f(4), of rq io ?x] g
    by (simp add: mark_ok grants_def)
  then show ?thesis using d2 B(2) by (simp add: win_simps event_events)
qed


definition announcement :: intr_chnl_dir_data where
  "announcement = no_intr\<lparr>NewTxn := True, OffLast := 1, IntrLength := 2250\<rparr>"


section \<open>Receives that leave the channel behind\<close>

lemma recv_announced:
  assumes "get_io rq = Inr io" and "r = 12 + unat (io_Chnl io)" and "unat (io_Chnl io) < NumChnls d"
    and "r < length (Chnl d)" and "InUse (Chnl d ! r) \<noteq> 1" and "Ready (Chnl d ! r) = 2"
  shows "RiffaIoctlRecv env rq d = mark_cancelable env rq (start_announced env rq r
    (upd_chnl r (\<lambda>x. (receiving rq io x)\<lparr>Ready := 0\<rparr>) (set_req_chnl rq r d)))"
proof -
  have rd: "12 + unat (io_Chnl io) = r" using assms(2) by simp
  have "upd_chnl r (\<lambda>x. x\<lparr>Ready := 0\<rparr>) (upd_chnl r (\<lambda>x. x\<lparr>Ready := 1\<rparr>)
        (upd_chnl r (begin_recv rq io (words_of rq io)) (set_req_chnl rq r (upd_chnl r (\<lambda>x. x\<lparr>InUse := 1\<rparr>) d)))) =
      upd_chnl r (\<lambda>x. (receiving rq io x)\<lparr>Ready := 0\<rparr>) (set_req_chnl rq r d)"
    using assms(4) by (simp add: upd_chnl_def set_req_chnl_def receiving_def)
  then show ?thesis
    using assms(1,3-6) rd by (simp add: RiffaIoctlRecv_def Let_def win_simps begin_recv_def not_le)
qed

text \<open>
  A receive that the device announced with length zero is completed in the call, but the channel keeps
  the request and stays in use: every further receive on it is refused, and whoever completes the
  channel's request later (a reset, for example) completes the same request again.
\<close>

theorem recv_zero_length_blocks:
  assumes "get_io rq = Inr io" and "r = 12 + unat (io_Chnl io)" and "unat (io_Chnl io) < NumChnls d"
    and "length (Chnl d) = 24" and "NumChnls d \<le> 12" and "InUse (Chnl d ! r) \<noteq> 1" and "Ready (Chnl d ! r) = 2"
    and "Length (Chnl d ! r) = 0" and "Last (Chnl d ! r) \<noteq> 0" and "\<forall>n. NT_SUCCESS (mark_answer env n)"
    and "\<forall>n. unmark_answer env n (handle rq) \<noteq> STATUS_CANCELLED"
  shows "let e = RiffaIoctlRecv env rq d in
    finished (handle rq) e = finished (handle rq) d @ [Completed (handle rq) STATUS_SUCCESS 0] \<and>
    (\<forall>rq' io'. get_io rq' = Inr io' \<and> io_Chnl io' = io_Chnl io \<longrightarrow>
       RiffaIoctlRecv env rq' e = finish rq' STATUS_INVALID_PARAMETER e) \<and>
    finished (handle rq) (RiffaCompleteRequest env r st e) = finished (handle rq) e @ [Completed (handle rq) st 0]"
proof -
  have r24: "r < length (Chnl d)" and rd: "12 + unat (io_Chnl io) = r" using assms(2-5) by simp_all
  let ?d = "upd_chnl r (\<lambda>x. (receiving rq io x)\<lparr>Ready := 0\<rparr>) (set_req_chnl rq r d)"
  have x: "Chnl ?d ! r = (receiving rq io (Chnl d ! r))\<lparr>Ready := 0\<rparr>" using r24 by (simp add: win_simps)
  have "recv_plan (Chnl ?d ! r) = RecvEmpty"
    using assms(8,9) unfolding x by (simp add: recv_plan_def receiving_def begin_recv_def)
  then have e: "RiffaIoctlRecv env rq d =
      events [Completed (handle rq) STATUS_SUCCESS 0, MarkCancelable (handle rq)] ?d"
    using recv_announced [OF assms(1-3) r24 assms(6,7), of env] assms(10)
    by (simp add: start_announced_def finish_def mark_ok event_events events_simps)
  have fields: "InUse (Chnl ?d ! r) = 1" "Request (Chnl ?d ! r) = Some (handle rq)"
    "ConfirmedPrev (Chnl ?d ! r) = 0" "Confirmed (Chnl ?d ! r) = 0"
    unfolding x by (simp_all add: receiving_def begin_recv_def)
  have again: "upd_chnl r (\<lambda>x. x\<lparr>InUse := 1\<rparr>) (RiffaIoctlRecv env rq d) = RiffaIoctlRecv env rq d"
    using r24 fields(1) unfolding e by (intro upd_chnl_id) (simp add: win_simps receiving_def begin_recv_def)
  have blocked: "RiffaIoctlRecv env rq' (RiffaIoctlRecv env rq d) =
      finish rq' STATUS_INVALID_PARAMETER (RiffaIoctlRecv env rq d)"
    if "get_io rq' = Inr io'" "io_Chnl io' = io_Chnl io" for rq' io'
  proof -
    have "InUse (Chnl (RiffaIoctlRecv env rq d) ! r) = 1" "NumChnls (RiffaIoctlRecv env rq d) = NumChnls d"
      unfolding e using fields(1) by (simp_all add: win_simps)
    then show ?thesis
      using that again rd assms(3) by (subst RiffaIoctlRecv_def) (simp add: Let_def)
  qed
  have "finished (handle rq) (RiffaCompleteRequest env r st (RiffaIoctlRecv env rq d)) =
      finished (handle rq) (RiffaIoctlRecv env rq d) @ [Completed (handle rq) st 0]"
    using fields assms(11) r24 unfolding e
    by (simp add: RiffaCompleteRequest_def UnmarkRequest_def Let_def win_simps)
      (simp add: finished_def win_simps)
  with blocked show ?thesis
    unfolding Let_def using e
    by (auto simp: finished_events finished_upd) (simp add: finished_def win_simps)
qed

definition announced_win :: device_extension where
  "announced_win = busy_device\<lparr>Chnl := replicate 24 (busy_chnl\<lparr>InUse := 0, Request := None, Ready := 2, Length := 0\<rparr>)\<rparr>"

theorem recv_zero_length_blocks_witness:
  "let e = RiffaIoctlRecv calm_env send_rq announced_win in
     finished 9 e = [Completed 9 STATUS_SUCCESS 0] \<and>
     RiffaIoctlRecv calm_env (send_rq\<lparr>handle := 10\<rparr>) e =
       finish (send_rq\<lparr>handle := 10\<rparr>) STATUS_INVALID_PARAMETER e"
proof -
  let ?io = "\<lparr>io_Chnl = 0, io_Length = 1250, io_Offset = 0, io_Last = 1, io_Timeout = 500\<rparr>"
  have g: "get_io send_rq = Inr ?io" "handle send_rq = 9" "get_io (send_rq\<lparr>handle := 10\<rparr>) = Inr ?io"
    by (simp_all add: get_io_def send_rq_def)
  have a: "\<forall>n. NT_SUCCESS (mark_answer calm_env n)" "\<forall>n. unmark_answer calm_env n (handle send_rq) \<noteq> STATUS_CANCELLED"
    by (simp_all add: calm_env_def NT_SUCCESS_def)
  have w: "NumChnls announced_win = 1" "length (Chnl announced_win) = 24" "trace announced_win = []"
    "Chnl announced_win ! 12 = busy_chnl\<lparr>InUse := 0, Request := None, Ready := 2, Length := 0\<rparr>"
    by (simp_all add: announced_win_def busy_device_def)
  from recv_zero_length_blocks [OF g(1), of 12 announced_win calm_env 0] a
  show ?thesis using g by (simp add: w busy_chnl_def Let_def finished_def)
qed

section \<open>Where the data of a receive goes\<close>

definition grows :: "device_extension \<Rightarrow> device_extension \<Rightarrow> bool" where
  "grows d e \<longleftrightarrow> length (Chnl e) = length (Chnl d) \<and> NumChnls e = NumChnls d \<and> (\<exists>es. trace e = trace d @ es)"

lemma grows_frame: "owner_frame env grows"
proof
  fix d e f :: device_extension
  assume "grows d e" "grows e f"
  then show "grows d f" by (auto simp: grows_def)
next
  fix c st and d :: device_extension
  show "grows d (RiffaCompleteRequest env c st d)"
    by (auto simp: grows_def RiffaCompleteRequest_def UnmarkRequest_def Let_def win_simps split: option.split)
qed (auto simp: grows_def win_simps)

interpretation growing: owner_frame env grows for env
  by (rule grows_frame)

lemma start_dma_at:
  assumes "c < length (Chnl d)" and "mdl_answer env (length (trace d)) = Inr (v, cnt)"
  shows "DmaInitialize c dir (v + 4 * off) ((if len < cnt then len else cnt) - off) \<in>
    set (trace (snd (RiffaStartDmaTransaction env c len off dir d)))"
proof -
  let ?i = "DmaInitialize c dir (v + 4 * off) ((if len < cnt then len else cnt) - off)"
  define d1 where "d1 = event ?i (event (RetrieveMdl (Request (Chnl d ! c))) d)"
  have i: "?i \<in> set (trace d1)" by (simp add: d1_def win_simps)
  have c1: "c < length (Chnl d1)" using assms(1) by (simp add: d1_def win_simps)
  have keep: "grows d1 e \<Longrightarrow> ?i \<in> set (trace e)" for e using i by (auto simp: grows_def)
  have "grows d1 (snd (RiffaStartDmaTransaction env c len off dir d))"
    using assms(2) c1
    by (auto simp: RiffaStartDmaTransaction_def Let_def win_simps d1_def [symmetric]
        intro!: growing.P_program_dma growing.then_event growing.P_refl split: dma_execution.split)
  then show ?thesis by (rule keep)
qed

text \<open>
  The device announces a receive with an offset, in bytes; the transaction is started four times that
  far into the buffer of the user, because the offset is added to a pointer to 32 bit words.
\<close>

theorem recv_offset_scaled:
  assumes "get_io rq = Inr io" and "r = 12 + unat (io_Chnl io)" and "unat (io_Chnl io) < NumChnls d"
    and "length (Chnl d) = 24" and "NumChnls d \<le> 12" and "InUse (Chnl d ! r) \<noteq> 1" and "Ready (Chnl d ! r) = 2"
    and "Length (Chnl d ! r) \<noteq> 0" and "Offset (Chnl d ! r) < push_bit 2 (words_of rq io)"
    and "mdl_answer env (length (trace d)) = Inr (v, cnt)"
  shows "\<exists>l. DmaInitialize r ReadFromDevice (v + 4 * Offset (Chnl d ! r)) l \<in> set (trace (RiffaIoctlRecv env rq d))"
proof -
  have r24: "r < length (Chnl d)" using assms(2-5) by simp
  let ?d = "upd_chnl r (\<lambda>x. (receiving rq io x)\<lparr>Ready := 0\<rparr>) (set_req_chnl rq r d)"
  have x: "Chnl ?d ! r = (receiving rq io (Chnl d ! r))\<lparr>Ready := 0\<rparr>" using r24 by (simp add: win_simps)
  have "\<exists>len. recv_plan (Chnl ?d ! r) = RecvDma len"
    using assms(8,9) unfolding x by (simp add: recv_plan_def receiving_def begin_recv_def)
  then obtain len where plan: "recv_plan (Chnl ?d ! r) = RecvDma len" by blast
  define d1 where "d1 = upd_chnl r (\<lambda>x. x\<lparr>SpillAfter := Capacity x - Offset x\<rparr>) ?d"
  have d1: "r < length (Chnl d1)" "trace d1 = trace d" "Offset (Chnl d1 ! r) = Offset (Chnl d ! r)"
    using r24 by (simp_all add: d1_def win_simps receiving_def begin_recv_def)
  obtain st d2 where s: "RiffaStartDmaTransaction env r len (Offset (Chnl d1 ! r)) ReadFromDevice d1 = (st, d2)"
    by fastforce
  have "\<exists>l. DmaInitialize r ReadFromDevice (v + 4 * Offset (Chnl d ! r)) l \<in> set (trace d2)"
    using start_dma_at [OF d1(1), of env v cnt ReadFromDevice "Offset (Chnl d1 ! r)" len] assms(10) s d1(2,3) by auto
  moreover have "start_announced env rq r ?d = (if \<not> NT_SUCCESS st then finish rq st d2 else d2)"
    using plan s by (simp add: start_announced_def d1_def Let_def)
  moreover have "set (trace e) \<subseteq> set (trace (mark_cancelable env rq e))" for e
    by (auto simp: mark_cancelable_def finish_def Let_def win_simps)
  ultimately show ?thesis
    unfolding recv_announced [OF assms(1-3) r24 assms(6,7), of env]
    by (auto simp: finish_def win_simps) (metis (no_types, lifting) UnCI event_fields(1) set_append subsetD)+
qed

text \<open>A buffer of 5000 bytes and an offset of 2048: the transaction starts behind the buffer.\<close>

theorem recv_offset_scaled_witness:
  "\<exists>a l. DmaInitialize 12 ReadFromDevice a l \<in> set (trace (RiffaIoctlRecv
      (calm_env\<lparr>mdl_answer := (\<lambda>_. Inr (0x10000, 5000))\<rparr>) send_rq
      (busy_device\<lparr>Chnl := replicate 24 (busy_chnl\<lparr>InUse := 0, Request := None, Ready := 2, Offset := 2048\<rparr>)\<rparr>))) \<and>
    0x10000 + 5000 \<le> a"
proof -
  let ?io = "\<lparr>io_Chnl = 0, io_Length = 1250, io_Offset = 0, io_Last = 1, io_Timeout = 500\<rparr>"
  let ?d = "busy_device\<lparr>Chnl := replicate 24 (busy_chnl\<lparr>InUse := 0, Request := None, Ready := 2, Offset := 2048\<rparr>)\<rparr>"
  have g: "get_io send_rq = Inr ?io" "words_of send_rq ?io = 1250"
    by (simp_all add: get_io_def send_rq_def words_of_def)
  from recv_offset_scaled [OF g(1), of 12 ?d "calm_env\<lparr>mdl_answer := (\<lambda>_. Inr (0x10000, 5000))\<rparr>" "0x10000" 5000]
  obtain l where "DmaInitialize 12 ReadFromDevice (0x10000 + 4 * 2048) l \<in>
      set (trace (RiffaIoctlRecv (calm_env\<lparr>mdl_answer := (\<lambda>_. Inr (0x10000, 5000))\<rparr>) send_rq ?d))"
    by (auto simp: g busy_device_def busy_chnl_def)
  then show ?thesis by (intro exI [of _ "0x10000 + 4 * 2048 :: u64"] exI [of _ l]) simp
qed

section \<open>Reset\<close>

definition freed :: "chnl_dir_state \<Rightarrow> chnl_dir_state" where
  "freed x = x\<lparr>Ready := 0, InUse := 0, ReqdDone := 0, ActiveCount := 0, Cancel := 0, Request := None\<rparr>"

lemma due_upd_intr: "due r (d\<lparr>IntrData := is\<rparr>) = due r d"
  by (simp add: due_def held_by_def)

lemma complete_effect:
  assumes "c < length (Chnl d)" and "\<forall>n q. unmark_answer env n q \<noteq> STATUS_CANCELLED"
  shows "Chnl (RiffaCompleteRequest env c st d) = (Chnl d)[c := (Chnl d ! c)\<lparr>Request := None\<rparr>]"
    "NumChnls (RiffaCompleteRequest env c st d) = NumChnls d"
proof -
  have id: "(Chnl d)[c := (Chnl d ! c)\<lparr>Request := None\<rparr>] = Chnl d" if "Request (Chnl d ! c) = None"
  proof -
    have "(Chnl d ! c)\<lparr>Request := None\<rparr> = Chnl d ! c" by (rule chnl_dir_state.equality) (simp_all add: that)
    then show ?thesis by simp
  qed
  show "Chnl (RiffaCompleteRequest env c st d) = (Chnl d)[c := (Chnl d ! c)\<lparr>Request := None\<rparr>]"
    "NumChnls (RiffaCompleteRequest env c st d) = NumChnls d"
    using assms id by (auto simp: RiffaCompleteRequest_def UnmarkRequest_def Let_def win_simps split: option.split)
qed

lemma reset_chnls_effect:
  assumes "length (Chnl d) = 24" and "i < 12" and "\<forall>n q. unmark_answer env n q \<noteq> STATUS_CANCELLED"
  shows "Chnl (reset_chnls env i d) = (Chnl d)[i := freed (Chnl d ! i), 12 + i := freed (Chnl d ! (12 + i))]"
    "NumChnls (reset_chnls env i d) = NumChnls d" "due r (reset_chnls env i d) = due r d"
proof -
  let ?d = "event (DmaRelease (12 + i)) (event (DmaRelease i) (upd_chnl (12 + i) idle_chnl (upd_chnl i idle_chnl d)))"
  have d: "Chnl ?d = (Chnl d)[i := idle_chnl (Chnl d ! i), 12 + i := idle_chnl (Chnl d ! (12 + i))]"
    "length (Chnl ?d) = 24" "NumChnls ?d = NumChnls d" "due r ?d = due r d"
    using assms(1,2) by (simp_all add: win_simps due_event due_upd_same idle_chnl_def)
  let ?e = "RiffaCompleteRequest env i STATUS_CANCELLED ?d"
  have i: "i < length (Chnl ?d)" using assms(2) d(2) by simp
  have e: "Chnl ?e = (Chnl d)[i := freed (Chnl d ! i), 12 + i := idle_chnl (Chnl d ! (12 + i))]"
    "NumChnls ?e = NumChnls d" "due r ?e = due r d"
    using complete_effect [OF i assms(3)] due_complete [OF i] d assms(1,2)
    by (simp_all add: list_update_swap freed_def idle_chnl_def)
  have j: "12 + i < length (Chnl ?e)" using assms(1,2) e(1) by simp
  show "Chnl (reset_chnls env i d) = (Chnl d)[i := freed (Chnl d ! i), 12 + i := freed (Chnl d ! (12 + i))]"
    "NumChnls (reset_chnls env i d) = NumChnls d" "due r (reset_chnls env i d) = due r d"
    using complete_effect [OF j assms(3)] due_complete [OF j] e assms(1,2)
    by (simp_all add: reset_chnls_def Let_def stop_timer_def win_simps due_event freed_def idle_chnl_def)
qed

lemma reset_fold:
  assumes "length (Chnl d) = 24" and "n \<le> 12" and "\<forall>n q. unmark_answer env n q \<noteq> STATUS_CANCELLED"
  shows "let e = fold (reset_chnls env) [0..<n] d in length (Chnl e) = 24 \<and> NumChnls e = NumChnls d \<and>
    due r e = due r d \<and>
    (\<forall>k < 12. Chnl e ! k = (if k < n then freed (Chnl d ! k) else Chnl d ! k) \<and>
       Chnl e ! (12 + k) = (if k < n then freed (Chnl d ! (12 + k)) else Chnl d ! (12 + k)))"
  using assms(2)
proof (induction n)
  case 0
  then show ?case using assms(1) by simp
next
  case (Suc n)
  let ?e = "fold (reset_chnls env) [0..<n] d"
  have IH: "length (Chnl ?e) = 24" "NumChnls ?e = NumChnls d" "due r ?e = due r d"
    "\<And>k. k < 12 \<Longrightarrow> Chnl ?e ! k = (if k < n then freed (Chnl d ! k) else Chnl d ! k) \<and>
       Chnl ?e ! (12 + k) = (if k < n then freed (Chnl d ! (12 + k)) else Chnl d ! (12 + k))"
    using Suc by (auto simp: Let_def)
  have n: "n < 12" using Suc.prems by simp
  note R = reset_chnls_effect [OF IH(1) n assms(3)]
  show ?case
    using IH n by (auto simp: Let_def R nth_list_update less_Suc_eq)
qed



end
