(* ===== verification/Win_Split.thy ===== *)
theory Win_Split
  imports Win_Xfer
begin

text \<open>
  A send of the Windows driver from the request to its completion.  The framework may split the buffer
  of the user into parts, each with a scatter gather list of its own: when the device has read the
  elements of a part it asks for more, finds none, is told where to stop, and signals the end; the
  framework then goes on with the next part, and after the last one the request is completed.
\<close>

section \<open>What is left of a part\<close>

lemma plan_all:
  "\<forall>e \<in> set es. 0 < snd e \<Longrightarrow> prov + sg_total es \<le> l \<Longrightarrow> plan l l la prov es = es"
proof (induction es arbitrary: prov)
  case (Cons e es)
  have "0 < unat (snd e)" using Cons.prems(1) by (simp add: word_less_nat_alt)
  then show ?case using Cons by (simp add: add.assoc)
qed (simp add: spill_count_def)

text \<open>
  A send of \<open>l\<close> bytes in flight: the elements \<open>left\<close> of the current part are still to be handed over,
  after which \<open>tot\<close> bytes have been.
\<close>

definition feeding :: "nat \<Rightarrow> nat \<Rightarrow> u64 \<Rightarrow> sg_list \<Rightarrow> nat \<Rightarrow> device_extension \<Rightarrow> bool" where
  "feeding c h l left tot d \<longleftrightarrow> in_flight c h 0 d \<and>
     (let x = Chnl d ! c in Length x = l \<and> SpillAfter x = l \<and> todo (SpillBufferBaseLA d) x = left \<and>
        unat (Provided x) + sg_total left = tot)"

lemma feeding_calm: "feeding c h l left tot (calm d) = feeding c h l left tot d"
  by (simp add: feeding_def calm_flight win_simps)

lemma device_view_calm: "device_view c (calm d) e = device_view c d e"
  by (simp add: device_view_def win_simps)

lemma sg_total_drop: "sg_total (take n es) + sg_total (drop n es) = sg_total es"
  by (metis append_take_drop_id sg_total_simps(3))

lemma program_feeds:
  assumes c: "c < 24" and d: "feeding c h l left tot d" and m: "MaxNumScatterGatherElems d = m" "m < 2 ^ 29"
    and e_def: "e = RiffaProgramScatterGather env c d"
  shows "feeding c h l (drop m left) tot e" "device_view c d e = map elem_words (take m left)"
    "stays c d e" "finished h e = finished h d" "left = [] \<and> tot < unat l \<Longrightarrow> ReqdDone (Chnl e ! c) = 1"
    "\<exists>es. trace e = trace d @ es"
proof -
  let ?x = "Chnl d ! c" and ?la = "SpillBufferBaseLA d"
  define n where "n = min (MaxNumScatterGatherElems d) (length (todo ?la ?x))"
  have fl: "in_flight c h 0 d" and x: "Length ?x = l" "SpillAfter ?x = l" "todo ?la ?x = left"
    "unat (Provided ?x) + sg_total left = tot" using d by (simp_all add: feeding_def Let_def)
  have q: "c < length (Chnl d)" "Request ?x = Some h" "\<not> (ActiveCount ?x = 0 \<and> Cancel ?x = 1)"
    "fill_ok (MaxNumScatterGatherElems d) ?x" using c fl by (simp_all add: in_flight_def Let_def)
  obtain pos prov buf where P:
    "e = events (TimerStop c # announce_log c ?x n prov @ timer_log c ?x) (upd_chnl c (filled n pos prov buf) d)"
    "buf_elems n buf = map elem_words (take n left)" "unat prov = unat (Provided ?x) + sg_total (take n left)"
    "todo ?la (filled n pos prov buf ?x) = drop n left"
    using program_sg_fill [OF q n_def, of env] x(3) by (auto simp: e_def)
  have nm: "take n left = take m left" "drop n left = drop m left" "n \<le> m" by (auto simp: n_def x(3) m(1) min_def)
  note K = program_keeps_flight [OF c fl, of env, folded e_def]
  show "stays c d e" "finished h e = finished h d" by (rule K)+
  have y: "Chnl e ! c = filled n pos prov buf ?x" "SpillBufferBaseLA e = ?la"
    using q(1) by (simp_all add: P(1) win_simps)
  show "feeding c h l (drop m left) tot e"
    using K(1) x P(3,4) sg_total_drop [of m left] by (simp add: feeding_def y nm) (simp add: filled_def)
  show "\<exists>es. trace e = trace d @ es" by (simp add: P(1) win_simps)
  have n4: "unat (of_nat (n * 4) :: u32) = n * 4"
    using m nm(3) by (simp add: unat_of_nat del: of_nat_mult)
  show "device_view c d e = map elem_words (take m left)"
    using q(1) P(2) n4 nm(1)
    by (cases "n = 0") (simp_all add: device_view_def P(1) win_simps len_writes_log filled_def del: of_nat_mult)
  show "ReqdDone (Chnl e ! c) = 1" if "left = [] \<and> tot < unat l"
  proof -
    have "n = 0" "prov < Length ?x" using that x P(3) by (simp_all add: n_def word_less_nat_alt)
    then show ?thesis by (simp add: y(1)) (simp add: filled_def)
  qed
qed

section \<open>Interrupts with the answers given during each\<close>

fun answered_run :: "nat \<Rightarrow> (wenv \<times> intr_chnl_dir_data) list \<Rightarrow> device_extension \<Rightarrow> device_extension" where
  "answered_run c [] d = d"
| "answered_run c ((env, f) # is) d = answered_run c is (RiffaEvtInterruptDpc env (signalled c f d))"

text \<open>The elements the device is given during the run.\<close>

fun run_view :: "nat \<Rightarrow> (wenv \<times> intr_chnl_dir_data) list \<Rightarrow> device_extension \<Rightarrow> (u32 \<times> u32 \<times> u32) list" where
  "run_view c [] d = []"
| "run_view c ((env, f) # is) d =
     (let e = RiffaEvtInterruptDpc env (signalled c f d) in device_view c d e @ run_view c is e)"

lemma answered_run_append: "answered_run c (is @ js) d = answered_run c js (answered_run c is d)"
  by (induction "is" arbitrary: d) auto

lemma run_view_append: "run_view c (is @ js) d = run_view c is d @ run_view c js (answered_run c is d)"
  by (induction "is" arbitrary: d) (auto simp: Let_def)

lemma take_drop_add: "take a xs @ take b (drop a xs) = take (a + b) xs"
  by (simp add: take_add)

lemma reads_feed:
  assumes "c < 24" and "used_chnl c d" and "feeding c h l left tot d" and "MaxNumScatterGatherElems d = m"
    and m: "m < 2 ^ 29"
  shows "let is = map (\<lambda>env. (env, sg_read)) envs; e = answered_run c is d in
    feeding c h l (drop (length envs * m) left) tot e \<and> stays c d e \<and> finished h e = finished h d \<and>
    run_view c is d = map elem_words (take (length envs * m) left) \<and>
    (envs \<noteq> [] \<and> length left \<le> (length envs - 1) * m \<and> tot < unat l \<longrightarrow> ReqdDone (Chnl e ! c) = 1)"
  using assms(2-4)
proof (induction envs arbitrary: d left)
  case Nil
  then show ?case by (simp add: stays_def)
next
  case (Cons env envs)
  let ?d1 = "RiffaEvtInterruptDpc env (signalled c sg_read d)"
  have d1: "?d1 = RiffaProgramScatterGather env c (calm d)" by (rule dpc_sg_read [OF Cons.prems(1)])
  have "MaxNumScatterGatherElems (calm d) = m" using Cons.prems(3) by (simp add: win_simps)
  note P = program_feeds [OF assms(1) _ this m d1, of h l left tot, unfolded feeding_calm, OF Cons.prems(2)]
  have s: "stays c d ?d1" by (rule stays_trans [OF stays_calm P(3)])
  have m1: "MaxNumScatterGatherElems ?d1 = m" using s Cons.prems(3) by (simp add: stays_def)
  note I = Cons.IH [OF used_stays [OF Cons.prems(1) s] P(1) m1]
  show ?case
  proof (cases "envs = []")
    case True
    then show ?thesis using P s by (simp add: Let_def device_view_calm calm_flight)
  next
    case False
    let ?is = "map (\<lambda>env. (env, sg_read)) envs" and ?k = "length envs"
    have "?k * m = m + (?k - 1) * m" using False by (cases envs) auto
    then have r: "length left \<le> ?k * m \<Longrightarrow> length (drop m left) \<le> (?k - 1) * m" by simp
    have v: "map elem_words (take m left) @ map elem_words (take (?k * m) (drop m left)) =
      map elem_words (take (Suc ?k * m) left)" by (simp add: take_add)
    have l: "drop (?k * m) (drop m left) = drop (Suc ?k * m) left" by (simp add: add.commute)
    have i: "feeding c h l (drop (Suc ?k * m) left) tot (answered_run c ?is ?d1)"
      "stays c ?d1 (answered_run c ?is ?d1)" "finished h (answered_run c ?is ?d1) = finished h ?d1"
      "run_view c ?is ?d1 = map elem_words (take (?k * m) (drop m left))"
      "length left \<le> ?k * m \<and> tot < unat l \<Longrightarrow> ReqdDone (Chnl (answered_run c ?is ?d1) ! c) = 1"
      using I False r unfolding Let_def l by blast+
    show ?thesis
      unfolding Let_def using i stays_trans [OF s i(2)] P(2,4) v
      by (simp add: device_view_calm calm_flight Let_def del: mult_Suc)
  qed
qed

section \<open>The end of a part\<close>

lemma len_writes_append: "len_writes r (es @ es') = len_writes r es @ len_writes r es'"
  by (induction es rule: len_writes.induct) auto

lemma device_view_skip:
  assumes "trace d' = trace d @ es" and "len_writes (sg_len_reg c) es = []" and "\<exists>es. trace e = trace d' @ es"
  shows "device_view c d e = device_view c d' e"
  using assms by (auto simp: device_view_def len_writes_append)

text \<open>The framework goes on with the next list.\<close>

lemma next_part:
  assumes c: "c < 12" and u: "used_chnl c d" and d: "feeding c h l [] tot d" and m: "MaxNumScatterGatherElems d = m" "m < 2 ^ 29"
    and rq: "ReqdDone (Chnl d ! c) = 1" and es: "\<forall>e \<in> set es. 0 < snd e" "tot + sg_total es \<le> unat l"
    and env: "\<forall>n. completion_answer env n = TxnMore (Some es) \<and> bytes_answer env n \<noteq> 0"
    and e_def: "e = RiffaEvtInterruptDpc env (signalled c txn_done d)"
  shows "feeding c h l (drop m es) (tot + sg_total es) e" "device_view c d e = map elem_words (take m es)"
    "stays c d e" "finished h e = finished h d"
proof -
  define d' where "d' = events [DmaCompleted c, DmaBytes c]
    (upd_chnl c (\<lambda>x. x\<lparr>ReqdDone := 0, SgList := Some es, SgPos := 0\<rparr>) (calm d))"
  have x: "length (Chnl d) = 24" "Request (Chnl d ! c) = Some h" and fl: "in_flight c h 0 d"
    using d by (simp_all add: feeding_def in_flight_def Let_def)
  have a: "completion_answer env n = TxnMore (Some es)" "(bytes_answer env n = 0) = False" for n using env by auto
  have e: "e = RiffaProgramScatterGather env c d'"
    unfolding e_def dpc_txn_done [OF u] using c x rq
    by (simp add: a transfer_done_def dma_completed_def RiffaEvtProgramDma_def dir_of_def Let_def win_simps event_events
        events_upd events_simps d'_def comp_def)
  have f: "feeding c h l es (tot + sg_total es) d'"
    using d c x es fl plan_all [OF es]
    by (simp add: feeding_def Let_def d'_def win_simps in_flight_def fill_ok_def todo_def sgs_left_def)
  have m': "MaxNumScatterGatherElems d' = m" using m by (simp add: d'_def win_simps)
  have t: "trace d' = trace d @ [DmaCompleted c, DmaBytes c]" by (simp add: d'_def win_simps)
  have "c < 24" using c by simp
  note P = program_feeds [OF this f m' m(2) e]
  show "feeding c h l (drop m es) (tot + sg_total es) e" by (rule P)
  show "device_view c d e = map elem_words (take m es)"
    using device_view_skip [OF t _ P(6)] P(2) by simp
  have "stays c d d'" using c x by (simp add: stays_def d'_def win_simps)
  then show "stays c d e" using P(3) stays_trans by blast
  show "finished h e = finished h d" using P(4) by (simp add: finished_def t)
qed

text \<open>There is no next list: the request is completed.\<close>

lemma no_next_part:
  assumes c: "c < 12" and u: "used_chnl c d" and d: "in_flight c h 0 d"
    and env: "\<forall>n. completion_answer env n = TxnComplete st \<and> unmark_answer env n h \<noteq> STATUS_CANCELLED"
    and e_def: "e = RiffaEvtInterruptDpc env (signalled c txn_done d)"
  shows "\<exists>n. finished h e = finished h d @ [Completed h st (ucast (reg_value env n (done_reg c)))] \<and>
    n < length (trace e) \<and> trace e ! n = RegRd (done_reg c)"
    "InUse (Chnl e ! c) = 0" "Request (Chnl e ! c) = None" "ActiveCount (Chnl e ! c) = 0" "device_view c d e = []"
proof -
  have c24: "c < 24" using c by simp
  have last: "c < 12 \<or> Last (Chnl (calm d) ! c) \<noteq> 0" using c by simp
  have e: "e = transfer_done env c (done_reg c) (calm d)" unfolding e_def by (rule dpc_txn_done [OF u])
  have st: "completion_answer env (length (trace (calm d))) = TxnComplete st"
    and um: "\<And>n. unmark_answer env n h \<noteq> STATUS_CANCELLED" using env by simp_all
  have fl: "in_flight c h 0 (calm d)" using d by (simp add: calm_flight)
  note D = done_completes [OF c24 fl last st um refl e]
  show "\<exists>n. finished h e = finished h d @ [Completed h st (ucast (reg_value env n (done_reg c)))] \<and>
    n < length (trace e) \<and> trace e ! n = RegRd (done_reg c)"
    using D by (intro exI [of _ "Suc (length (trace d))"]) (simp add: calm_flight win_simps drop_push_words)
  show "InUse (Chnl e ! c) = 0" "Request (Chnl e ! c) = None" "ActiveCount (Chnl e ! c) = 0" using D by simp_all
  show "device_view c d e = []"
    unfolding e done_effect [OF c24 fl last st um refl] by (simp add: device_view_def win_simps)
qed

section \<open>All parts\<close>

text \<open>
  A part: its list, and what the framework answers during the interrupts that ask for more elements
  and during the one at the end.
\<close>

record send_part =
  elems :: sg_list
  asks :: "wenv list"
  ends :: wenv

definition part_intrs :: "send_part \<Rightarrow> (wenv \<times> intr_chnl_dir_data) list" where
  "part_intrs p = map (\<lambda>env. (env, sg_read)) (asks p) @ [(ends p, txn_done)]"

fun goes_on :: "nat \<Rightarrow> ntstatus \<Rightarrow> send_part list \<Rightarrow> bool" where
  "goes_on h st [] = False"
| "goes_on h st [p] =
     (\<forall>n. completion_answer (ends p) n = TxnComplete st \<and> unmark_answer (ends p) n h \<noteq> STATUS_CANCELLED)"
| "goes_on h st (p # q # ps) =
     ((\<forall>n. completion_answer (ends p) n = TxnMore (Some (elems q)) \<and> bytes_answer (ends p) n \<noteq> 0) \<and>
      goes_on h st (q # ps))"

text \<open>The elements of all parts but the last, and those of the last the device has asked for.\<close>

fun asked :: "nat \<Rightarrow> send_part list \<Rightarrow> sg_list" where
  "asked m [] = []"
| "asked m [p] = take (Suc (length (asks p)) * m) (elems p)"
| "asked m (p # q # ps) = elems p @ asked m (q # ps)"

definition well_split :: "nat \<Rightarrow> nat \<Rightarrow> send_part list \<Rightarrow> bool" where
  "well_split m l ps \<longleftrightarrow> (\<Sum>p\<leftarrow>ps. sg_total (elems p)) \<le> l \<and>
     (\<forall>p \<in> set ps. elems p \<noteq> [] \<and> (\<forall>e \<in> set (elems p). 0 < snd e)) \<and>
     (\<forall>p \<in> set (butlast ps). length (elems p) \<le> length (asks p) * m)"

definition closed_with :: "nat \<Rightarrow> nat \<Rightarrow> ntstatus \<Rightarrow> wenv \<Rightarrow> device_extension \<Rightarrow> device_extension \<Rightarrow> bool" where
  "closed_with c h st env d e \<longleftrightarrow>
     (\<exists>n. finished h e = finished h d @ [Completed h st (ucast (reg_value env n (done_reg c)))] \<and>
        n < length (trace e) \<and> trace e ! n = RegRd (done_reg c)) \<and>
     InUse (Chnl e ! c) = 0 \<and> Request (Chnl e ! c) = None \<and> ActiveCount (Chnl e ! c) = 0"

lemma part_asked:
  assumes "c < 24" and "used_chnl c d" and "feeding c h l (drop m (elems p)) tot d" and "MaxNumScatterGatherElems d = m"
    and "m < 2 ^ 29"
  obtains e where "answered_run c (part_intrs p) d = RiffaEvtInterruptDpc (ends p) (signalled c txn_done e)"
    "run_view c (part_intrs p) d = map elem_words (take (length (asks p) * m) (drop m (elems p))) @
       device_view c e (answered_run c (part_intrs p) d)"
    "feeding c h l (drop (Suc (length (asks p)) * m) (elems p)) tot e" "stays c d e" "finished h e = finished h d"
    "asks p \<noteq> [] \<and> length (elems p) \<le> length (asks p) * m \<and> tot < unat l \<longrightarrow> ReqdDone (Chnl e ! c) = 1"
proof -
  let ?is = "map (\<lambda>env. (env, sg_read)) (asks p)" and ?k = "length (asks p)"
  define e where "e = answered_run c ?is d"
  note R = reads_feed [OF assms, of "asks p", unfolded Let_def, folded e_def]
  have j: "asks p \<noteq> [] \<Longrightarrow> ?k * m = m + (?k - 1) * m" by (cases "asks p") auto
  have l: "drop (?k * m) (drop m (elems p)) = drop (Suc ?k * m) (elems p)" by (simp add: add.commute)
  show ?thesis
  proof (rule that [of e])
    show "answered_run c (part_intrs p) d = RiffaEvtInterruptDpc (ends p) (signalled c txn_done e)"
      by (simp add: part_intrs_def answered_run_append e_def)
    show "run_view c (part_intrs p) d = map elem_words (take (?k * m) (drop m (elems p))) @
        device_view c e (answered_run c (part_intrs p) d)"
      using R by (simp add: part_intrs_def answered_run_append run_view_append e_def Let_def)
    show "feeding c h l (drop (Suc ?k * m) (elems p)) tot e" "stays c d e" "finished h e = finished h d"
      using R unfolding l by blast+
    show "asks p \<noteq> [] \<and> length (elems p) \<le> ?k * m \<and> tot < unat l \<longrightarrow> ReqdDone (Chnl e ! c) = 1"
      using R j by auto
  qed
qed

lemma parts_complete:
  assumes c: "c < 12" and m: "m < 2 ^ 29"
    and "used_chnl c d" and "feeding c h l (drop m (elems p)) tot d" and "MaxNumScatterGatherElems d = m"
    and "goes_on h st (p # ps)" and "tot + (\<Sum>q\<leftarrow>ps. sg_total (elems q)) \<le> unat l"
    and "\<forall>q \<in> set (p # ps). elems q \<noteq> [] \<and> (\<forall>e \<in> set (elems q). 0 < snd e)"
    and "\<forall>q \<in> set (butlast (p # ps)). length (elems q) \<le> length (asks q) * m"
  shows "let js = concat (map part_intrs (p # ps)) in
    closed_with c h st (ends (last (p # ps))) d (answered_run c js d) \<and>
    map elem_words (take m (elems p)) @ run_view c js d = map elem_words (asked m (p # ps))"
  using assms(3-)
proof (induction ps arbitrary: p d tot)
  case Nil
  have c24: "c < 24" using c by simp
  let ?e' = "answered_run c (part_intrs p) d"
  obtain e where E: "?e' = RiffaEvtInterruptDpc (ends p) (signalled c txn_done e)"
    "run_view c (part_intrs p) d = map elem_words (take (length (asks p) * m) (drop m (elems p))) @ device_view c e ?e'"
    "feeding c h l (drop (Suc (length (asks p)) * m) (elems p)) tot e" "stays c d e" "finished h e = finished h d"
    by (rule part_asked [OF c24 Nil.prems(1-3) m])
  have fl: "in_flight c h 0 e" using E(3) by (simp add: feeding_def)
  have env: "\<forall>n. completion_answer (ends p) n = TxnComplete st \<and> unmark_answer (ends p) n h \<noteq> STATUS_CANCELLED"
    using Nil.prems(4) by simp
  note D = no_next_part [OF c used_stays [OF Nil.prems(1) E(4)] fl env E(1)]
  have "map elem_words (take m (elems p)) @ run_view c (part_intrs p) d = map elem_words (asked m [p])"
    by (simp add: E(2) D(5) take_add)
  then show ?case using D(1-4) E(5) by (simp add: closed_with_def)
next
  case (Cons q ps)
  have c24: "c < 24" using c by simp
  let ?e' = "answered_run c (part_intrs p) d"
  obtain e where E: "?e' = RiffaEvtInterruptDpc (ends p) (signalled c txn_done e)"
    "run_view c (part_intrs p) d = map elem_words (take (length (asks p) * m) (drop m (elems p))) @ device_view c e ?e'"
    "feeding c h l (drop (Suc (length (asks p)) * m) (elems p)) tot e" "stays c d e" "finished h e = finished h d"
    "asks p \<noteq> [] \<and> length (elems p) \<le> length (asks p) * m \<and> tot < unat l \<longrightarrow> ReqdDone (Chnl e ! c) = 1"
    by (rule part_asked [OF c24 Cons.prems(1-3) m])
  have k: "length (elems p) \<le> length (asks p) * m" "elems p \<noteq> []" "elems q \<noteq> []" "\<forall>e \<in> set (elems q). 0 < snd e"
    using Cons.prems(6,7) by simp_all
  then have "asks p \<noteq> []" by auto
  moreover have "0 < sg_total (elems q)" using k(3,4) by (cases "elems q") (auto simp: word_less_nat_alt)
  then have "tot < unat l" using Cons.prems(5) by simp
  ultimately have rd: "ReqdDone (Chnl e ! c) = 1" using E(6) k(1) by simp
  have u: "used_chnl c e" and me: "MaxNumScatterGatherElems e = m"
    using used_stays [OF Cons.prems(1) E(4)] E(4) Cons.prems(3) by (simp_all add: stays_def)
  have none: "drop (Suc (length (asks p)) * m) (elems p) = []" using k(1) by simp
  have fit: "tot + sg_total (elems q) \<le> unat l" using Cons.prems(5) by simp
  have env: "\<forall>n. completion_answer (ends p) n = TxnMore (Some (elems q)) \<and> bytes_answer (ends p) n \<noteq> 0"
    using Cons.prems(4) by simp
  note N = next_part [OF c u E(3) [unfolded none] me m rd k(4) fit env E(1)]
  have u': "used_chnl c ?e'" "MaxNumScatterGatherElems ?e' = m" using used_stays [OF u N(3)] N(3) me by (simp_all add: stays_def)
  have "goes_on h st (q # ps)" "tot + sg_total (elems q) + (\<Sum>q\<leftarrow>ps. sg_total (elems q)) \<le> unat l"
    "\<forall>q \<in> set (q # ps). elems q \<noteq> [] \<and> (\<forall>e \<in> set (elems q). 0 < snd e)"
    "\<forall>q \<in> set (butlast (q # ps)). length (elems q) \<le> length (asks q) * m"
    using Cons.prems(4-7) by (simp_all add: add.assoc)
  note I = Cons.IH [OF u'(1) N(1) u'(2) this, unfolded Let_def]
  define js where "js = concat (map part_intrs (q # ps))"
  have split: "concat (map part_intrs (p # q # ps)) = part_intrs p @ js" by (simp add: js_def)
  have "take (Suc (length (asks p)) * m) (elems p) = elems p" using k(1) by simp
  then have "take m (elems p) @ take (length (asks p) * m) (drop m (elems p)) = elems p" by (simp add: take_add)
  then have v: "map elem_words (take m (elems p)) @ map elem_words (take (length (asks p) * m) (drop m (elems p))) =
    map elem_words (elems p)" by (simp flip: map_append)
  have "map elem_words (take m (elems p)) @ run_view c (part_intrs p @ js) d =
      (map elem_words (take m (elems p)) @ map elem_words (take (length (asks p) * m) (drop m (elems p)))) @
      (map elem_words (take m (elems q)) @ run_view c js ?e')"
    by (simp only: run_view_append E(2) N(2) append_assoc)
  also have "\<dots> = map elem_words (asked m (p # q # ps))"
    unfolding v js_def using I by simp
  finally have "map elem_words (take m (elems p)) @ run_view c (part_intrs p @ js) d = map elem_words (asked m (p # q # ps))" .
  moreover have "closed_with c h st (ends (last (p # q # ps))) d (answered_run c (part_intrs p @ js) d)"
    using I N(4) E(5) unfolding js_def [symmetric] by (simp add: closed_with_def answered_run_append)
  ultimately show ?case unfolding split Let_def by blast
qed

section \<open>The request\<close>

lemma send_starts:
  assumes io: "get_io rq = Inr io" "io_Last io \<le> 1" and c: "c = unat (io_Chnl io)" "c < NumChnls d" "NumChnls d \<le> 12"
    and len: "length (Chnl d) = 24" and idle: "InUse (Chnl d ! c) \<noteq> 1" and nz: "words_of rq io \<noteq> 0"
    and room: "4 * MaxNumScatterGatherElems d \<le> length (CommonBuffer (Chnl d ! c))"
    and m: "MaxNumScatterGatherElems d = m" "m < 2 ^ 29"
    and g: "grants env v cnt es" and es: "\<forall>e \<in> set es. 0 < snd e" "sg_total es \<le> 4 * unat (words_of rq io)"
    and d'_def: "d' = RiffaIoctlSend env rq d"
  obtains pre post where
    "feeding c (handle rq) (push_bit 2 (words_of rq io)) (drop m es) (sg_total es) d'"
    "NumChnls d' = NumChnls d" "MaxNumScatterGatherElems d' = m" "device_view c d d' = map elem_words (take m es)"
    "trace d' = trace d @ pre @ send_log c (sending rq io (Chnl d ! c)) @ post" "finished (handle rq) d' = finished (handle rq) d"
proof -
  let ?x = "sending rq io (Chnl d ! c)" and ?la = "SpillBufferBaseLA d" and ?l = "push_bit 2 (words_of rq io)"
  let ?y = "with_list es ?x"
  define d1 where "d1 = upd_chnl c (sending rq io) (set_req_chnl rq c d)"
  have x1: "Chnl d1 ! c = ?x" and d1: "length (Chnl d1) = 24" "c < length (Chnl d1)" "trace d1 = trace d"
    "MaxNumScatterGatherElems d1 = MaxNumScatterGatherElems d" "NumChnls d1 = NumChnls d" "SpillBufferBaseLA d1 = ?la"
    using c len by (simp_all add: d1_def win_simps)
  have ok: "fill_ok (MaxNumScatterGatherElems d) ?y" by (rule sending_fill_ok [OF room])
  have lb: "unat ?l = 4 * unat (words_of rq io)" by (rule unat_words [OF words_of_bound])
  have y: "Length ?y = ?l" "SpillAfter ?y = ?l" "Provided ?y = 0" "sgs_left ?y = es"
    by (simp_all add: with_list_def sending_def begin_send_def sgs_left_def)
  have td: "todo ?la ?y = es" using plan_all [OF es(1), of 0 "unat ?l"] es(2) by (simp add: todo_def y lb)
  define n where "n = min (MaxNumScatterGatherElems d) (length (todo ?la ?y))"
  obtain pos prov buf where f: "fill_elems (MaxNumScatterGatherElems d) ?la ?y = (n, pos, prov, buf, [])"
    "length buf = length (CommonBuffer ?y)" "buf_elems n buf = map elem_words (take n es)"
    "unat prov = sg_total (take n es)" "todo ?la (filled n pos prov buf ?y) = drop n es"
    using fill_elems_spec [OF ok n_def] by (auto simp: td y)
  have nm: "take n es = take m es" "drop n es = drop m es" "n \<le> m" by (auto simp: n_def td m(1) min_def)
  have env: "\<And>n. mdl_answer env n = Inr (v, cnt)" "\<And>n. NT_SUCCESS (init_answer env n)"
    "\<And>n. exec_answer env n = ExecNow es" "\<And>n. bytes_answer env n = 0" "\<And>n. NT_SUCCESS (mark_answer env n)"
    using g by (simp_all add: grants_def)
  have fields: "Request ?x = Some (handle rq)" "ActiveCount ?x = 0" "Cancel ?x = 0" "ConfirmedPrev ?x = 0"
    by (simp_all add: sending_def begin_send_def)
  define pre where "pre = [RetrieveMdl (Some (handle rq)), DmaInitialize c WriteToDevice (v + 4 * 0)
      ((if ?l < cnt then ?l else cnt) - 0), DmaExecute c, DmaBytes c]"
  define post where "post = TimerStop c # announce_log c ?x n prov @ timer_log c ?x @ [MarkCancelable (handle rq)]"
  have st: "RiffaStartDmaTransaction env c ?l 0 WriteToDevice d1 =
    (STATUS_SUCCESS, events
      ([RetrieveMdl (Some (handle rq)), DmaInitialize c WriteToDevice (v + 4 * 0)
         ((if ?l < cnt then ?l else cnt) - 0), DmaExecute c] @
       start_log c WriteToDevice (Chnl d1 ! c) @
       TimerStop c # announce_log c (Chnl d1 ! c) n prov @ timer_log c (Chnl d1 ! c))
      (upd_chnl c (\<lambda>x. filled n pos prov buf (with_list es x)) d1))"
    by (rule start_dma_effect [where sgs = es and v = v and cnt = cnt and r = "handle rq"])
      (use fields ok f(1) c(2,3) d1 env in \<open>simp_all add: x1 n_def\<close>)
  have up: "upd_chnl c (begin_send rq io (words_of rq io)) (set_req_chnl rq c (upd_chnl c (\<lambda>x. x\<lparr>InUse := 1\<rparr>) d)) = d1"
    using c len by (simp add: d1_def upd_chnl_def set_req_chnl_def sending_def)
  have nl: "\<not> 1 < io_Last io" using io(2) by (simp add: not_less)
  have r: "d' = events (pre @ send_log c ?x @ post) (upd_chnl c (\<lambda>x. filled n pos prov buf (with_list es x)) d1)"
    using io(1) nl c(2,3) idle nz st up env(5) status_success(1)
    by (simp add: d'_def RiffaIoctlSend_def Let_def c(1) [symmetric] mark_ok not_le x1 pre_def post_def start_log_def event_events events_simps)
  have z: "Chnl d' ! c = filled n pos prov buf ?y" "length (Chnl d') = 24" "SpillBufferBaseLA d' = ?la"
    using d1 by (simp_all add: r win_simps x1)
  have "Provided ?y \<le> prov" by (simp add: y(3))
  then have "fill_ok (MaxNumScatterGatherElems d) (filled n pos prov buf ?y)" using fill_ok_filled [OF ok f(2)] by blast
  then have fl: "in_flight c (handle rq) 0 d'"
    using z d1 fields unfolding in_flight_def Let_def z(1)
    by (simp add: r win_simps) (simp add: filled_def with_list_def)
  have total: "unat prov + sg_total (drop m es) = sg_total es" using f(4) sg_total_drop [of n es] by (simp add: nm(2))
  show ?thesis
  proof (rule that [of pre post])
    show "feeding c (handle rq) ?l (drop m es) (sg_total es) d'"
      using fl f(5) y total by (simp add: feeding_def z nm(2)) (simp add: filled_def)
    show "NumChnls d' = NumChnls d" "MaxNumScatterGatherElems d' = m" using d1 m by (simp_all add: r win_simps)
    have n4: "unat (of_nat (n * 4) :: u32) = n * 4"
      using m(2) nm(3) by (simp add: unat_of_nat del: of_nat_mult)
    have "len_writes (sg_len_reg c) (pre @ send_log c ?x @ post) = len_writes (sg_len_reg c) (announce_log c ?x n prov @ timer_log c ?x)"
      by (simp add: pre_def post_def send_log_def len_writes_append sg_len_reg_def chnl_reg_neq)
    then show "device_view c d d' = map elem_words (take m es)"
      using f(3) n4 nm(1) unfolding len_writes_log
      by (cases "n = 0") (simp_all add: device_view_def z(1), simp_all add: r win_simps d1 filled_def del: of_nat_mult)
    show "trace d' = trace d @ pre @ send_log c ?x @ post" using d1 by (simp add: r win_simps)
    show "finished (handle rq) d' = finished (handle rq) d"
      by (simp add: r finished_events finished_upd pre_def post_def logs_silent) (simp add: send_log_def finished_def d1)
  qed
qed

section \<open>A send from request to completion\<close>

text \<open>C18: A send that the framework splits into any number of parts: the device is told offset, last flag and
  length; it is given the elements of every part in order, those of the last part as far as it asks
  for them; no end of a part before the last completes or aborts the request; the end of the last part
  completes it, once, with the number of words the device reports in its register, and the channel is
  free for the next request.
\<close>

theorem win_send_completes:
  assumes "get_io rq = Inr io" and "io_Last io \<le> 1" and "c = unat (io_Chnl io)" and "c < NumChnls d"
    and "NumChnls d \<le> 12" and "length (Chnl d) = 24" and "InUse (Chnl d ! c) \<noteq> 1" and "words_of rq io \<noteq> 0"
    and "4 * MaxNumScatterGatherElems d \<le> length (CommonBuffer (Chnl d ! c))"
    and "MaxNumScatterGatherElems d = m" and "m < 2 ^ 29" and "grants env v cnt (elems p)" and "io_Offset io < 2 ^ 30"
    and "goes_on (handle rq) st (p # ps)" and "well_split m (4 * unat (words_of rq io)) (p # ps)"
  shows "\<exists>n pre post.
    (let d1 = RiffaIoctlSend env rq d; js = concat (map part_intrs (p # ps)); e = answered_run c js d1;
         reg = WIN_CHNL_REG c RIFFA_RX_TNFR_LEN_REG in
     trace d1 = trace d @ pre @
       [RegWr (WIN_CHNL_REG c RIFFA_RX_OFFLAST_REG) (push_bit 1 (io_Offset io) OR io_Last io),
        RegWr (WIN_CHNL_REG c RIFFA_RX_LEN_REG) (ucast (words_of rq io))] @ post \<and>
     device_view c d d1 @ run_view c js d1 = map elem_words (asked m (p # ps)) \<and>
     finished (handle rq) e = finished (handle rq) d @
       [Completed (handle rq) st (ucast (reg_value (ends (last (p # ps))) n reg))] \<and>
     n < length (trace e) \<and> trace e ! n = RegRd reg \<and>
     InUse (Chnl e ! c) = 0 \<and> Request (Chnl e ! c) = None \<and> ActiveCount (Chnl e ! c) = 0)"
proof -
  define d1 where "d1 = RiffaIoctlSend env rq d"
  let ?js = "concat (map part_intrs (p # ps))" and ?l = "push_bit 2 (words_of rq io)"
  have W: "(\<Sum>q\<leftarrow>p # ps. sg_total (elems q)) \<le> 4 * unat (words_of rq io)"
    "\<forall>q \<in> set (p # ps). elems q \<noteq> [] \<and> (\<forall>e \<in> set (elems q). 0 < snd e)"
    "\<forall>q \<in> set (butlast (p # ps)). length (elems q) \<le> length (asks q) * m"
    using assms(15) unfolding well_split_def by blast+
  have es: "\<forall>e \<in> set (elems p). 0 < snd e" "sg_total (elems p) \<le> 4 * unat (words_of rq io)" using W(1,2) by simp_all
  obtain pre post where S:
    "feeding c (handle rq) ?l (drop m (elems p)) (sg_total (elems p)) d1"
    "NumChnls d1 = NumChnls d" "MaxNumScatterGatherElems d1 = m" "device_view c d d1 = map elem_words (take m (elems p))"
    "trace d1 = trace d @ pre @ send_log c (sending rq io (Chnl d ! c)) @ post" "finished (handle rq) d1 = finished (handle rq) d"
    by (rule send_starts [OF assms(1-12) es d1_def])
  have c: "c < 12" and u: "used_chnl c d1" using assms(4,5) S(2) by (simp_all add: used_chnl_def)
  have fit: "sg_total (elems p) + (\<Sum>q\<leftarrow>ps. sg_total (elems q)) \<le> unat ?l"
    using W(1) by (simp add: unat_words [OF words_of_bound])
  note P = parts_complete [OF c assms(11) u S(1,3) assms(14) fit W(2,3), unfolded Let_def]
  then obtain n where "finished (handle rq) (answered_run c ?js d1) = finished (handle rq) d @
      [Completed (handle rq) st (ucast (reg_value (ends (last (p # ps))) n (done_reg c)))]"
    "n < length (trace (answered_run c ?js d1))" "trace (answered_run c ?js d1) ! n = RegRd (done_reg c)"
    using S(6) by (auto simp: closed_with_def)
  moreover have "done_reg c = WIN_CHNL_REG c RIFFA_RX_TNFR_LEN_REG" using c by (simp add: done_reg_def)
  ultimately show ?thesis
    using P S(4,5) sending_log [OF assms(2,13)] unfolding d1_def [symmetric] Let_def
    by (intro exI [of _ n] exI [of _ pre] exI [of _ post]) (simp add: closed_with_def)
qed

text \<open>5000 bytes in two parts; the device reports 1250 words.\<close>

definition first_part :: send_part where
  "first_part = \<lparr>elems = [(0x1000, 4096)], asks = [calm_env],
     ends = calm_env\<lparr>completion_answer := \<lambda>_. TxnMore (Some [(0x7000, 904)]), bytes_answer := \<lambda>_. 4096\<rparr>\<rparr>"

definition second_part :: send_part where
  "second_part = \<lparr>elems = [(0x7000, 904)], asks = [calm_env], ends = calm_env\<lparr>reg_value := \<lambda>_ _. 1250\<rparr>\<rparr>"

theorem win_send_completes_witness:
  "let d1 = RiffaIoctlSend (calm_env\<lparr>exec_answer := \<lambda>_. ExecNow [(0x1000, 4096)]\<rparr>) send_rq idle_win;
       js = part_intrs first_part @ part_intrs second_part; e = answered_run 0 js d1 in
     device_view 0 idle_win d1 @ run_view 0 js d1 = [(0x1000, 0, 1024), (0x7000, 0, 226)] \<and>
     finished 9 e = [Completed 9 0 1250] \<and> InUse (Chnl e ! 0) = 0 \<and> Request (Chnl e ! 0) = None"
proof -
  let ?io = "\<lparr>io_Chnl = 0, io_Length = 1250, io_Offset = 0, io_Last = 1, io_Timeout = 500\<rparr>"
  let ?env = "calm_env\<lparr>exec_answer := \<lambda>_. ExecNow [(0x1000, 4096)]\<rparr>"
  have g: "get_io send_rq = Inr ?io" "words_of send_rq ?io = 1250" "handle send_rq = 9"
    by (simp_all add: get_io_def send_rq_def words_of_def)
  have a: "goes_on 9 0 [first_part, second_part]" "well_split 3 5000 [first_part, second_part]"
    by (simp_all add: first_part_def second_part_def calm_env_def well_split_def)
  have k: "asked 3 [first_part, second_part] = [(0x1000, 4096), (0x7000, 904)]" "elems first_part = [(0x1000, 4096)]"
    "ends second_part = calm_env\<lparr>reg_value := \<lambda>_ _. 1250\<rparr>"
    by (simp_all add: first_part_def second_part_def)
  have e: "grants ?env 0x10000 0x100000 [(0x1000, 4096)]" by (simp add: grants_def calm_env_def NT_SUCCESS_def)
  from win_send_completes [OF g(1), of 0 idle_win 3 ?env "0x10000" "0x100000" first_part 0 "[second_part]"] a e g k
  show ?thesis
    by (auto simp: idle_win_fields busy_chnl_def Let_def finished_def elem_words_def drop_bit_eq_div)
qed

end
