(* ===== verification/Win_Recv.thy ===== *)
theory Win_Recv
  imports Win_Xfer
begin

text \<open>
  A receive of the Windows driver from the request to its completion, over any number of transactions
  of the device: each is announced by an interrupt, followed by interrupts that ask for more elements
  and one that signals its end; the last one carries the last flag.
\<close>

section \<open>States of a receive\<close>

definition roomy :: "nat \<Rightarrow> device_extension \<Rightarrow> bool" where
  "roomy r d \<longleftrightarrow> 4 * MaxNumScatterGatherElems d \<le> length (CommonBuffer (Chnl d ! r)) \<and>
     unat (Capacity (Chnl d ! r)) < 2 ^ 34"

text \<open>The request is there, its earlier transactions confirmed \<open>p\<close> bytes, the next is not announced yet.\<close>

definition waiting :: "nat \<Rightarrow> nat \<Rightarrow> u64 \<Rightarrow> device_extension \<Rightarrow> bool" where
  "waiting r h p d \<longleftrightarrow> length (Chnl d) = 24 \<and> roomy r d \<and>
     (let x = Chnl d ! r in Request x = Some h \<and> Cancel x = 0 \<and> ActiveCount x = 0 \<and> ConfirmedPrev x = p \<and>
        Provided x = 0 \<and> Ready x = 1)"

definition announces :: "intr_chnl_dir_data \<Rightarrow> bool" where
  "announces f \<longleftrightarrow> NewTxn f \<and> \<not> SgRead f \<and> \<not> Done f \<and> IntrLength f \<noteq> 0"

lemma roomy_stays: "roomy r d \<Longrightarrow> stays r d e \<Longrightarrow> roomy r e"
  by (simp add: roomy_def stays_def Let_def)

text \<open>Interrupts only add to the trace.\<close>

lemma grows_run:
  assumes "length (Chnl d) = 24" and "NumChnls d \<le> 12"
  shows "grows d (win_run env is d)"
  using assms
proof (induction "is" arbitrary: d)
  case (Cons cf "is")
  obtain c f where cf: "cf = (c, f)" by fastforce
  let ?e = "RiffaEvtInterruptDpc env (signalled c f d)"
  have "grows (signalled c f d) ?e"
    by (rule growing.P_dpc) (use Cons.prems in \<open>simp_all add: signalled_def\<close>)
  then have g: "grows d ?e" by (simp add: grows_def signalled_def)
  then have "grows ?e (win_run env is ?e)" using Cons by (simp add: grows_def)
  with g show ?case using growing.P_trans cf by auto
qed (simp add: growing.P_refl)

lemma grows_nth: "grows d e \<Longrightarrow> n < length (trace d) \<Longrightarrow> n < length (trace e) \<and> trace e ! n = trace d ! n"
  by (auto simp: grows_def nth_append)

lemma recv_waits:
  assumes "get_io rq = Inr io" and "r = 12 + unat (io_Chnl io)" and "unat (io_Chnl io) < NumChnls d"
    and "NumChnls d \<le> 12" and "length (Chnl d) = 24" and "InUse (Chnl d ! r) \<noteq> 1" and "Ready (Chnl d ! r) = 0"
    and "4 * MaxNumScatterGatherElems d \<le> length (CommonBuffer (Chnl d ! r))" and "grants env v cnt sgs"
  shows "waiting r (handle rq) 0 (RiffaIoctlRecv env rq d)" "NumChnls (RiffaIoctlRecv env rq d) = NumChnls d"
    "finished (handle rq) (RiffaIoctlRecv env rq d) = finished (handle rq) d"
proof -
  have r24: "r < length (Chnl d)" using assms(2-5) by simp
  have i: "RiffaIoctlRecv env rq d = event (MarkCancelable (handle rq)) (start_timer r
      (upd_chnl r (\<lambda>x. (receiving rq io x)\<lparr>Ready := 1\<rparr>) (set_req_chnl rq r d)))"
    by (rule recv_waiting [OF assms(1-3) r24 assms(6,7)]) (use assms(9) in \<open>simp add: grants_def\<close>)
  have cap: "unat (push_bit 2 (words_of rq io)) < 2 ^ 34"
    using words_of_bound [of rq io] by (simp add: unat_words)
  show "waiting r (handle rq) 0 (RiffaIoctlRecv env rq d)" "NumChnls (RiffaIoctlRecv env rq d) = NumChnls d"
    "finished (handle rq) (RiffaIoctlRecv env rq d) = finished (handle rq) d"
    using r24 cap assms(5,8)
    by (simp_all add: i start_timer_def win_simps waiting_def roomy_def receiving_def begin_recv_def Let_def finished_def)
qed

lemma announce_takes_off:
  assumes w: "waiting r h p d" and c: "r = 12 + i" "i < NumChnls d" "NumChnls d \<le> 12" and f: "announces f"
    and g: "grants env v cnt sgs"
  shows "let e = RiffaEvtInterruptDpc env (signalled r f d) in
    in_flight r h p e \<and> roomy r e \<and> NumChnls e = NumChnls d \<and> Ready (Chnl e ! r) = 0 \<and>
    Last (Chnl e ! r) = OffLast f AND 1 \<and> finished h e = finished h d"
proof -
  define z where "z = awaited f (Chnl d ! r)"
  have x: "length (Chnl d) = 24" "Ready (Chnl d ! r) = 1" "Request (Chnl d ! r) = Some h" "Cancel (Chnl d ! r) = 0"
    "ActiveCount (Chnl d ! r) = 0" "ConfirmedPrev (Chnl d ! r) = p" "Provided (Chnl d ! r) = 0"
    and room: "4 * MaxNumScatterGatherElems d \<le> length (CommonBuffer (Chnl d ! r))" "unat (Capacity (Chnl d ! r)) < 2 ^ 34"
    using w by (simp_all add: waiting_def roomy_def Let_def)
  have ok: "fill_ok (MaxNumScatterGatherElems d) (prepared sgs z)"
    using room x unat_lt32 [of "IntrLength f"]
    by (intro prepared_ok) (simp_all add: z_def unat_ucast_words)
  obtain n pos prov buf where fe: "fill_elems (MaxNumScatterGatherElems d) (SpillBufferBaseLA d) (prepared sgs z) =
      (n, pos, prov, buf, [])" "length buf = length (CommonBuffer (prepared sgs z))" "Provided (prepared sgs z) \<le> prov"
    using fill_elems_spec [OF ok refl, of "SpillBufferBaseLA d"] by (auto simp: word_le_nat_alt)
  have f': "NewTxn f" "\<not> SgRead f" "\<not> Done f" "IntrLength f \<noteq> 0" using f by (simp_all add: announces_def)
  obtain es where e: "RiffaEvtInterruptDpc env (signalled r f d) =
      events es (upd_chnl r (\<lambda>_. filled n pos prov buf (prepared sgs z)) (calm d))" "filter (is_completion h) es = []"
    using announcement_starts [OF c x(1-5) f' g z_def ok fe(1)] by blast
  have "fill_ok (MaxNumScatterGatherElems d) (filled n pos prov buf (prepared sgs z))"
    using fill_ok_filled [OF ok fe(2,3)] .
  moreover have "ConfirmedPrev (prepared sgs z) = p" "Ready (prepared sgs z) = 0" "Last (prepared sgs z) = OffLast f AND 1"
    "Capacity (prepared sgs z) = Capacity (Chnl d ! r)"
    using x by (simp_all add: prepared_def with_list_def fitting_def z_def)
  moreover have "r < 24" using c by simp
  ultimately show ?thesis
    using x room fe(2) e(2)
    by (simp add: e(1) Let_def in_flight_def roomy_def win_simps finished_events finished_upd calm_flight)
      (simp add: filled_def z_def)
qed

section \<open>One transaction\<close>

text \<open>The interrupts of a transaction: announcement, \<open>k\<close> requests for elements, end.\<close>

definition txn_intrs :: "nat \<Rightarrow> intr_chnl_dir_data \<times> nat \<Rightarrow> (nat \<times> intr_chnl_dir_data) list" where
  "txn_intrs r fk = (r, fst fk) # replicate (snd fk) (r, sg_read) @ [(r, txn_done)]"

text \<open>The state before the interrupt at the end.\<close>

lemma txn_under_way:
  assumes w: "waiting r h p d" and c: "r = 12 + i" "i < NumChnls d" "NumChnls d \<le> 12" and f: "announces f"
    and g: "grants env v cnt sgs"
  obtains e where "win_run env (txn_intrs r (f, k)) d = transfer_done env r (done_reg r) (calm e)"
    "in_flight r h p e" "roomy r e" "NumChnls e = NumChnls d" "Ready (Chnl e ! r) = 0"
    "Last (Chnl e ! r) = OffLast f AND 1" "finished h e = finished h d" "grows d e"
proof -
  define d1 where "d1 = RiffaEvtInterruptDpc env (signalled r f d)"
  have A: "in_flight r h p d1" "roomy r d1" "NumChnls d1 = NumChnls d" "Ready (Chnl d1 ! r) = 0"
    "Last (Chnl d1 ! r) = OffLast f AND 1" "finished h d1 = finished h d"
    using announce_takes_off [OF assms] by (simp_all add: d1_def Let_def)
  have u: "used_chnl r d1" using c A(3) by (auto simp: used_chnl_def)
  define e where "e = win_run env (replicate k (r, sg_read)) d1"
  have K: "in_flight r h p e" "stays r d1 e" "finished h e = finished h d1"
    using reads_keep_flight [OF u A(1), of env k] by (simp_all add: e_def Let_def)
  have "win_run env (txn_intrs r (f, k)) d = transfer_done env r (done_reg r) (calm e)"
    using dpc_txn_done [OF used_stays [OF u K(2)], of env]
    by (simp add: txn_intrs_def win_run_append e_def d1_def)
  moreover have "grows d e"
    unfolding e_def d1_def using grows_run [of d env "(r, f) # replicate k (r, sg_read)"] w c
    by (simp add: waiting_def)
  ultimately show ?thesis
    using that K A roomy_stays [OF A(2) K(2)] by (simp add: stays_def Let_def)
qed

section \<open>All transactions\<close>

text \<open>The amount of a transaction is what the device shows in a register; \<open>ns\<close> are the times at which it is read.\<close>

abbreviation (input) amounts :: "wenv \<Rightarrow> nat \<Rightarrow> nat list \<Rightarrow> u64" where
  "amounts env reg ns \<equiv> (\<Sum>n\<leftarrow>ns. ucast (reg_value env n reg))"

definition read_at :: "nat \<Rightarrow> nat list \<Rightarrow> device_extension \<Rightarrow> bool" where
  "read_at reg ns d \<longleftrightarrow> sorted_wrt (<) ns \<and> (\<forall>n \<in> set ns. n < length (trace d) \<and> trace d ! n = RegRd reg)"

definition done_with :: "nat \<Rightarrow> device_extension \<Rightarrow> bool" where
  "done_with r d \<longleftrightarrow> InUse (Chnl d ! r) = 0 \<and> Request (Chnl d ! r) = None \<and> ActiveCount (Chnl d ! r) = 0"

lemma last_txn:
  assumes w: "waiting r h p d" and c: "r = 12 + i" "i < NumChnls d" "NumChnls d \<le> 12" and f: "announces f"
    and g: "grants env v cnt sgs" and last: "OffLast f AND 1 \<noteq> 0"
    and env: "\<forall>n. completion_answer env n = TxnComplete st" "\<forall>n. unmark_answer env n h \<noteq> STATUS_CANCELLED"
  shows "\<exists>n. let e = win_run env (txn_intrs r (f, k)) d in
    finished h e = finished h d @ [Completed h st (drop_bit 2 (p + push_bit 2 (ucast (reg_value env n (done_reg r)))))] \<and>
    done_with r e \<and> length (trace d) \<le> n \<and> n < length (trace e) \<and> trace e ! n = RegRd (done_reg r)"
proof -
  obtain e0 where e0: "win_run env (txn_intrs r (f, k)) d = transfer_done env r (done_reg r) (calm e0)"
    "in_flight r h p e0" "Last (Chnl e0 ! r) = OffLast f AND 1" "finished h e0 = finished h d" "grows d e0"
    using txn_under_way [OF assms(1-6)] by metis
  define n where "n = Suc (length (trace e0))"
  define e where "e = transfer_done env r (done_reg r) (calm e0)"
  have D: "finished h e = finished h (calm e0) @ [Completed h st
        (drop_bit 2 (p + push_bit 2 (ucast (reg_value env (Suc (length (trace (calm e0)))) (done_reg r)))))] \<and>
    InUse (Chnl e ! r) = 0 \<and> Request (Chnl e ! r) = None \<and> ActiveCount (Chnl e ! r) = 0 \<and>
    Suc (length (trace (calm e0))) < length (trace e) \<and> trace e ! Suc (length (trace (calm e0))) = RegRd (done_reg r)"
    by (rule done_completes) (use c last env e0 in \<open>simp_all add: calm_flight win_simps e_def\<close>)
  moreover have "length (trace d) \<le> n" using e0(5) by (auto simp: grows_def n_def)
  ultimately show ?thesis
    by (intro exI [of _ n]) (simp add: e0(1) e_def [symmetric] Let_def n_def win_simps calm_flight e0(4) done_with_def)
qed

lemma middle_txn:
  assumes w: "waiting r h p d" and c: "r = 12 + i" "i < NumChnls d" "NumChnls d \<le> 12" and f: "announces f"
    and g: "grants env v cnt sgs" and last: "OffLast f AND 1 = 0"
    and env: "\<forall>n. completion_answer env n = TxnComplete st" "NT_SUCCESS st"
  shows "\<exists>n. let e = win_run env (txn_intrs r (f, k)) d in
    waiting r h (p + push_bit 2 (ucast (reg_value env n (done_reg r)))) e \<and> NumChnls e = NumChnls d \<and>
    finished h e = finished h d \<and> length (trace d) \<le> n \<and> n < length (trace e) \<and> trace e ! n = RegRd (done_reg r)"
proof -
  obtain e0 where e0: "win_run env (txn_intrs r (f, k)) d = transfer_done env r (done_reg r) (calm e0)"
    "in_flight r h p e0" "roomy r e0" "NumChnls e0 = NumChnls d" "Ready (Chnl e0 ! r) = 0"
    "Last (Chnl e0 ! r) = OffLast f AND 1" "finished h e0 = finished h d" "grows d e0"
    using txn_under_way [OF assms(1-6)] by metis
  have T: "transfer_done env r (done_reg r) (calm e0) =
      events [DmaCompleted r, RegRd (done_reg r), TimerStop r, DmaRelease r]
        (upd_chnl r (\<lambda>x. x\<lparr>ReqdDone := 0,
           ConfirmedPrev := p + push_bit 2 (ucast (reg_value env (Suc (length (trace e0))) (done_reg r))),
           Confirmed := 0, ProvidedPrev := 0, Provided := 0, Ready := 1\<rparr>) (calm e0))"
    by (rule done_waits) (use c last env e0 in \<open>simp_all add: calm_flight win_simps\<close>)
  define e where "e = win_run env (txn_intrs r (f, k)) d"
  have "r < 24" "length (Chnl e0) = 24" using c e0(2) by (simp_all add: in_flight_def)
  moreover have "trace e = trace e0 @ [DmaCompleted r, RegRd (done_reg r), TimerStop r, DmaRelease r]"
    by (simp add: e_def e0(1) T win_simps)
  moreover have "length (trace d) \<le> length (trace e0)" using e0(8) by (auto simp: grows_def)
  moreover have "finished h e = finished h d"
    by (simp add: e_def e0(1,7) T win_simps finished_events finished_upd calm_flight)
  ultimately show ?thesis
    using e0(2-4) unfolding e_def [symmetric]
    by (intro exI [of _ "Suc (length (trace e0))"])
      (simp add: Let_def nth_append, simp add: e_def e0(1) T win_simps waiting_def roomy_def in_flight_def Let_def)
qed

lemma txns_complete:
  assumes "waiting r h p d" and "r = 12 + i" and "i < NumChnls d" and "NumChnls d \<le> 12"
    and "\<forall>f \<in> fst ` set txns. announces f \<and> OffLast f AND 1 = 0" and "announces f" and "OffLast f AND 1 \<noteq> 0"
    and g: "grants env v cnt sgs" and env: "\<forall>n. completion_answer env n = TxnComplete st" "NT_SUCCESS st"
      "\<forall>n. unmark_answer env n h \<noteq> STATUS_CANCELLED"
  shows "\<exists>ns. let e = win_run env (concat (map (txn_intrs r) (txns @ [(f, k)]))) d in
    length ns = Suc (length txns) \<and> read_at (done_reg r) ns e \<and> (\<forall>n \<in> set ns. length (trace d) \<le> n) \<and>
    finished h e = finished h d @ [Completed h st (drop_bit 2 (p + push_bit 2 (amounts env (done_reg r) ns)))] \<and>
    done_with r e"
  using assms(1-5)
proof (induction txns arbitrary: d p)
  case Nil
  then obtain n where "let e = win_run env (txn_intrs r (f, k)) d in
    finished h e = finished h d @ [Completed h st (drop_bit 2 (p + push_bit 2 (ucast (reg_value env n (done_reg r)))))] \<and>
    done_with r e \<and> length (trace d) \<le> n \<and> n < length (trace e) \<and> trace e ! n = RegRd (done_reg r)"
    using last_txn [OF Nil(1-4) assms(6) g assms(7) env(1,3)] by blast
  then show ?case by (intro exI [of _ "[n]"]) (simp add: Let_def read_at_def)
next
  case (Cons fk txns)
  obtain fm km where fk: "fk = (fm, km)" by fastforce
  let ?d = "win_run env (txn_intrs r (fm, km)) d"
  let ?e = "win_run env (concat (map (txn_intrs r) (txns @ [(f, k)]))) ?d"
  have fm: "announces fm" "OffLast fm AND 1 = 0" using Cons.prems(5) by (simp_all add: fk)
  obtain n where M: "waiting r h (p + push_bit 2 (ucast (reg_value env n (done_reg r)))) ?d" "NumChnls ?d = NumChnls d"
    "finished h ?d = finished h d" "length (trace d) \<le> n" "n < length (trace ?d)" "trace ?d ! n = RegRd (done_reg r)"
    using middle_txn [OF Cons.prems(1-4) fm(1) g fm(2) env(1,2)] by (auto simp: Let_def)
  have "i < NumChnls ?d" "NumChnls ?d \<le> 12" "\<forall>f \<in> fst ` set txns. announces f \<and> OffLast f AND 1 = 0"
    using Cons.prems M(2) by simp_all
  from Cons.IH [OF M(1) Cons.prems(2) this] obtain ns where I: "length ns = Suc (length txns)"
    "read_at (done_reg r) ns ?e" "\<forall>n \<in> set ns. length (trace ?d) \<le> n" "done_with r ?e"
    "finished h ?e = finished h ?d @ [Completed h st
       (drop_bit 2 (p + push_bit 2 (ucast (reg_value env n (done_reg r))) + push_bit 2 (amounts env (done_reg r) ns)))]"
    by (auto simp: Let_def)
  have len: "length (Chnl ?d) = 24" using M(1) by (simp add: waiting_def)
  have grow: "grows ?d ?e" using grows_run [OF len] M(2) Cons.prems(4) by simp
  have "read_at (done_reg r) (n # ns) ?e"
    using I(2,3) M(5,6) grows_nth [OF grow M(5)] by (auto simp: read_at_def)
  moreover have "length (trace d) \<le> length (trace ?d)" using M(4,5) by simp
  ultimately show ?case
    using I M(3,4) by (intro exI [of _ "n # ns"]) (auto simp: Let_def fk win_run_append push_bit_add add.assoc)
qed

lemma amounts_bound: "unat (amounts env reg ns) \<le> length ns * (2 ^ 32 - 1)"
proof (induction ns)
  case (Cons n ns)
  have "unat (a + b) \<le> x + y" if "unat a \<le> x" "unat b \<le> y" for a b :: u64 and x y
    using that by (simp add: unat_word_ariths order_trans [OF mod_less_eq_dividend add_mono])
  moreover have "unat (ucast (reg_value env n reg) :: u64) \<le> 2 ^ 32 - 1"
    using unat_lt32 [of "reg_value env n reg"] by (simp add: unat_ucast_up)
  ultimately have "unat (ucast (reg_value env n reg) + amounts env reg ns) \<le> (2 ^ 32 - 1) + length ns * (2 ^ 32 - 1)"
    using Cons by blast
  then show ?case by simp
qed simp

lemma drop_push_small: "unat w < 2 ^ 62 \<Longrightarrow> drop_bit 2 (push_bit 2 w :: u64) = w"
proof (rule word_unat_eq_iff [THEN iffD2])
  assume "unat w < 2 ^ 62"
  then show "unat (drop_bit 2 (push_bit 2 w :: u64)) = unat w"
    unfolding unat_drop_bit_eq unsigned_push_bit_eq
    by (simp add: take_bit_eq_mod push_bit_eq_mult drop_bit_eq_div)
qed

section \<open>A receive from request to completion\<close>


text \<open>Two transactions, of a device that reports 600 words after each.\<close>

definition part :: "u32 \<Rightarrow> u32 \<Rightarrow> intr_chnl_dir_data" where
  "part l n = no_intr\<lparr>NewTxn := True, OffLast := l, IntrLength := n\<rparr>"


end
