(* ===== verification/Win_Pnp.thy ===== *)
theory Win_Pnp
  imports Win_Sound
begin

text \<open>
  The life cycle of the Windows driver: \<open>DriverEntry\<close>, \<open>RiffaEvtDeviceAdd\<close>, the preparation and
  release of the hardware and the reading of the hardware ids.  A device that was prepared satisfies the
  invariant of \<open>Win_Sound\<close>.
\<close>

section \<open>Stages with early return\<close>

type_synonym win_stage = "(ntstatus \<times> device_extension) + device_extension"

fun and_then :: "win_stage \<Rightarrow> (device_extension \<Rightarrow> win_stage) \<Rightarrow> win_stage" where
  "and_then (Inl r) f = Inl r"
| "and_then (Inr d) f = f d"

fun stage_result :: "win_stage \<Rightarrow> ntstatus \<times> device_extension" where
  "stage_result (Inl r) = r"
| "stage_result (Inr d) = (STATUS_SUCCESS, d)"

definition create :: "wenv \<Rightarrow> wdf_object \<Rightarrow> device_extension \<Rightarrow> win_stage" where
  "create env obj d0 =
     (let st = create_answer env (length (trace d0)); d = event (WdfCreate obj) d0
      in if NT_SUCCESS st then Inr d else Inl (st, d))"

section \<open>Driver and device\<close>

definition DriverEntry :: "wenv \<Rightarrow> device_extension \<Rightarrow> ntstatus \<times> device_extension" where
  "DriverEntry env d = stage_result (create env DriverObj d)"

definition zero_chnl :: chnl_dir_state where
  "zero_chnl = \<lparr>Ready = 0, InUse = 0, ReqdDone = 0, Length = 0, Offset = 0, Last = 0, Timeout = 0,
     Capacity = 0, Provided = 0, ProvidedPrev = 0, Confirmed = 0, ConfirmedPrev = 0, SpillAfter = 0,
     SgList = None, SgPos = 0, ActiveCount = 0, Cancel = 0, Request = None, CommonBuffer = [],
     CommonBufferBaseLA = 0\<rparr>"

definition init_device :: "device_extension \<Rightarrow> device_extension" where
  "init_device d =
     d\<lparr>IntrData := replicate (2 * RIFFA_MAX_NUM_CHNLS) no_intr,
       Chnl := replicate (2 * RIFFA_MAX_NUM_CHNLS) zero_chnl\<rparr>"

definition RiffaEvtDeviceAdd :: "wenv \<Rightarrow> device_extension \<Rightarrow> ntstatus \<times> device_extension" where
  "RiffaEvtDeviceAdd env d =
     stage_result
       (and_then (create env DeviceObj d) (\<lambda>d.
        and_then (create env QueueObj (init_device d)) (\<lambda>d.
        and_then (create env DispatchingObj d) (\<lambda>d.
        and_then (create env InterruptObj d) (\<lambda>d.
        and_then (create env DmaEnablerObj d)
          (create env InterfaceObj))))))"

section \<open>Hardware ids\<close>

type_synonym u16 = "16 word"

definition wchars :: "string \<Rightarrow> u16 list" where
  "wchars s = map (\<lambda>c. of_nat (of_char c)) s"

text \<open>The first occurrence of a word before the terminating zero.\<close>

fun wcsstr :: "u16 list \<Rightarrow> u16 list \<Rightarrow> nat option" where
  "wcsstr [] w = None"
| "wcsstr (c # cs) w =
     (if take (length w) (c # cs) = w then Some 0
      else if c = 0 then None
      else map_option Suc (wcsstr cs w))"

definition hex_val :: "u16 \<Rightarrow> nat option" where
  "hex_val c =
     (let n = unat c in
      if 48 \<le> n \<and> n \<le> 57 then Some (n - 48)
      else if 65 \<le> n \<and> n \<le> 70 then Some (n - 55)
      else if 97 \<le> n \<and> n \<le> 102 then Some (n - 87)
      else None)"

fun hex_digits :: "nat \<Rightarrow> u16 list \<Rightarrow> nat" where
  "hex_digits acc [] = acc"
| "hex_digits acc (c # cs) =
     (case hex_val c of None \<Rightarrow> acc | Some v \<Rightarrow> hex_digits (16 * acc + v) cs)"

text \<open>
  \<open>swscanf\<close> with \<open>%x\<close>: white space, a sign, the prefix \<open>0x\<close>, digits; no assignment without a digit.
\<close>

definition is_wspace :: "u16 \<Rightarrow> bool" where
  "is_wspace c \<longleftrightarrow> unat c = 32 \<or> (9 \<le> unat c \<and> unat c \<le> 13)"

definition scan_hex :: "u16 list \<Rightarrow> u32 option" where
  "scan_hex s =
     (let s = dropWhile is_wspace s;
          neg = (take 1 s = wchars ''-'');
          s = (if take 1 s = wchars ''-'' \<or> take 1 s = wchars ''+'' then drop 1 s else s);
          s = (if take 2 s = wchars ''0x'' \<or> take 2 s = wchars ''0X'' then drop 2 s else s)
      in case s of
           [] \<Rightarrow> None
         | c # _ \<Rightarrow> (if hex_val c = None then None
                    else Some (if neg then - of_nat (hex_digits 0 s) else of_nat (hex_digits 0 s))))"

text \<open>
  \<open>%02x\<close> and \<open>%01x\<close>: lower case hexadecimal, filled with zeros to the width.
\<close>

definition hex_char :: "nat \<Rightarrow> char" where
  "hex_char n = (if n < 10 then char_of (48 + n) else char_of (87 + n))"

fun to_hex :: "nat \<Rightarrow> string" where
  "to_hex n = (if n < 16 then [hex_char n] else to_hex (n div 16) @ [hex_char (n mod 16)])"

declare to_hex.simps [simp del]

definition fmt_hex :: "nat \<Rightarrow> nat \<Rightarrow> string" where
  "fmt_hex width n = replicate (width - length (to_hex n)) (CHR ''0'') @ to_hex n"

text \<open>
  The answers of \<open>IoGetDeviceProperty\<close>, and what the buffer on the stack held before; the last
  property is the characters written, with their size in bytes in \<open>length\<close>.
\<close>

record hardware =
  bus_number :: "ntstatus + u32"
  bus_address :: "ntstatus + u32"
  hardware_id :: "ntstatus + u16 list"
  stack :: "u16 list"

text \<open>
  One of the two searches: the text after the key, cut after four characters.  \<open>None\<close> is a write
  outside of \<open>hwIds\<close>.
\<close>

definition find_id ::
  "string \<Rightarrow> u16 list \<Rightarrow> u32 \<Rightarrow> ((u32 \<times> u16 list) option) option" where
  "find_id key hwIds old =
     (case wcsstr hwIds (wchars key) of
        None \<Rightarrow> Some None
      | Some i \<Rightarrow>
          (if i + 8 < length hwIds
           then let hwIds = hwIds[i + 8 := 0]
                in Some (Some (case scan_hex (takeWhile (\<lambda>c. c \<noteq> 0) (drop (i + 4) hwIds)) of
                                 None \<Rightarrow> old | Some v \<Rightarrow> v, hwIds))
           else None))"

text \<open>
  A name that does not fit its 16 characters is refused by \<open>sprintf_s\<close> (no result); so is a terminating
  zero behind the array.
\<close>

definition RiffaReadHardwareIds ::
  "hardware \<Rightarrow> device_extension \<Rightarrow> (ntstatus \<times> device_extension) option" where
  "RiffaReadHardwareIds hw d0 =
     (let d = d0\<lparr>DeviceId := 0, VendorId := 0, Name := []\<rparr> in
      case bus_number hw of
        Inl st \<Rightarrow> Some (st, d)
      | Inr pciBus \<Rightarrow> (case bus_address hw of
          Inl st \<Rightarrow> Some (st, d)
        | Inr pciAddr \<Rightarrow>
            (let pciFxn = pciAddr AND 0xFFFF; pciDev = drop_bit 16 pciAddr AND 0xFFFF;
                 name = fmt_hex 2 (unat pciBus) @ '':'' @ fmt_hex 2 (unat pciDev) @ '':'' @ fmt_hex 1 (unat pciFxn)
             in if 16 \<le> length name then None
                else let d = d\<lparr>Name := name\<rparr> in
             case hardware_id hw of
               Inl st \<Rightarrow> Some (st, d)
             | Inr cs \<Rightarrow>
                 (let hwIds = cs @ drop (length cs) (stack hw); len = 2 * length cs in
                  if len \<ge> length hwIds then None
                  else case find_id ''DEV_'' (hwIds[len := 0]) 0 of
                    None \<Rightarrow> None
                  | Some None \<Rightarrow> Some (STATUS_DEVICE_CONFIGURATION_ERROR, d)
                  | Some (Some (dev, hwIds)) \<Rightarrow>
                      (let d = d\<lparr>DeviceId := dev\<rparr> in
                       case find_id ''VEN_'' hwIds 0 of
                         None \<Rightarrow> None
                       | Some None \<Rightarrow> Some (STATUS_DEVICE_CONFIGURATION_ERROR, d)
                       | Some (Some (ven, _)) \<Rightarrow> Some (STATUS_SUCCESS, d\<lparr>VendorId := ven\<rparr>))))))"

section \<open>Preparing the hardware\<close>

datatype resource = MemoryResource u64 u32 | OtherResource

text \<open>The loop over the resources; a missing descriptor is \<open>None\<close>.\<close>

fun find_bar0 :: "wenv \<Rightarrow> resource option list \<Rightarrow> bool \<Rightarrow> device_extension \<Rightarrow>
    (ntstatus \<times> device_extension) + (bool \<times> device_extension)" where
  "find_bar0 env [] found d = Inr (found, d)"
| "find_bar0 env (None # rs) found d = Inl (STATUS_DEVICE_CONFIGURATION_ERROR, d)"
| "find_bar0 env (Some OtherResource # rs) found d = find_bar0 env rs found d"
| "find_bar0 env (Some (MemoryResource start len) # rs) found d =
     (if \<not> found \<and> len = 0x400
      then let d = d\<lparr>Bar0Length := len\<rparr>;
               bar = map_answer env (length (trace d));
               d = (event (MapIo start len) d)\<lparr>Bar0 := bar\<rparr>
           in if bar = None then Inl (STATUS_INSUFFICIENT_RESOURCES, d)
              else find_bar0 env rs True d
      else find_bar0 env rs found d)"

definition create_buffer :: "wenv \<Rightarrow> nat \<Rightarrow> nat \<Rightarrow> device_extension \<Rightarrow> win_stage" where
  "create_buffer env c bytes d0 =
     (let (words, la) = buffer_answer env (length (trace d0)) bytes
      in and_then (create env (CommonBufferObj bytes) d0) (\<lambda>d.
         Inr (upd_chnl c (\<lambda>x. x\<lparr>CommonBuffer := words, CommonBufferBaseLA := la\<rparr>) d)))"

definition create_chnl :: "wenv \<Rightarrow> u32 \<Rightarrow> nat \<Rightarrow> device_extension \<Rightarrow> win_stage" where
  "create_chnl env info i d =
     and_then (create_buffer env i
        (RIFFA_MIN_SG_BUF_SIZE * unat (drop_bit 19 info AND 0xF)) d) (\<lambda>d.
     and_then (create_buffer env (RIFFA_MAX_NUM_CHNLS + i)
        (RIFFA_MIN_SG_BUF_SIZE * unat (drop_bit 19 info AND 0x1F)) d) (\<lambda>d.
     and_then (create env DmaTransactionObj d) (\<lambda>d.
     and_then (create env DmaTransactionObj d) (\<lambda>d.
     and_then (create env SpinLockObj d) (\<lambda>d.
     and_then (create env SpinLockObj d) (\<lambda>d.
     and_then (create env (TimerObj i) d)
       (create env (TimerObj (RIFFA_MAX_NUM_CHNLS + i)))))))))"

definition create_chnls :: "wenv \<Rightarrow> u32 \<Rightarrow> nat list \<Rightarrow> device_extension \<Rightarrow> win_stage" where
  "create_chnls env info is d = fold (\<lambda>i s. and_then s (create_chnl env info i)) is (Inr d)"

definition create_spill :: "wenv \<Rightarrow> device_extension \<Rightarrow> win_stage" where
  "create_spill env d0 =
     (let (words, la) = buffer_answer env (length (trace d0)) RIFFA_SPILL_BUF_SIZE
      in and_then (create env (CommonBufferObj RIFFA_SPILL_BUF_SIZE) d0) (\<lambda>d.
         Inr (d\<lparr>SpillBufferBaseLA := la\<rparr>)))"

definition read_info :: "wenv \<Rightarrow> device_extension \<Rightarrow> u32 \<times> device_extension" where
  "read_info env d =
     (let (info, d) = READ_REGISTER env RIFFA_INFO_REG d
      in (info, d\<lparr>NumChnls := unat (info AND 0xF),
                  MaxNumScatterGatherElems := RIFFA_MIN_NUM_SG_ELEMS * unat (drop_bit 19 info AND 0xF)\<rparr>))"

definition info_valid :: "u32 \<Rightarrow> bool" where
  "info_valid info \<longleftrightarrow>
     \<not> (drop_bit 4 info AND 0x1 \<noteq> 1) \<and>
     \<not> (drop_bit 5 info AND 0x3F = 0 \<or> drop_bit 11 info AND 0x3 = 0) \<and>
     \<not> (info AND 0xF = 0 \<or> info AND 0xF > of_nat RIFFA_MAX_NUM_CHNLS) \<and>
     \<not> (drop_bit 19 info AND 0xF = 0 \<or> drop_bit 19 info AND 0xF > of_nat RIFFA_MAX_BUS_WIDTH_PARAM)"

definition RiffaEvtDevicePrepareHardware ::
  "wenv \<Rightarrow> hardware \<Rightarrow> resource option list \<Rightarrow> device_extension \<Rightarrow>
     (ntstatus \<times> device_extension) option" where
  "RiffaEvtDevicePrepareHardware env hw rs d =
     (case find_bar0 env rs False d of
        Inl r \<Rightarrow> Some r
      | Inr (found, d) \<Rightarrow>
          (if \<not> found then Some (STATUS_DEVICE_CONFIGURATION_ERROR, d)
           else case RiffaReadHardwareIds hw d of
             None \<Rightarrow> None
           | Some (st, d) \<Rightarrow>
               (if \<not> NT_SUCCESS st then Some (st, d)
                else let (info, d) = read_info env d
                     in if \<not> info_valid info then Some (STATUS_DEVICE_CONFIGURATION_ERROR, d)
                        else Some (stage_result
                          (and_then (create_chnls env info [0..<NumChnls d] d) (create_spill env))))))"

definition RiffaEvtDeviceReleaseHardware :: "device_extension \<Rightarrow> ntstatus \<times> device_extension" where
  "RiffaEvtDeviceReleaseHardware d =
     (STATUS_SUCCESS,
      case Bar0 d of None \<Rightarrow> d | Some a \<Rightarrow> (event (UnmapIo a (Bar0Length d)) d)\<lparr>Bar0 := None\<rparr>)"

section \<open>Hardware ids\<close>

definition hexw :: "nat \<Rightarrow> u16" where
  "hexw n = of_nat (if n < 10 then 48 + n else 55 + n)"

definition hex4 :: "nat \<Rightarrow> u16 list" where
  "hex4 n = [hexw (n div 4096 mod 16), hexw (n div 256 mod 16), hexw (n div 16 mod 16), hexw (n mod 16)]"

definition id_chars :: "nat \<Rightarrow> nat \<Rightarrow> u16 list" where
  "id_chars v w = wchars ''PCI'' @ [0x5C] @ wchars ''VEN_'' @ hex4 v @ wchars ''&DEV_'' @ hex4 w"

lemma less_16: "n < 16 \<Longrightarrow> n \<in> {0, 1, 2, 3, 4, 5, 6, 7, 8, 9, 10, 11, 12, 13, 14, 15 :: nat}"
  unfolding insert_iff empty_iff by arith

lemma hexw_facts:
  assumes "n < 16"
  shows "hex_val (hexw n) = Some n" "hexw n \<noteq> 0" "hexw n \<noteq> 0x56" "hexw n \<noteq> 0x78" "hexw n \<noteq> 0x58"
    "hexw n \<noteq> 0x2B" "hexw n \<noteq> 0x2D" "\<not> is_wspace (hexw n)"
  using less_16 [OF assms] by (auto simp: hexw_def hex_val_def is_wspace_def)

lemma hex4_value:
  assumes "n < 65536"
  shows "hex_digits 0 (hex4 n) = n"
proof -
  define a b c where "a = n div 16" and "b = a div 16" and "c = b div 16"
  have d: "n div 16 = a" "n div 256 = b" "n div 4096 = c" by (simp_all add: a_def b_def c_def div_mult2_eq [symmetric])
  have "c < 16" using assms by (simp add: d(3) [symmetric] div_less_iff_less_mult)
  then have "hex_digits 0 (hex4 n) = 16 * (16 * (16 * c + b mod 16) + a mod 16) + n mod 16"
    by (simp add: hex4_def hexw_facts d)
  also have "16 * c + b mod 16 = b" unfolding c_def by (rule mult_div_mod_eq)
  also have "16 * b + a mod 16 = a" unfolding b_def by (rule mult_div_mod_eq)
  also have "16 * a + n mod 16 = n" unfolding a_def by (rule mult_div_mod_eq)
  finally show ?thesis .
qed

lemma wchars_simps: "wchars [] = []" "wchars (c # cs) = of_nat (of_char c) # wchars cs"
  by (simp_all add: wchars_def)

lemma scan_hex4: "n < 65536 \<Longrightarrow> scan_hex (hex4 n) = Some (of_nat n)"
  using hex4_value [of n]
  by (simp add: scan_hex_def hex4_def wchars_simps hexw_facts)

lemma find_dev:
  assumes "w < 65536" and "Y \<noteq> []"
  shows "find_id ''DEV_'' (id_chars v w @ Y) old = Some (Some (of_nat w, id_chars v w @ Y[0 := 0]))"
proof -
  have i: "wcsstr (id_chars v w @ Y) (wchars ''DEV_'') = Some 13"
    by (simp add: id_chars_def hex4_def wchars_simps hexw_facts)
  obtain y ys where Y: "Y = y # ys" using assms(2) by (cases Y) auto
  have "(id_chars v w @ Y)[21 := 0] = id_chars v w @ Y[0 := 0]"
    by (simp add: list_update_append id_chars_def wchars_simps hex4_def)
  moreover have "takeWhile (\<lambda>c. c \<noteq> 0) (drop 17 (id_chars v w @ 0 # ys)) = hex4 w"
    by (simp add: id_chars_def wchars_simps hex4_def hexw_facts)
  moreover have "length (id_chars v w) = 21" by (simp add: id_chars_def wchars_simps hex4_def)
  ultimately show ?thesis using scan_hex4 [OF assms(1)] Y i [unfolded Y] by (simp add: find_id_def)
qed

lemma find_ven:
  assumes "v < 65536"
  shows "\<exists>ids. find_id ''VEN_'' (id_chars v w @ Y) old = Some (Some (of_nat v, ids))"
proof -
  have i: "wcsstr (id_chars v w @ Y) (wchars ''VEN_'') = Some 4"
    by (simp add: id_chars_def hex4_def wchars_simps)
  have "takeWhile (\<lambda>c. c \<noteq> 0) (drop 8 ((id_chars v w @ Y)[12 := 0])) = hex4 v"
    by (simp add: id_chars_def wchars_simps hex4_def hexw_facts)
  moreover have "length (id_chars v w) = 21" by (simp add: id_chars_def wchars_simps hex4_def)
  ultimately show ?thesis using scan_hex4 [OF assms] by (simp add: find_id_def i)
qed

lemma to_hex_length: "n < 16 ^ Suc k \<Longrightarrow> length (to_hex n) \<le> Suc k"
proof (induction k arbitrary: n)
  case 0
  then show ?case by (simp add: to_hex.simps)
next
  case (Suc k)
  have "n div 16 < 16 ^ Suc k" using Suc.prems by (simp add: div_less_iff_less_mult mult.commute)
  from Suc.IH [OF this] show ?case by (simp add: to_hex.simps [of n])
qed

lemma fmt_hex_length: "n < 65536 \<Longrightarrow> w \<le> 4 \<Longrightarrow> length (fmt_hex w n) \<le> 4"
  using to_hex_length [of n 3] by (simp add: fmt_hex_def)

definition pci_name :: "u32 \<Rightarrow> u32 \<Rightarrow> string" where
  "pci_name b a = fmt_hex 2 (unat b) @ '':'' @ fmt_hex 2 (unat (drop_bit 16 a AND 0xFFFF)) @ '':'' @
     fmt_hex 1 (unat (a AND 0xFFFF))"

lemma mask16: "unat (x AND 0xFFFF :: u32) < 65536"
proof -
  have "x AND 0xFFFF \<le> 0xFFFF" by (rule word_and_le1)
  then show ?thesis by (simp add: word_le_nat_alt)
qed

lemma read_ids:
  assumes "bus_number hw = Inr b" and "b < 65536" and "bus_address hw = Inr a"
    and "hardware_id hw = Inr (id_chars v w @ rest)" and "v < 65536" and "w < 65536"
    and "length rest < 1003" and "length (stack hw) = 2048"
  shows "RiffaReadHardwareIds hw d =
    Some (STATUS_SUCCESS, d\<lparr>Name := pci_name b a, DeviceId := of_nat w, VendorId := of_nat v\<rparr>)"
proof -
  have l: "length (id_chars v w) = 21" by (simp add: id_chars_def wchars_simps hex4_def)
  have "unat b < 65536" using assms(2) by (simp add: word_less_nat_alt)
  then have name: "length (pci_name b a) < 16"
    using fmt_hex_length [of "unat b" 2] fmt_hex_length [OF mask16 [of "drop_bit 16 a"], of 2]
      fmt_hex_length [OF mask16 [of a], of 1] by (simp add: pci_name_def)
  define Y where "Y = (rest @ drop (21 + length rest) (stack hw))[2 * (21 + length rest) - 21 := 0]"
  have Y: "(id_chars v w @ rest @ drop (21 + length rest) (stack hw))[2 * (21 + length rest) := 0] = id_chars v w @ Y"
    by (simp add: Y_def list_update_append l)
  have ne: "Y \<noteq> []" using assms(7,8) by (auto simp: Y_def)
  obtain ids where ven: "find_id ''VEN_'' (id_chars v w @ Y[0 := 0]) 0 = Some (Some (of_nat v, ids))"
    using find_ven [OF assms(5)] by blast
  show ?thesis
    using assms(1,3,4,7,8) name find_dev [OF assms(6) ne, of v 0] ven Y l
    by (simp add: RiffaReadHardwareIds_def Let_def pci_name_def)
qed

text \<open>C23: The ids of a PCI device are read back from the hardware id the system reports for it, whatever
  follows the device id.
\<close>

theorem hardware_ids_roundtrip:
  assumes "bus_number hw = Inr b" and "b < 65536" and "bus_address hw = Inr a"
    and "hardware_id hw = Inr (id_chars v w @ rest)" and "v < 65536" and "w < 65536"
    and "length rest < 1003" and "length (stack hw) = 2048"
  shows "RiffaReadHardwareIds hw d =
    Some (STATUS_SUCCESS, d\<lparr>Name := pci_name b a, DeviceId := of_nat w, VendorId := of_nat v\<rparr>)"
  by (rule read_ids [OF assms])

definition sample_hw :: hardware where
  "sample_hw = \<lparr>bus_number = Inr 2, bus_address = Inr 0x1F0003,
     hardware_id = Inr (id_chars 0x10EE 0x7021 @ wchars ''&SUBSYS'' @ [0, 0]), stack = replicate 2048 0\<rparr>"

lemma sample_name: "pci_name 2 0x1F0003 = ''02:1f:3''"
proof -
  have "to_hex 2 = ''2''" "to_hex 31 = ''1f''" "to_hex 3 = ''3''"
    by (simp_all add: to_hex.simps hex_char_def char_of_def bit_0)
  moreover have "unat (drop_bit 16 (0x1F0003 :: u32) AND 0xFFFF) = 31" "unat ((0x1F0003 :: u32) AND 0xFFFF) = 3"
    by (simp_all add: drop_bit_eq_div)
  ultimately show ?thesis by (simp add: pci_name_def fmt_hex_def)
qed

theorem hardware_ids_roundtrip_witness:
  "RiffaReadHardwareIds sample_hw busy_device =
    Some (STATUS_SUCCESS, busy_device\<lparr>Name := ''02:1f:3'', DeviceId := 0x7021, VendorId := 0x10EE\<rparr>)"
  using hardware_ids_roundtrip [of sample_hw 2 "0x1F0003" "0x10EE" "0x7021" "wchars ''&SUBSYS'' @ [0, 0]" busy_device]
  by (simp add: sample_hw_def wchars_simps sample_name)

text \<open>
  The terminating zero is stored at the size of the string in bytes, in an array of words: ids that fill
  the buffer handed to the system (2048 bytes) make the driver write behind its array.
\<close>

lemma full_hardware_id_overruns:
  assumes "bus_number hw = Inr b" and "bus_address hw = Inr a" and "hardware_id hw = Inr cs"
    and "length cs = 1024" and "length (stack hw) = 2048"
  shows "RiffaReadHardwareIds hw d = None"
  using assms by (simp add: RiffaReadHardwareIds_def Let_def)

section \<open>A prepared device\<close>

definition refused :: "ntstatus \<times> device_extension \<Rightarrow> bool" where
  "refused r \<longleftrightarrow> \<not> NT_SUCCESS (fst r)"

lemma and_then_Inr: "and_then s f = Inr e \<longleftrightarrow> (\<exists>d. s = Inr d \<and> f d = Inr e)"
  by (cases s) auto

lemma create_Inr: "create env obj d = Inr e \<longleftrightarrow> NT_SUCCESS (create_answer env (length (trace d))) \<and> e = event (WdfCreate obj) d"
  by (auto simp: create_def Let_def)

text \<open>A stage that stops does so with an error.\<close>

definition stops_with_error :: "win_stage \<Rightarrow> bool" where
  "stops_with_error s \<longleftrightarrow> (\<forall>r. s = Inl r \<longrightarrow> refused r)"

lemma stops_create [simp]: "stops_with_error (create env obj d)"
  by (simp add: stops_with_error_def create_def refused_def Let_def)

lemma stops_Inr [simp]: "stops_with_error (Inr d)"
  by (simp add: stops_with_error_def)

lemma stops_then: "stops_with_error s \<Longrightarrow> (\<And>d. stops_with_error (f d)) \<Longrightarrow> stops_with_error (and_then s f)"
  by (cases s) (simp_all add: stops_with_error_def)

lemma stops_buffer [simp]: "stops_with_error (create_buffer env c b d)"
  by (simp add: create_buffer_def split_def Let_def stops_then)

lemma stops_chnl [simp]: "stops_with_error (create_chnl env info i d)"
  by (simp add: create_chnl_def stops_then)

lemma stops_chnls [simp]: "stops_with_error (create_chnls env info is d)"
proof -
  have "stops_with_error s \<Longrightarrow> stops_with_error (fold (\<lambda>i s. and_then s (create_chnl env info i)) is s)" for s
    by (induction "is" arbitrary: s) (simp_all add: stops_then)
  then show ?thesis by (simp add: create_chnls_def)
qed

lemma stops_spill [simp]: "stops_with_error (create_spill env d)"
  by (simp add: create_spill_def split_def Let_def stops_then)

lemma stage_success:
  "stops_with_error s \<Longrightarrow> stage_result s = (st, e) \<Longrightarrow> NT_SUCCESS st \<Longrightarrow> s = Inr e"
  by (cases s) (auto simp: stops_with_error_def refused_def)

text \<open>The buffers of the framework hold what was asked for.\<close>

definition honest_buffers :: "wenv \<Rightarrow> bool" where
  "honest_buffers env \<longleftrightarrow> (\<forall>n b. b \<le> 4 * length (fst (buffer_answer env n b)))"

definition fresh :: "chnl_dir_state \<Rightarrow> bool" where
  "fresh x \<longleftrightarrow> x\<lparr>CommonBuffer := [], CommonBufferBaseLA := 0\<rparr> = zero_chnl"

text \<open>The first \<open>n\<close> channels have their buffers.\<close>

definition provided_to :: "nat \<Rightarrow> device_extension \<Rightarrow> device_extension \<Rightarrow> bool" where
  "provided_to n d e \<longleftrightarrow> length (Chnl e) = 24 \<and> IntrData e = IntrData d \<and> NumChnls e = NumChnls d \<and> Bar0 e = Bar0 d \<and>
     MaxNumScatterGatherElems e = MaxNumScatterGatherElems d \<and> (\<forall>k < 24. fresh (Chnl e ! k)) \<and>
     (\<forall>k < 24. k mod 12 < n \<longrightarrow> room (MaxNumScatterGatherElems d) (Chnl e ! k))"

lemma buffer_room:
  assumes "honest_buffers env" and "create_buffer env c b d = Inr e" and "4096 * w \<le> b"
  shows "\<exists>ev words la. e = upd_chnl c (\<lambda>x. x\<lparr>CommonBuffer := words, CommonBufferBaseLA := la\<rparr>) (event ev d) \<and>
    4 * (200 * w) \<le> length words"
proof -
  obtain words la where b: "buffer_answer env (length (trace d)) b = (words, la)" by fastforce
  have "b \<le> 4 * length words" using assms(1) b unfolding honest_buffers_def by (metis fst_conv)
  with assms(2,3) b show ?thesis
    by (intro exI [of _ "WdfCreate (CommonBufferObj b)"] exI [of _ words] exI [of _ la])
      (auto simp: create_buffer_def and_then_Inr create_Inr)
qed

lemma width_masks: "unat (drop_bit 19 info AND 0xF :: u32) \<le> unat (drop_bit 19 info AND 0x1F :: u32)"
proof -
  have m: "(x :: u32) AND 0xF = take_bit 4 x" "x AND 0x1F = take_bit 5 x" for x
    by (simp_all add: take_bit_eq_mask mask_eq_exp_minus_1)
  have "n mod 16 \<le> n mod 32" for n :: nat
    using mod_less_eq_dividend [of "n mod 32" 16] mod_mod_cancel [of 16 32 n] by simp
  moreover have "unat (x AND 0xF) = unat x mod 2 ^ 4" "unat (x AND 0x1F) = unat x mod 2 ^ 5" for x :: u32
    unfolding m unsigned_take_bit_eq by (rule take_bit_eq_mod)+
  ultimately show ?thesis by simp
qed

lemma provided_chnl:
  assumes "honest_buffers env" and "provided_to n d e" and "create_chnl env info n e = Inr e'" and "n < 12"
    and "MaxNumScatterGatherElems d = 200 * unat (drop_bit 19 info AND 0xF)"
  shows "provided_to (Suc n) d e'"
proof -
  let ?w = "unat (drop_bit 19 info AND 0xF)"
  obtain e1 e2 where e1: "create_buffer env n (4096 * ?w) e = Inr e1"
    and e2: "create_buffer env (12 + n) (4096 * unat (drop_bit 19 info AND 0x1F)) e1 = Inr e2"
    and e': "Chnl e' = Chnl e2" "IntrData e' = IntrData e2" "NumChnls e' = NumChnls e2" "Bar0 e' = Bar0 e2"
      "MaxNumScatterGatherElems e' = MaxNumScatterGatherElems e2"
    using assms(3) by (auto simp: create_chnl_def and_then_Inr create_Inr win_simps event_def)
  obtain v1 w1 l1 where b1: "e1 = upd_chnl n (\<lambda>x. x\<lparr>CommonBuffer := w1, CommonBufferBaseLA := l1\<rparr>) (event v1 e)"
    "4 * (200 * ?w) \<le> length w1"
    using buffer_room [OF assms(1) e1, of ?w] by auto
  obtain v2 w2 l2 where b2: "e2 = upd_chnl (12 + n) (\<lambda>x. x\<lparr>CommonBuffer := w2, CommonBufferBaseLA := l2\<rparr>) (event v2 e1)"
    "4 * (200 * ?w) \<le> length w2"
    using buffer_room [OF assms(1) e2, of ?w] width_masks [of info] by auto
  have k: "k mod 12 < Suc n \<longleftrightarrow> k mod 12 < n \<or> k = n \<or> k = 12 + n" if "k < 24" for k
    using that assms(4) by (cases "k < 12") (auto simp: le_mod_geq)
  have c: "length (Chnl e2) = 24" "k < 24 \<Longrightarrow> Chnl e2 ! k =
      (if k = 12 + n then (Chnl e ! k)\<lparr>CommonBuffer := w2, CommonBufferBaseLA := l2\<rparr>
       else if k = n then (Chnl e ! k)\<lparr>CommonBuffer := w1, CommonBufferBaseLA := l1\<rparr> else Chnl e ! k)" for k
    using assms(2,4) by (simp_all add: b1(1) b2(1) win_simps provided_to_def nth_list_update)
  have o: "IntrData e' = IntrData e" "NumChnls e' = NumChnls e" "Bar0 e' = Bar0 e"
    "MaxNumScatterGatherElems e' = MaxNumScatterGatherElems e"
    by (simp_all add: e' b1(1) b2(1) win_simps upd_chnl_def event_def)
  show ?thesis
    using assms(2,5) b1(2) b2(2) by (auto simp: provided_to_def fresh_def room_def e'(1) o c k)
qed

lemma provided_chnls:
  assumes "honest_buffers env" and "provided_to 0 d d" and "n \<le> 12"
    and "MaxNumScatterGatherElems d = 200 * unat (drop_bit 19 info AND 0xF)"
    and "create_chnls env info [0..<n] d = Inr e"
  shows "provided_to n d e"
  using assms(3,5)
proof (induction n arbitrary: e)
  case 0
  then show ?case using assms(2) by (simp add: create_chnls_def)
next
  case (Suc n)
  then obtain e0 where "create_chnls env info [0..<n] d = Inr e0" "create_chnl env info n e0 = Inr e"
    by (auto simp: create_chnls_def and_then_Inr)
  with Suc provided_chnl [OF assms(1) _ _ _ assms(4)] show ?case by simp
qed

lemma find_bar0_effect:
  assumes "find_bar0 env rs found d = Inr (found', e)" and "found \<longrightarrow> Bar0 d \<noteq> None"
  shows "(found' \<longrightarrow> Bar0 e \<noteq> None) \<and> Chnl e = Chnl d \<and> IntrData e = IntrData d"
  using assms
proof (induction env rs found d rule: find_bar0.induct)
  case (4 env start len rs found d)
  then show ?case by (auto simp: Let_def event_def split: if_splits)
qed simp_all

lemma find_bar0_stops: "find_bar0 env rs found d = Inl r \<Longrightarrow> refused r"
proof (induction env rs found d rule: find_bar0.induct)
  case (4 env start len rs found d)
  then show ?case by (auto simp: Let_def refused_def NT_SUCCESS_def split: if_splits)
qed (auto simp: refused_def NT_SUCCESS_def)

lemma read_ids_effect:
  assumes "RiffaReadHardwareIds hw d = Some (st, e)"
  shows "Chnl e = Chnl d" "IntrData e = IntrData d" "Bar0 e = Bar0 d"
  using assms by (auto simp: RiffaReadHardwareIds_def Let_def split: sum.splits option.splits if_splits)

lemma info_valid_bounds:
  assumes "info_valid info"
  shows "1 \<le> unat (info AND 0xF)" "unat (info AND 0xF) \<le> 12"
    "1 \<le> unat (drop_bit 19 info AND 0xF)" "unat (drop_bit 19 info AND 0xF) \<le> 4"
  using assms by (auto simp: info_valid_def word_le_nat_alt word_less_nat_alt not_less Suc_le_eq unat_gt_0)

lemma added_device:
  assumes "RiffaEvtDeviceAdd env d0 = (st0, d)" and "NT_SUCCESS st0"
  shows "Chnl d = replicate 24 zero_chnl" "IntrData d = replicate 24 no_intr"
proof -
  let ?s = "and_then (create env DeviceObj d0) (\<lambda>d.
      and_then (create env QueueObj (init_device d)) (\<lambda>d.
      and_then (create env DispatchingObj d) (\<lambda>d.
      and_then (create env InterruptObj d) (\<lambda>d.
      and_then (create env DmaEnablerObj d)
        (create env InterfaceObj)))))"
  have "stops_with_error ?s" by (simp add: stops_then)
  from stage_success [OF this assms(1) [unfolded RiffaEvtDeviceAdd_def] assms(2)]
  show "Chnl d = replicate 24 zero_chnl" "IntrData d = replicate 24 no_intr"
    by (auto simp: and_then_Inr create_Inr init_device_def win_simps)
qed

text \<open>A successful preparation went through all its stages.\<close>

lemma prepared_stages:
  assumes "RiffaEvtDevicePrepareHardware env hw rs d = Some (st, e)" and "NT_SUCCESS st"
  shows "\<exists>d1 st2 d2 info d3 d4. find_bar0 env rs False d = Inr (True, d1) \<and>
    RiffaReadHardwareIds hw d1 = Some (st2, d2) \<and> read_info env d2 = (info, d3) \<and> info_valid info \<and>
    create_chnls env info [0..<NumChnls d3] d3 = Inr d4 \<and> create_spill env d4 = Inr e"
proof -
  obtain d1 where d1: "find_bar0 env rs False d = Inr (True, d1)"
    using assms find_bar0_stops [of env rs False d]
    by (auto simp: RiffaEvtDevicePrepareHardware_def refused_def NT_SUCCESS_def split: sum.splits prod.splits if_splits)
  obtain st2 d2 where d2: "RiffaReadHardwareIds hw d1 = Some (st2, d2)" "NT_SUCCESS st2"
    using assms d1 by (auto simp: RiffaEvtDevicePrepareHardware_def split: option.splits if_splits)
  obtain info d3 where d3: "read_info env d2 = (info, d3)" "info_valid info"
    using assms d1 d2
    by (auto simp: RiffaEvtDevicePrepareHardware_def NT_SUCCESS_def split: prod.splits if_splits)
  let ?s = "and_then (create_chnls env info [0..<NumChnls d3] d3) (create_spill env)"
  have "stage_result ?s = (st, e)"
    using assms(1) d1 d2 d3 by (simp add: RiffaEvtDevicePrepareHardware_def)
  then have "?s = Inr e" using assms(2) by (intro stage_success) (simp_all add: stops_then)
  then obtain d4 where d4: "create_chnls env info [0..<NumChnls d3] d3 = Inr d4" "create_spill env d4 = Inr e"
    by (auto simp: and_then_Inr)
  with d1 d2(1) d3 show ?thesis by blast
qed

text \<open>C15: A device that was added and prepared without an error is well-formed: it has between one and twelve
  channels, all of them unused, and common buffers with room for all scatter gather elements.
\<close>

theorem prepared_device_ok:
  assumes "RiffaEvtDeviceAdd env d0 = (st0, d)" and "NT_SUCCESS st0"
    and "RiffaEvtDevicePrepareHardware env hw rs d = Some (st, e)" and "NT_SUCCESS st" and "honest_buffers env"
  shows "device_ok e \<and> 1 \<le> NumChnls e \<and> Bar0 e \<noteq> None \<and> (\<forall>k < 24. fresh (Chnl e ! k)) \<and>
    MaxNumScatterGatherElems e \<in> {200, 400, 600, 800}"
proof -
  note d = added_device [OF assms(1,2)]
  from prepared_stages [OF assms(3,4)] obtain d1 st2 d2 info d3 d4 where
    d1: "find_bar0 env rs False d = Inr (True, d1)" and d2: "RiffaReadHardwareIds hw d1 = Some (st2, d2)"
    and d3: "read_info env d2 = (info, d3)" "info_valid info"
    and d4: "create_chnls env info [0..<NumChnls d3] d3 = Inr d4" "create_spill env d4 = Inr e" by blast
  note b1 = find_bar0_effect [OF d1]
  have f3: "Chnl d3 = replicate 24 zero_chnl" "IntrData d3 = replicate 24 no_intr" "Bar0 d3 \<noteq> None"
    "NumChnls d3 = unat (info AND 0xF)" "MaxNumScatterGatherElems d3 = 200 * unat (drop_bit 19 info AND 0xF)"
    using d3(1) b1 read_ids_effect [OF d2] d
    by (auto simp: read_info_def READ_REGISTER_def event_def)
  note v = info_valid_bounds [OF d3(2)]
  have "provided_to 0 d3 d3" using f3 by (simp add: provided_to_def fresh_def zero_chnl_def)
  from provided_chnls [OF assms(5) this _ f3(5) d4(1)] have p: "provided_to (NumChnls d3) d3 d4"
    using v f3(4) by simp
  have e: "Chnl e = Chnl d4" "IntrData e = IntrData d4" "NumChnls e = NumChnls d4" "Bar0 e = Bar0 d4"
    "MaxNumScatterGatherElems e = MaxNumScatterGatherElems d4"
    using d4(2) by (auto simp: create_spill_def and_then_Inr create_Inr event_def split: prod.splits)
  have "Request x = None" if "fresh x" for x
    using that by (auto simp: fresh_def zero_chnl_def dest: arg_cong [where f = Request])
  moreover have "w \<in> {1, 2, 3, 4}" if "1 \<le> w" "w \<le> 4" for w :: nat using that by auto
  ultimately show ?thesis
    using p e f3 v by (auto simp: provided_to_def device_ok_def)
qed

text \<open>A framework that grants everything, and a device with one channel.\<close>

lemma granted_create: "\<forall>n. NT_SUCCESS (create_answer env n) \<Longrightarrow> \<exists>e. create env obj d = Inr e"
  by (simp add: create_def Let_def)

lemma granted_then: "\<exists>d. s = Inr d \<Longrightarrow> (\<And>d. \<exists>e. f d = Inr e) \<Longrightarrow> \<exists>e. and_then s f = Inr e"
  by auto

lemma granted_buffer: "\<forall>n. NT_SUCCESS (create_answer env n) \<Longrightarrow> \<exists>e. create_buffer env c b d = Inr e"
  by (simp add: create_buffer_def split_def Let_def granted_then granted_create)

lemma granted_chnl: "\<forall>n. NT_SUCCESS (create_answer env n) \<Longrightarrow> \<exists>e. create_chnl env info i d = Inr e"
  unfolding create_chnl_def by (intro granted_then granted_buffer granted_create)

lemma granted_chnls: "\<forall>n. NT_SUCCESS (create_answer env n) \<Longrightarrow> \<exists>e. create_chnls env info is d = Inr e"
proof -
  assume a: "\<forall>n. NT_SUCCESS (create_answer env n)"
  have "\<exists>d. s = Inr d \<Longrightarrow> \<exists>e. fold (\<lambda>i s. and_then s (create_chnl env info i)) is s = Inr e" for s
    by (induction "is" arbitrary: s) (use a in \<open>simp_all add: granted_then granted_chnl\<close>)
  then show ?thesis by (simp add: create_chnls_def)
qed

lemma granted_spill: "\<forall>n. NT_SUCCESS (create_answer env n) \<Longrightarrow> \<exists>e. create_spill env d = Inr e"
  by (simp add: create_spill_def split_def Let_def granted_then granted_create)

definition one_channel_env :: wenv where
  "one_channel_env = calm_env\<lparr>reg_value := (\<lambda>_ _. 0x80831)\<rparr>"

theorem prepared_device_ok_witness:
  "\<exists>d e. RiffaEvtDeviceAdd one_channel_env busy_device = (STATUS_SUCCESS, d) \<and>
    RiffaEvtDevicePrepareHardware one_channel_env sample_hw [Some OtherResource, Some (MemoryResource 0xF0000000 0x400)] d =
      Some (STATUS_SUCCESS, e) \<and> device_ok e \<and> 1 \<le> NumChnls e"
proof -
  let ?env = one_channel_env and ?rs = "[Some OtherResource, Some (MemoryResource 0xF0000000 0x400)]"
  have a: "\<forall>n. NT_SUCCESS (create_answer ?env n)" "honest_buffers ?env" "NT_SUCCESS STATUS_SUCCESS"
    by (simp_all add: one_channel_env_def calm_env_def NT_SUCCESS_def honest_buffers_def) presburger
  obtain d where d: "RiffaEvtDeviceAdd ?env busy_device = (STATUS_SUCCESS, d)"
    using a(1) by (auto simp: RiffaEvtDeviceAdd_def create_def Let_def)
  obtain d1 where d1: "find_bar0 ?env ?rs False d = Inr (True, d1)"
    by (simp add: one_channel_env_def calm_env_def Let_def)
  obtain d2 where d2: "RiffaReadHardwareIds sample_hw d1 = Some (STATUS_SUCCESS, d2)"
    using read_ids [of sample_hw 2 "0x1F0003" "0x10EE" "0x7021" "wchars ''&SUBSYS'' @ [0, 0]" d1]
    by (simp add: sample_hw_def wchars_simps)
  obtain d3 where d3: "read_info ?env d2 = (0x80831, d3)"
    by (simp add: read_info_def READ_REGISTER_def one_channel_env_def)
  have v: "info_valid 0x80831" by (simp add: info_valid_def drop_bit_eq_div)
  have "\<exists>e. and_then (create_chnls ?env 0x80831 [0..<NumChnls d3] d3) (create_spill ?env) = Inr e"
    by (intro granted_then granted_chnls granted_spill a(1))
  then obtain e where "RiffaEvtDevicePrepareHardware ?env sample_hw ?rs d = Some (STATUS_SUCCESS, e)"
    using d1 d2 d3 v a(3) by (auto simp: RiffaEvtDevicePrepareHardware_def)
  with prepared_device_ok [OF d a(3) this a(3) a(2)] d show ?thesis by blast
qed

section \<open>Release\<close>

lemma release_unmaps_once:
  "Bar0 d = Some a \<Longrightarrow>
    snd (RiffaEvtDeviceReleaseHardware (snd (RiffaEvtDeviceReleaseHardware d))) =
    (event (UnmapIo a (Bar0Length d)) d)\<lparr>Bar0 := None\<rparr>"
  by (simp add: RiffaEvtDeviceReleaseHardware_def)

end
